(* ===== verification/Prelude.thy ===== *)
theory Prelude
  imports Main "HOL-Library.Word" "HOL-Library.Signed_Division" "HOL-Library.Multiset"
begin

text \<open>
  What every component of the development shares: the outcomes a piece of C code can have
  besides a value (\<open>c_error\<close>, \<open>c_result\<close>), the C integer operations the sources use with their
  undefined cases written out, the events that record which resources a constructor holds,
  reachability of a step relation with the interfaces for invariants and simulations, and the
  list and ring-index lemmas the component proofs rest on.
\<close>

section \<open>Outcomes of C code\<close>

text \<open>
  The behaviours the C standard leaves undefined, or that end the program, become values: an
  expression of type \<open>'a c_result\<close> is either \<open>Inr v\<close> (the code goes on with the value \<open>v\<close>) or
  \<open>Inl e\<close> (the code ran into the undefined behaviour \<open>e\<close>). Loops that may not return are modelled
  by \<open>'a c_result option\<close>, where \<open>None\<close> means that the loop runs forever.
\<close>

datatype c_error =
    Null_Dereference
  | Use_After_Free
  | Double_Free
  | Out_Of_Bounds
  | Misaligned
  | Signed_Overflow
  | Division_By_Zero
  | Uninitialised_Read

type_synonym 'a c_result = "c_error + 'a"

fun bind_r :: "'a c_result \<Rightarrow> ('a \<Rightarrow> 'b c_result) \<Rightarrow> 'b c_result" where
  "bind_r (Inl e) f = Inl e"
| "bind_r (Inr x) f = f x"

lemma bind_r_Inr [simp]:
  "bind_r m f = Inr y \<longleftrightarrow> (\<exists>x. m = Inr x \<and> f x = Inr y)"
  by (cases m) auto

lemma bind_r_Inl:
  "bind_r m f = Inl e \<longleftrightarrow> m = Inl e \<or> (\<exists>x. m = Inr x \<and> f x = Inl e)"
  by (cases m) auto

lemma bind_r_assoc [simp]: "bind_r (bind_r m f) g = bind_r m (\<lambda>x. bind_r (f x) g)"
  by (cases m) auto

text \<open>The same for code that may not return.\<close>

fun bind_o :: "'a c_result option \<Rightarrow> ('a \<Rightarrow> 'b c_result option) \<Rightarrow> 'b c_result option" where
  "bind_o None f = None"
| "bind_o (Some (Inl e)) f = Some (Inl e)"
| "bind_o (Some (Inr x)) f = f x"

lemma bind_o_Inr: "bind_o m f = Some (Inr y) \<longleftrightarrow> (\<exists>x. m = Some (Inr x) \<and> f x = Some (Inr y))"
  by (cases "(m, f)" rule: bind_o.cases) auto

section \<open>C integers\<close>

text \<open>
  A C \<open>int\<close> has 32 bits on the targets of the build files; leaving its range is undefined, so the
  sum that an expression forms is checked. The remainder operator truncates towards zero.
\<close>

definition INT_MIN :: int where
  "INT_MIN = - 2147483648"

definition INT_MAX :: int where
  "INT_MAX = 2147483647"

definition c_int :: "int \<Rightarrow> int c_result" where
  "c_int x = (if INT_MIN \<le> x \<and> x \<le> INT_MAX then Inr x else Inl Signed_Overflow)"

definition c_rem :: "int \<Rightarrow> int \<Rightarrow> int c_result" where
  "c_rem a b = (if b = 0 then Inl Division_By_Zero else Inr (a smod b))"

lemma c_int_ok [simp]: "INT_MIN \<le> x \<Longrightarrow> x \<le> INT_MAX \<Longrightarrow> c_int x = Inr x"
  by (simp add: c_int_def)

lemma c_int_Inr [simp]: "c_int x = Inr y \<longleftrightarrow> y = x \<and> INT_MIN \<le> x \<and> x \<le> INT_MAX"
  by (auto simp: c_int_def)

lemma c_rem_nonneg: "0 \<le> a \<Longrightarrow> 0 < b \<Longrightarrow> c_rem a b = Inr (a mod b)"
  by (cases "a = 0") (auto simp: c_rem_def signed_modulo_int_def signed_divide_int_def
      sgn_if minus_div_mult_eq_mod)

section \<open>Resources held by constructors\<close>

text \<open>
  A constructor acquires resources one after the other and has to give them back when a later
  acquisition fails. Its model returns the sequence of acquisitions and releases it performs;
  \<open>live\<close> replays the sequence and yields the resources held at its end, or \<open>None\<close> when a
  resource is released that is not held.
\<close>

datatype 'r resource_event = Acquire 'r | Release 'r

fun live :: "'r resource_event list \<Rightarrow> 'r list \<Rightarrow> 'r list option" where
  "live [] held = Some held"
| "live (Acquire r # es) held = live es (r # held)"
| "live (Release r # es) held = (if r \<in> set held then live es (remove1 r held) else None)"

lemma live_append:
  "live (es @ fs) held = (case live es held of None \<Rightarrow> None | Some h \<Rightarrow> live fs h)"
  by (induction es held rule: live.induct) auto

lemma live_concat: "\<forall>es\<in>set ess. live es [] = Some [] \<Longrightarrow> live (concat ess) [] = Some []"
  by (induction ess) (simp_all add: live_append)

text \<open>The order in which resources are held does not matter; \<open>net\<close> keeps them in a multiset.\<close>

fun net :: "'r resource_event list \<Rightarrow> 'r multiset \<Rightarrow> 'r multiset option" where
  "net [] held = Some held"
| "net (Acquire r # es) held = net es (add_mset r held)"
| "net (Release r # es) held = (if r \<in># held then net es (held - {#r#}) else None)"

lemma net_append:
  "net (es @ fs) held = (case net es held of None \<Rightarrow> None | Some h \<Rightarrow> net fs h)"
  by (induction es held rule: net.induct) auto

lemma live_net: "map_option mset (live es held) = net es (mset held)"
  by (induction es held rule: live.induct) auto

lemma live_empty: "live es [] = Some [] \<longleftrightarrow> net es {#} = Some {#}"
  using live_net [of es "[]"] by (cases "live es []") auto

section \<open>Interleavings\<close>

text \<open>
  The actions of several threads in the order of a schedule, a list of thread numbers; a number whose
  thread is not there or has ended is skipped, and what remains at the end of the schedule runs
  thread by thread. Every interleaving is the result of a schedule.
\<close>

fun interleave :: "nat list \<Rightarrow> 'a list list \<Rightarrow> 'a list" where
  "interleave [] tss = concat tss"
| "interleave (i # is) tss =
     (if i < length tss \<and> tss ! i \<noteq> [] then hd (tss ! i) # interleave is (tss[i := tl (tss ! i)])
      else interleave is tss)"

lemma mset_concat_update:
  "i < length tss \<Longrightarrow> tss ! i = x # xs \<Longrightarrow> mset (concat tss) = add_mset x (mset (concat (tss[i := xs])))"
  by (induction tss arbitrary: i) (auto simp: nth_Cons' gr0_conv_Suc split: nat.splits if_splits)

lemma mset_interleave [simp]: "mset (interleave is tss) = mset (concat tss)"
proof (induction "is" arbitrary: tss)
  case (Cons i "is")
  show ?case
  proof (cases "i < length tss \<and> tss ! i \<noteq> []")
    case True
    then show ?thesis
      using Cons mset_concat_update [of i tss "hd (tss ! i)" "tl (tss ! i)"] by simp
  qed (auto simp: Cons)
qed simp

text \<open>A schedule that lets one thread run for a while.\<close>

lemma interleave_run:
  "i < length tss \<Longrightarrow> tss ! i = xs @ ys \<Longrightarrow> n = length xs \<Longrightarrow>
     interleave (replicate n i @ is) tss = xs @ interleave is (tss[i := ys])"
  by (induction xs arbitrary: tss n) auto

section \<open>Transition systems\<close>

text \<open>
  The concurrent components are step relations. A state is reachable when a finite number of
  steps leads to it from an initial state.
\<close>

inductive reachable :: "('s \<Rightarrow> bool) \<Rightarrow> ('s \<Rightarrow> 's \<Rightarrow> bool) \<Rightarrow> 's \<Rightarrow> bool"
  for init :: "'s \<Rightarrow> bool" and step :: "'s \<Rightarrow> 's \<Rightarrow> bool" where
  reach_init: "init s \<Longrightarrow> reachable init step s"
| reach_step: "reachable init step s \<Longrightarrow> step s t \<Longrightarrow> reachable init step t"

lemma reach_via:
  "reachable init step s \<Longrightarrow> step s t' \<Longrightarrow> t' = t \<Longrightarrow> reachable init step t"
  by (blast intro: reach_step)

text \<open>The contract of an inductive invariant, and what it gives.\<close>

locale invariant_of =
  fixes init :: "'s \<Rightarrow> bool"
    and step :: "'s \<Rightarrow> 's \<Rightarrow> bool"
    and inv :: "'s \<Rightarrow> bool"
  assumes inv_init: "init s \<Longrightarrow> inv s"
    and inv_step: "step s t \<Longrightarrow> inv s \<Longrightarrow> inv t"
begin

lemma reachable_inv: "reachable init step s \<Longrightarrow> inv s"
  by (induction rule: reachable.induct) (auto intro: inv_init inv_step)

lemma steps_inv: "step\<^sup>*\<^sup>* s t \<Longrightarrow> inv s \<Longrightarrow> inv t"
  by (induction rule: rtranclp_induct) (auto intro: inv_step)

end

text \<open>
  A forward simulation under an invariant: every concrete step is an abstract step or leaves the
  abstract state alone, so every reachable concrete state abstracts to a reachable abstract one.
\<close>

locale simulation = invariant_of init step inv
  for init :: "'s \<Rightarrow> bool" and step :: "'s \<Rightarrow> 's \<Rightarrow> bool" and inv :: "'s \<Rightarrow> bool" +
  fixes a_init :: "'a \<Rightarrow> bool"
    and a_step :: "'a \<Rightarrow> 'a \<Rightarrow> bool"
    and abs :: "'s \<Rightarrow> 'a"
  assumes sim_init: "init s \<Longrightarrow> a_init (abs s)"
    and sim_step: "step s t \<Longrightarrow> inv s \<Longrightarrow> abs t = abs s \<or> a_step (abs s) (abs t)"
begin

lemma reachable_abs: "reachable init step s \<Longrightarrow> reachable a_init a_step (abs s)"
proof (induction rule: reachable.induct)
  case (reach_init s)
  then show ?case by (auto intro: reachable.reach_init sim_init)
next
  case (reach_step s t)
  from reach_step.hyps(1) have "inv s" by (rule reachable_inv)
  with reach_step show ?case
    by (metis reachable.reach_step sim_step)
qed

end

section \<open>Sequences of calls\<close>

text \<open>
  A sequential component takes one call after the other. \<open>run_ops\<close> executes a list of calls on the
  concrete state and collects the results (\<open>None\<close> when a call does not return, \<open>Inl\<close> when one runs
  into undefined behaviour), \<open>run_spec\<close> does the same for a specification, and \<open>calls_ok\<close> says
  that every call of the list is made in a state that meets its precondition.
\<close>

fun run_ops :: "('s \<Rightarrow> 'o \<Rightarrow> ('r \<times> 's) c_result option) \<Rightarrow> 's \<Rightarrow> 'o list \<Rightarrow> ('r list \<times> 's) c_result option" where
  "run_ops f s [] = Some (Inr ([], s))"
| "run_ops f s (x # xs) =
     (case f s x of
        None \<Rightarrow> None
      | Some (Inl e) \<Rightarrow> Some (Inl e)
      | Some (Inr (r, t)) \<Rightarrow>
          (case run_ops f t xs of
             None \<Rightarrow> None
           | Some (Inl e) \<Rightarrow> Some (Inl e)
           | Some (Inr (rs, u)) \<Rightarrow> Some (Inr (r # rs, u))))"

lemma run_ops_append:
  "run_ops f s (xs @ ys) =
     (case run_ops f s xs of
        None \<Rightarrow> None
      | Some (Inl e) \<Rightarrow> Some (Inl e)
      | Some (Inr (rs, t)) \<Rightarrow>
          (case run_ops f t ys of
             None \<Rightarrow> None
           | Some (Inl e) \<Rightarrow> Some (Inl e)
           | Some (Inr (qs, u)) \<Rightarrow> Some (Inr (rs @ qs, u))))"
  by (induction xs arbitrary: s) (auto split: option.splits sum.splits prod.splits)

lemma run_ops_stop: "run_ops f s xs = Some (Inl e) \<Longrightarrow> run_ops f s (xs @ ys) = Some (Inl e)"
  by (simp add: run_ops_append)

lemma run_ops_then:
  "run_ops f s xs = Some (Inr (rs, t)) \<Longrightarrow> run_ops f t ys = Some (Inl e) \<Longrightarrow> run_ops f s (xs @ ys) = Some (Inl e)"
  by (simp add: run_ops_append)

fun run_spec :: "('a \<Rightarrow> 'o \<Rightarrow> 'r \<times> 'a) \<Rightarrow> 'a \<Rightarrow> 'o list \<Rightarrow> 'r list \<times> 'a" where
  "run_spec g a [] = ([], a)"
| "run_spec g a (x # xs) =
     (case g a x of (r, b) \<Rightarrow> case run_spec g b xs of (rs, c) \<Rightarrow> (r # rs, c))"

fun calls_ok :: "('s \<Rightarrow> 'o \<Rightarrow> ('r \<times> 's) c_result option) \<Rightarrow> ('s \<Rightarrow> 'o \<Rightarrow> bool) \<Rightarrow> 's \<Rightarrow> 'o list \<Rightarrow> bool" where
  "calls_ok f pre s [] = True"
| "calls_ok f pre s (x # xs) =
     (pre s x \<and> (case f s x of Some (Inr (r, t)) \<Rightarrow> calls_ok f pre t xs | _ \<Rightarrow> True))"

text \<open>A functional refinement of single calls extends to sequences of calls.\<close>

locale implements =
  fixes f :: "'s \<Rightarrow> 'o \<Rightarrow> ('r \<times> 's) c_result option"
    and g :: "'a \<Rightarrow> 'o \<Rightarrow> 'r \<times> 'a"
    and pre :: "'s \<Rightarrow> 'o \<Rightarrow> bool"
    and rel :: "'s \<Rightarrow> 'a \<Rightarrow> bool"
  assumes call: "rel s a \<Longrightarrow> pre s x \<Longrightarrow> \<exists>t. f s x = Some (Inr (fst (g a x), t)) \<and> rel t (snd (g a x))"
begin

lemma run:
  "rel s a \<Longrightarrow> calls_ok f pre s xs \<Longrightarrow>
     \<exists>t. run_ops f s xs = Some (Inr (fst (run_spec g a xs), t)) \<and> rel t (snd (run_spec g a xs))"
proof (induction xs arbitrary: s a)
  case (Cons x xs)
  then obtain t where t: "f s x = Some (Inr (fst (g a x), t))" "rel t (snd (g a x))"
    using call [of s a x] by auto
  with Cons.prems have "calls_ok f pre t xs" by simp
  with Cons.IH [OF t(2)] t(1) show ?case by (auto split: prod.splits)
qed simp

end

section \<open>Decimal numerals\<close>

text \<open>What the conversions \<open>%d\<close> and \<open>%ld\<close> print for a number that is not negative.\<close>

definition digit :: "nat \<Rightarrow> char" where
  "digit n = char_of (48 + n mod 10)"

fun decimal :: "nat \<Rightarrow> string" where
  "decimal n = (if n < 10 then [digit n] else decimal (n div 10) @ [digit n])"

declare decimal.simps [simp del]

lemma decimal_bound: "n < 10 ^ k \<Longrightarrow> 0 < k \<Longrightarrow> length (decimal n) \<le> k"
proof (induction n arbitrary: k rule: decimal.induct)
  case (1 n)
  show ?case
  proof (cases "n < 10")
    case False
    with 1(2,3) obtain j where j: "k = Suc j" "0 < j" by (cases k; cases "k - 1") auto
    then have "n div 10 < 10 ^ j" using 1(2) by (simp add: less_mult_imp_div_less)
    from 1(1) [OF False this j(2)] False j(1) show ?thesis by (simp add: decimal.simps [of n])
  qed (use 1(3) in \<open>simp add: decimal.simps\<close>)
qed

lemma digit_code: "of_char (digit n) = 48 + n mod 10"
  by (simp add: digit_def)

lemma decimal_digits: "c \<in> set (decimal n) \<Longrightarrow> \<exists>k. c = digit k"
proof (induction n rule: decimal.induct)
  case (1 n)
  from 1(2) have "c \<in> set (if n < 10 then [digit n] else decimal (n div 10) @ [digit n])"
    by (simp only: decimal.simps [of n])
  with 1(1) show ?case by (auto split: if_splits)
qed

definition undecimal :: "string \<Rightarrow> nat" where
  "undecimal s = foldl (\<lambda>k c. 10 * k + (of_char c - 48)) 0 s"

lemma undecimal_decimal: "undecimal (decimal n) = n"
proof (induction n rule: decimal.induct)
  case (1 n)
  then show ?case by (subst decimal.simps) (simp add: undecimal_def digit_code)
qed

section \<open>Ring buffers\<close>

text \<open>
  Three components keep a queue in an array of fixed size, starting at \<open>front\<close> and wrapping
  around. \<open>ring_view xs f n\<close> is the sequence of the \<open>n\<close> entries from index \<open>f\<close> on.
\<close>

definition ring_view :: "'a list \<Rightarrow> nat \<Rightarrow> nat \<Rightarrow> 'a list" where
  "ring_view xs f n = map (\<lambda>k. xs ! ((f + k) mod length xs)) [0..<n]"

named_theorems ring "facts about the ring view of an array"

lemma length_ring_view [simp, ring]: "length (ring_view xs f n) = n"
  by (simp add: ring_view_def)

lemma ring_view_0 [simp, ring]: "ring_view xs f 0 = []"
  by (simp add: ring_view_def)

lemma ring_view_eq_Nil [simp, ring]: "ring_view xs f n = [] \<longleftrightarrow> n = 0"
  by (simp add: ring_view_def)

lemma ring_view_hd [ring]: "0 < n \<Longrightarrow> f < length xs \<Longrightarrow> hd (ring_view xs f n) = xs ! f"
  by (simp add: ring_view_def hd_map)

lemma ring_view_advance [ring]:
  assumes "f < length xs" and "0 < n"
  shows "ring_view xs ((f + 1) mod length xs) (n - 1) = tl (ring_view xs f n)"
proof (rule nth_equalityI)
  fix k assume "k < length (ring_view xs ((f + 1) mod length xs) (n - 1))"
  then have "k < n - 1" "0 + Suc k < n" by simp_all
  then show "ring_view xs ((f + 1) mod length xs) (n - 1) ! k = tl (ring_view xs f n) ! k"
    using assms by (simp add: ring_view_def nth_tl mod_add_left_eq nth_upt)
qed simp

lemma ring_slot_fresh:
  assumes "k < n" and "n < c" and "f < c"
  shows "(f + k) mod c \<noteq> (f + n) mod (c::nat)"
  using assms by (auto simp: mod_if)

lemma ring_view_update [ring]:
  assumes "f < length xs" and "n < length xs"
  shows "ring_view (xs[(f + n) mod length xs := x]) f (Suc n) = ring_view xs f n @ [x]"
proof -
  have len: "xs \<noteq> []" using assms by auto
  have "xs[(f + n) mod length xs := x] ! ((f + k) mod length xs) = xs ! ((f + k) mod length xs)"
    if "k < n" for k
    using ring_slot_fresh [OF that assms(2,1)] by simp
  then show ?thesis
    using len by (simp add: ring_view_def)
qed

text \<open>The same with the C integers of the sources: index and count are \<open>int\<close>, the capacity is \<open>c\<close>.\<close>

lemma ring_put_int:
  assumes "0 \<le> f" "f < c" "0 \<le> n" "n < c" "length xs = nat c"
  shows "ring_view (xs[nat ((f + n) mod c) := x]) (nat f) (nat (n + 1)) = ring_view xs (nat f) (nat n) @ [x]"
proof -
  have "nat ((f + n) mod c) = (nat f + nat n) mod length xs"
    using assms by (simp add: nat_mod_distrib nat_add_distrib)
  moreover have "nat (n + 1) = Suc (nat n)" using assms(3) by simp
  ultimately show ?thesis
    using assms ring_view_update [of "nat f" xs "nat n" x] by simp
qed

lemma ring_take_int:
  assumes "0 \<le> f" "f < c" "0 < n" "length xs = nat c"
  shows "ring_view xs (nat f) (nat n) = xs ! nat f # ring_view xs (nat ((f + 1) mod c)) (nat (n - 1))"
proof -
  have f: "nat ((f + 1) mod c) = (nat f + 1) mod length xs" "nat (n - 1) = nat n - 1" "nat f < length xs"
    using assms by (simp_all add: nat_mod_distrib nat_add_distrib nat_diff_distrib)
  have "ring_view xs (nat f) (nat n) \<noteq> []" using assms(3) by simp
  moreover have "hd (ring_view xs (nat f) (nat n)) = xs ! nat f"
    using assms(3) f(3) by (simp add: ring_view_hd)
  moreover have "tl (ring_view xs (nat f) (nat n)) = ring_view xs (nat ((f + 1) mod c)) (nat (n - 1))"
    unfolding f(1,2) using assms(3) f(3) by (intro ring_view_advance [symmetric]) auto
  ultimately show ?thesis by (metis list.collapse)
qed

end
