(* ===== verification/Fifo.thy ===== *)
theory Fifo
  imports Prelude
begin

text \<open>
  The contract of a bounded first-in first-out queue, as the circular buffers of the
  producer/consumer queue, of the thread pool and of the shared-memory ring keep it, and what
  follows from the contract alone: along any sequence of insertions and removals, what comes out
  followed by what is still inside equals what was inside followed by what went in.
\<close>

section \<open>Abstract bounded queue\<close>

text \<open>
  The specification: a list of pending entries, a bound, and the entries that went in and came out
  so far. An insertion is possible below the bound, a removal takes the oldest entry.
\<close>

record 'a fifo_spec =
  pending :: "'a list"
  went_in :: "'a list"
  came_out :: "'a list"

definition fifo_init :: "'a fifo_spec \<Rightarrow> bool" where
  "fifo_init s \<longleftrightarrow> pending s = [] \<and> went_in s = [] \<and> came_out s = []"

inductive fifo_step :: "nat \<Rightarrow> 'a fifo_spec \<Rightarrow> 'a fifo_spec \<Rightarrow> bool" for bound :: nat where
  fifo_put: "length (pending s) < bound \<Longrightarrow>
    fifo_step bound s (s\<lparr>pending := pending s @ [x], went_in := went_in s @ [x]\<rparr>)"
| fifo_get: "pending s = x # xs \<Longrightarrow>
    fifo_step bound s (s\<lparr>pending := xs, came_out := came_out s @ [x]\<rparr>)"

definition fifo_inv :: "nat \<Rightarrow> 'a fifo_spec \<Rightarrow> bool" where
  "fifo_inv bound s \<longleftrightarrow>
     length (pending s) \<le> bound \<and> went_in s = came_out s @ pending s"

interpretation fifo: invariant_of fifo_init "fifo_step bound" "fifo_inv bound"
  by unfold_locales (auto simp: fifo_init_def fifo_inv_def elim!: fifo_step.cases)

section \<open>Contract of an implementation\<close>

text \<open>
  The operations may run into undefined behaviour (\<open>Inl\<close>); the contract promises that they do not
  as long as the invariant holds and the operation is enabled.
\<close>

locale bounded_fifo =
  fixes put :: "'q \<Rightarrow> 'a \<Rightarrow> 'q c_result"
    and get :: "'q \<Rightarrow> ('a \<times> 'q) c_result"
    and contents :: "'q \<Rightarrow> 'a list"
    and cap :: "'q \<Rightarrow> nat"
    and invar :: "'q \<Rightarrow> bool"
  assumes put_ok: "invar q \<Longrightarrow> length (contents q) < cap q \<Longrightarrow>
      \<exists>q'. put q x = Inr q' \<and> invar q' \<and> cap q' = cap q \<and> contents q' = contents q @ [x]"
    and get_ok: "invar q \<Longrightarrow> contents q = x # xs \<Longrightarrow>
      \<exists>q'. get q = Inr (x, q') \<and> invar q' \<and> cap q' = cap q \<and> contents q' = xs"
    and contents_bound: "invar q \<Longrightarrow> length (contents q) \<le> cap q"
begin

lemma put_Inr:
  assumes "invar q" "length (contents q) < cap q" "put q x = Inr q'"
  shows "invar q' \<and> cap q' = cap q \<and> contents q' = contents q @ [x]"
  using put_ok [OF assms(1,2), of x] assms(3) by auto

lemma get_Inr:
  assumes "invar q" "contents q \<noteq> []" "get q = Inr (x, q')"
  shows "invar q' \<and> cap q' = cap q \<and> contents q = x # contents q'"
proof -
  obtain y ys where "contents q = y # ys" using assms(2) by (cases "contents q") auto
  with get_ok [OF assms(1) this] assms(3) show ?thesis by auto
qed

lemma put_defined: "invar q \<Longrightarrow> length (contents q) < cap q \<Longrightarrow> \<exists>q'. put q x = Inr q'"
  using put_ok by blast

lemma get_defined: "invar q \<Longrightarrow> contents q \<noteq> [] \<Longrightarrow> \<exists>x q'. get q = Inr (x, q')"
  using get_ok by (cases "contents q") blast+

end

text \<open>A removal right after an insertion into an empty queue returns the entry inserted.\<close>

context bounded_fifo
begin

lemma put_get:
  assumes "invar q" "contents q = []" "0 < cap q"
  shows "\<exists>q' q''. put q x = Inr q' \<and> get q' = Inr (x, q'') \<and> contents q'' = []"
proof -
  obtain q' where q': "put q x = Inr q'" "invar q'" "contents q' = [x]"
    using put_ok [of q x] assms by auto
  with get_ok [of q' x "[]"] show ?thesis by auto
qed

end

section \<open>Operation sequences\<close>

text \<open>
  A sequence of operations on an implementation: \<open>Some x\<close> inserts \<open>x\<close>, \<open>None\<close> removes the oldest
  entry. \<open>fifo_run\<close> follows the operations with \<open>put\<close> and \<open>get\<close> passed in; it stops at undefined
  behaviour.
\<close>

fun fifo_run ::
  "('q \<Rightarrow> 'a \<Rightarrow> 'q c_result) \<Rightarrow> ('q \<Rightarrow> ('a \<times> 'q) c_result) \<Rightarrow>
   'a option list \<Rightarrow> 'q \<Rightarrow> 'a list \<Rightarrow> ('a list \<times> 'q) c_result" where
  "fifo_run put get [] q out = Inr (out, q)"
| "fifo_run put get (Some x # ops) q out = bind_r (put q x) (\<lambda>q'. fifo_run put get ops q' out)"
| "fifo_run put get (None # ops) q out =
     bind_r (get q) (\<lambda>(x, q'). fifo_run put get ops q' (out @ [x]))"

text \<open>A sequence is admissible from \<open>n\<close> entries under the bound \<open>c\<close> when no operation would block.\<close>

fun admissible :: "nat \<Rightarrow> nat \<Rightarrow> 'a option list \<Rightarrow> bool" where
  "admissible c n [] = True"
| "admissible c n (Some x # ops) = (n < c \<and> admissible c (Suc n) ops)"
| "admissible c n (None # ops) = (0 < n \<and> admissible c (n - 1) ops)"

definition inserted :: "'a option list \<Rightarrow> 'a list" where
  "inserted ops = map the (filter (\<lambda>x. x \<noteq> None) ops)"

lemma inserted_simps [simp]:
  "inserted [] = []" "inserted (Some x # ops) = x # inserted ops" "inserted (None # ops) = inserted ops"
  by (simp_all add: inserted_def)

context bounded_fifo
begin

lemma fifo_run_history:
  assumes "invar q" "admissible (cap q) (length (contents q)) ops"
  shows "\<exists>out' q'. fifo_run put get ops q out = Inr (out @ out', q') \<and> invar q' \<and> cap q' = cap q \<and>
           contents q @ inserted ops = out' @ contents q'"
  using assms
proof (induction ops arbitrary: q out)
  case Nil
  then show ?case by simp
next
  case (Cons op ops)
  show ?case
  proof (cases op)
    case (Some x)
    then obtain q' where q': "put q x = Inr q'" "invar q'" "cap q' = cap q"
        "contents q' = contents q @ [x]"
      using Cons.prems put_ok [of q x] by auto
    with Cons.IH [of q' out] Cons.prems Some show ?thesis by auto
  next
    case None
    then obtain x xs where c: "contents q = x # xs"
      using Cons.prems by (cases "contents q") auto
    then obtain q' where q': "get q = Inr (x, q')" "invar q'" "cap q' = cap q" "contents q' = xs"
      using get_ok Cons.prems by blast
    with Cons.IH [of q' "out @ [x]"] Cons.prems None c show ?thesis by auto
  qed
qed

end

end
