(* ===== verification/Monitor.thy ===== *)
theory Monitor
  imports Prelude
begin

text \<open>
  Threads that share one mutex and its condition variables. The control state of a thread says
  where it stands with respect to the mutex; \<open>pthread_cond_signal\<close> and \<open>pthread_cond_broadcast\<close>
  become operations on the control states of all threads. The predicate \<open>covered\<close> is the invariant
  behind the absence of lost wake-ups, with the lemmas that each kind of step keeps it.
\<close>

section \<open>Control states\<close>

text \<open>
  \<open>Calling c\<close>: about to lock the mutex for the operation \<open>c\<close>; \<open>Inside c\<close>: holds the mutex and is
  about to test the condition of \<open>c\<close>; \<open>Sleeping c\<close>: in \<open>pthread_cond_wait\<close>, the mutex released;
  \<open>Woken c\<close>: woken up and about to take the mutex again; \<open>Leaving r\<close>: holds the mutex and is about to
  release it with the result \<open>r\<close>; \<open>Returned r\<close>: released it.
\<close>

datatype ('c, 'r) pc =
    Idle
  | Calling 'c
  | Inside 'c
  | Sleeping 'c
  | Woken 'c
  | Leaving 'r
  | Returned 'r

fun holds_mutex :: "('c, 'r) pc \<Rightarrow> bool" where
  "holds_mutex (Inside c) = True"
| "holds_mutex (Leaving r) = True"
| "holds_mutex _ = False"

fun sleeps :: "('c \<Rightarrow> bool) \<Rightarrow> ('c, 'r) pc \<Rightarrow> bool" where
  "sleeps p (Sleeping c) = p c"
| "sleeps p _ = False"

fun roused :: "('c \<Rightarrow> bool) \<Rightarrow> ('c, 'r) pc \<Rightarrow> bool" where
  "roused p (Woken c) = p c"
| "roused p (Inside c) = p c"
| "roused p _ = False"

fun wake :: "('c, 'r) pc \<Rightarrow> ('c, 'r) pc" where
  "wake (Sleeping c) = Woken c"
| "wake x = x"

type_synonym ('c, 'r) threads = "nat \<Rightarrow> ('c, 'r) pc"

text \<open>
  Signalling the condition variable on which the operations in \<open>p\<close> wait: one sleeper wakes up if
  there is one, otherwise nothing happens. A broadcast wakes all of them.
\<close>

definition signal_one :: "('c \<Rightarrow> bool) \<Rightarrow> ('c, 'r) threads \<Rightarrow> ('c, 'r) threads \<Rightarrow> bool" where
  "signal_one p f g \<longleftrightarrow>
     (\<exists>u. sleeps p (f u) \<and> g = f(u := wake (f u))) \<or> ((\<forall>u. \<not> sleeps p (f u)) \<and> g = f)"

definition broadcast :: "('c \<Rightarrow> bool) \<Rightarrow> ('c, 'r) threads \<Rightarrow> ('c, 'r) threads" where
  "broadcast p f = (\<lambda>u. if sleeps p (f u) then wake (f u) else f u)"

lemma sleeps_wake [simp]: "\<not> sleeps p (wake x)"
  by (cases x) auto

lemma roused_wake [simp]: "roused p (wake x) \<longleftrightarrow> roused p x \<or> sleeps p x"
  by (cases x) auto

lemma holds_wake [simp]: "holds_mutex (wake x) = holds_mutex x"
  by (cases x) auto

lemma wake_eq_Idle [simp]: "wake x = Idle \<longleftrightarrow> x = Idle"
  by (cases x) auto

lemma sleeps_not_roused: "sleeps p x \<Longrightarrow> \<not> roused q x"
  by (cases x) auto

lemma signal_one_exists: "\<exists>g. signal_one p f g"
  unfolding signal_one_def by blast

lemma signal_one_holds: "signal_one p f g \<Longrightarrow> holds_mutex (g t) = holds_mutex (f t)"
  by (auto simp: signal_one_def split: if_splits)

lemma signal_one_cases:
  assumes "signal_one p f g"
  shows "g t = f t \<or> sleeps p (f t) \<and> g t = wake (f t)"
  using assms by (auto simp: signal_one_def split: if_splits)

section \<open>The mutex\<close>

text \<open>The owner recorded for the mutex is the one thread that is between its lock and its unlock.\<close>

definition mutex_ok :: "nat option \<Rightarrow> ('c, 'r) threads \<Rightarrow> bool" where
  "mutex_ok owner f \<longleftrightarrow> (\<forall>t. holds_mutex (f t) \<longleftrightarrow> owner = Some t)"

lemma mutex_ok_free: "mutex_ok None f \<Longrightarrow> \<not> holds_mutex (f t)"
  by (simp add: mutex_ok_def)

lemma mutex_ok_exclusive:
  "mutex_ok ow f \<Longrightarrow> holds_mutex (f t) \<Longrightarrow> holds_mutex (f u) \<Longrightarrow> t = u"
  by (simp add: mutex_ok_def)

lemma mutex_ok_acquire:
  "mutex_ok None f \<Longrightarrow> holds_mutex x \<Longrightarrow> mutex_ok (Some t) (f(t := x))"
  by (auto simp: mutex_ok_def)

lemma mutex_ok_release:
  "mutex_ok ow f \<Longrightarrow> holds_mutex (f t) \<Longrightarrow> \<not> holds_mutex x \<Longrightarrow> mutex_ok None (f(t := x))"
  by (auto simp: mutex_ok_def)

lemma mutex_ok_keep:
  "mutex_ok ow f \<Longrightarrow> holds_mutex x = holds_mutex (f t) \<Longrightarrow> mutex_ok ow (f(t := x))"
  by (auto simp: mutex_ok_def)

lemma mutex_ok_signal: "mutex_ok ow f \<Longrightarrow> signal_one p f g \<Longrightarrow> mutex_ok ow g"
  by (simp add: mutex_ok_def signal_one_holds)

lemma mutex_ok_broadcast: "mutex_ok ow f \<Longrightarrow> mutex_ok ow (broadcast p f)"
  by (simp add: mutex_ok_def broadcast_def)

lemmas mutex_ok_intros =
  mutex_ok_acquire mutex_ok_release mutex_ok_keep mutex_ok_signal mutex_ok_broadcast

section \<open>Wake-ups\<close>

text \<open>
  While some operation in \<open>p\<close> sleeps, at least \<open>n\<close> operations in \<open>p\<close> have been woken, or hold the
  mutex, and have yet to test their condition. With \<open>n\<close> the number of resources the operations
  wait for, this says that no wake-up was lost.
\<close>

definition covered :: "nat \<Rightarrow> ('c \<Rightarrow> bool) \<Rightarrow> ('c, 'r) threads \<Rightarrow> bool" where
  "covered n p f \<longleftrightarrow> ((\<exists>u. sleeps p (f u)) \<longrightarrow> n \<le> card {t. roused p (f t)})"

definition finitely_many :: "('c, 'r) threads \<Rightarrow> bool" where
  "finitely_many f \<longleftrightarrow> finite {t. f t \<noteq> Idle}"

lemma finitely_many_upd [simp]: "finitely_many f \<Longrightarrow> finitely_many (f(t := x))"
  unfolding finitely_many_def
  by (rule finite_subset [of _ "insert t {u. f u \<noteq> Idle}"]) auto

lemma finitely_many_roused: "finitely_many f \<Longrightarrow> finite {t. roused p (f t)}"
  unfolding finitely_many_def by (rule finite_subset) auto

lemma finitely_many_signal: "finitely_many f \<Longrightarrow> signal_one p f g \<Longrightarrow> finitely_many g"
  by (auto simp: signal_one_def)

lemma finitely_many_broadcast [simp]: "finitely_many f \<Longrightarrow> finitely_many (broadcast p f)"
  unfolding finitely_many_def broadcast_def by (rule finite_subset) (auto split: if_splits)

lemma coveredD: "covered n p f \<Longrightarrow> sleeps p (f u) \<Longrightarrow> 0 < n \<Longrightarrow> \<exists>t. roused p (f t)"
  unfolding covered_def by (metis Collect_empty_eq card.empty leD)

lemma covered_0 [simp]: "covered 0 p f"
  by (simp add: covered_def)

lemma covered_mono:
  assumes "covered n p f" "finitely_many g" "m \<le> n"
    and "\<And>u. sleeps p (g u) \<Longrightarrow> sleeps p (f u)" "\<And>u. roused p (f u) \<Longrightarrow> roused p (g u)"
  shows "covered m p g"
proof -
  have "card {t. roused p (f t)} \<le> card {t. roused p (g t)}"
    using assms(5) by (intro card_mono finitely_many_roused assms(2)) auto
  with assms show ?thesis by (force simp: covered_def)
qed

lemma covered_upd:
  assumes "covered n p f" "finitely_many f" "\<not> sleeps p x" "roused p (f t) \<Longrightarrow> roused p x"
  shows "covered n p (f(t := x))"
  by (rule covered_mono [OF assms(1)]) (use assms in \<open>auto split: if_splits\<close>)

lemma covered_leave:
  assumes "covered n p f" "finitely_many f" "\<not> sleeps p x"
  shows "covered (n - 1) p (f(t := x))"
proof (cases "\<exists>u. sleeps p ((f(t := x)) u)")
  case True
  have "{u. roused p (f u)} - {t} \<subseteq> {u. roused p ((f(t := x)) u)}" by auto
  then have "card ({u. roused p (f u)} - {t}) \<le> card {u. roused p ((f(t := x)) u)}"
    by (intro card_mono finitely_many_roused finitely_many_upd assms(2))
  moreover have "card {u. roused p (f u)} - 1 \<le> card ({u. roused p (f u)} - {t})"
    by (simp add: card_Diff_singleton_if)
  moreover have "n \<le> card {u. roused p (f u)}"
    using True assms(1,3) by (auto simp: covered_def split: if_splits)
  ultimately have "n - 1 \<le> card {u. roused p ((f(t := x)) u)}" by linarith
  then show ?thesis unfolding covered_def ..
next
  case False
  then show ?thesis unfolding covered_def by blast
qed

lemma covered_signal:
  assumes "covered n p f" "finitely_many f" "signal_one p f g"
  shows "covered (Suc n) p g"
proof (cases "\<exists>u. sleeps p (f u)")
  case True
  with assms(3) obtain u where u: "sleeps p (f u)" "g = f(u := wake (f u))"
    by (auto simp: signal_one_def)
  have "{t. roused p (g t)} = insert u {t. roused p (f t)}"
    using u by auto
  moreover have "u \<notin> {t. roused p (f t)}"
    using u(1) by (auto dest: sleeps_not_roused)
  ultimately have "card {t. roused p (g t)} = Suc (card {t. roused p (f t)})"
    using assms(2) by (simp add: finitely_many_roused)
  with assms(1) u(1) show ?thesis by (auto simp: covered_def)
next
  case False
  with assms(3) show ?thesis by (auto simp: covered_def signal_one_def)
qed

lemma covered_signal_any:
  assumes "covered n p f" "finitely_many f" "signal_one q f g"
  shows "covered n p g"
proof (rule covered_mono [OF assms(1)])
  show "finitely_many g" using assms(2,3) by (rule finitely_many_signal)
  show "sleeps p (g u) \<Longrightarrow> sleeps p (f u)" for u
    using signal_one_cases [OF assms(3), of u] by auto
  show "roused p (f u) \<Longrightarrow> roused p (g u)" for u
    using signal_one_cases [OF assms(3), of u] by auto
qed simp

lemma covered_broadcast: "covered n p (broadcast p f)"
  by (auto simp: covered_def broadcast_def)

lemma covered_broadcast_any:
  "covered n p f \<Longrightarrow> finitely_many f \<Longrightarrow> covered n p (broadcast q f)"
  by (erule covered_mono) (simp_all, auto simp: broadcast_def split: if_splits)

section \<open>Waking up some sleepers\<close>

text \<open>What signals and broadcasts have in common: some sleepers wake up, nothing else changes.\<close>

definition wakes :: "('c, 'r) threads \<Rightarrow> ('c, 'r) threads \<Rightarrow> bool" where
  "wakes f g \<longleftrightarrow> (\<forall>u. g u = f u \<or> (\<exists>c. f u = Sleeping c \<and> g u = Woken c))"

lemma wakes_refl [simp]: "wakes f f"
  by (simp add: wakes_def)

lemma wakes_trans: "wakes f g \<Longrightarrow> wakes g h \<Longrightarrow> wakes f h"
  unfolding wakes_def
proof
  fix u
  assume "\<forall>u. g u = f u \<or> (\<exists>c. f u = Sleeping c \<and> g u = Woken c)"
    and "\<forall>u. h u = g u \<or> (\<exists>c. g u = Sleeping c \<and> h u = Woken c)"
  then show "h u = f u \<or> (\<exists>c. f u = Sleeping c \<and> h u = Woken c)"
    by (auto dest!: spec [of _ u])
qed

lemma wakes_signal: "signal_one p f g \<Longrightarrow> wakes f g"
  unfolding wakes_def
proof
  fix u assume "signal_one p f g"
  then show "g u = f u \<or> (\<exists>c. f u = Sleeping c \<and> g u = Woken c)"
    using signal_one_cases [of p f g u] by (cases "f u") auto
qed

lemma wakes_broadcast: "wakes f (broadcast p f)"
  unfolding wakes_def
proof
  fix u
  show "broadcast p f u = f u \<or> (\<exists>c. f u = Sleeping c \<and> broadcast p f u = Woken c)"
    by (cases "f u") (auto simp: broadcast_def)
qed

lemma wakesE:
  assumes "wakes f g"
  obtains "g u = f u" | c where "f u = Sleeping c" "g u = Woken c"
  using assms by (auto simp: wakes_def)

lemma wakes_awake: "wakes f g \<Longrightarrow> (\<And>c. f u \<noteq> Sleeping c) \<Longrightarrow> g u = f u"
  by (auto simp: wakes_def)

lemma wakes_eq_iff:
  assumes "wakes f g" "\<And>c. x \<noteq> Sleeping c" "\<And>c. x \<noteq> Woken c"
  shows "g u = x \<longleftrightarrow> f u = x"
  using assms(2,3) by (cases rule: wakesE [OF assms(1), of u]) auto

lemma wakes_sleeps: "wakes f g \<Longrightarrow> sleeps p (g u) \<Longrightarrow> sleeps p (f u) \<and> g u = f u"
  by (cases rule: wakesE [of f g u]) auto

lemma wakes_holds: "wakes f g \<Longrightarrow> holds_mutex (g u) = holds_mutex (f u)"
  by (cases rule: wakesE [of f g u]) auto

lemma mutex_ok_wakes: "mutex_ok ow f \<Longrightarrow> wakes f g \<Longrightarrow> mutex_ok ow g"
  by (simp add: mutex_ok_def wakes_holds [of f g])

lemma finitely_many_wakes:
  assumes "finitely_many f" "wakes f g"
  shows "finitely_many g"
proof -
  have "{t. g t \<noteq> Idle} \<subseteq> {t. f t \<noteq> Idle}" using wakes_eq_iff [OF assms(2), of Idle] by auto
  then show ?thesis using assms(1) finite_subset unfolding finitely_many_def by blast
qed

lemma covered_wakes:
  assumes "covered n p f" "finitely_many f" "wakes f g"
  shows "covered n p g"
proof (rule covered_mono [OF assms(1)])
  show "finitely_many g" using assms(2,3) by (rule finitely_many_wakes)
  show "sleeps p (g u) \<Longrightarrow> sleeps p (f u)" for u
    using wakes_sleeps [OF assms(3)] by blast
  show "roused p (f u) \<Longrightarrow> roused p (g u)" for u
    by (cases rule: wakesE [OF assms(3), of u]) auto
qed simp

section \<open>The callers\<close>

text \<open>What a thread that calls the operations can see: it is between two calls, in a call without a result, or has a result.\<close>

fun between_calls :: "('c, 'r) pc \<Rightarrow> bool" where
  "between_calls Idle = True"
| "between_calls (Returned r) = True"
| "between_calls _ = False"

definition in_call :: "'c \<Rightarrow> ('c, 'r) pc \<Rightarrow> bool" where
  "in_call c x \<longleftrightarrow> x = Calling c \<or> x = Inside c \<or> x = Sleeping c \<or> x = Woken c"

definition result_is :: "'r \<Rightarrow> ('c, 'r) pc \<Rightarrow> bool" where
  "result_is r x \<longleftrightarrow> x = Leaving r \<or> x = Returned r"

lemma in_call_unique: "in_call c x \<Longrightarrow> in_call d x \<Longrightarrow> c = d"
  by (auto simp: in_call_def)

lemma in_call_busy: "in_call c x \<Longrightarrow> \<not> between_calls x \<and> \<not> result_is r x"
  by (auto simp: in_call_def result_is_def)

lemma result_is_simps [simp]:
  "result_is r (Leaving r') \<longleftrightarrow> r = r'" "result_is r (Returned r') \<longleftrightarrow> r = r'" "\<not> result_is r Idle" "\<not> result_is r (Inside c)"
  "\<not> result_is r (Calling c)"
  by (auto simp: result_is_def)

lemma result_unique: "result_is r x \<Longrightarrow> result_is r' x \<longleftrightarrow> r' = r"
  by (auto simp: result_is_def)

lemma wakes_in_call: "wakes f g \<Longrightarrow> in_call c (g u) = in_call c (f u)"
  by (cases rule: wakesE [of f g u]) (auto simp: in_call_def)

lemma wakes_result: "wakes f g \<Longrightarrow> result_is r (g u) = result_is r (f u)"
  by (cases rule: wakesE [of f g u]) (auto simp: result_is_def)

lemma wakes_between: "wakes f g \<Longrightarrow> between_calls (g u) = between_calls (f u)"
  by (cases rule: wakesE [of f g u]) auto

end
