(* ===== verification/Bounded_Queue.thy ===== *)
theory Bounded_Queue
  imports Fifo Monitor
begin

text \<open>
  The thread-safe bounded queue of \<open>03_threads/producer_consumer\<close> (\<open>queue.h\<close>, \<open>queue.c\<close>): the
  struct as a record, the critical sections of its operations as functions on the record, the
  constructor with its resources, and all operations run by any number of threads as a step
  relation over the mutex and the two condition variables.
\<close>

section \<open>Data\<close>

text \<open>
  An item is a \<open>void*\<close>: \<open>None\<close> is the null pointer. The slots of a fresh array hold nothing that the
  code relies on and start as \<open>None\<close>.
\<close>

record 'a queue =
  q_items :: "'a option list"
  q_capacity :: int
  q_size :: int
  q_front :: int

section \<open>Creation and destruction\<close>

datatype queue_resource = Queue_Struct | Queue_Items | Queue_Mutex | Queue_Cond_Full | Queue_Cond_Empty

text \<open>
  The outcome of the two allocations and of the three initialisations, in the order the code asks
  for them.
\<close>

record queue_env =
  malloc_queue :: bool
  malloc_items :: bool
  init_mutex :: bool
  init_cond_full :: bool
  init_cond_empty :: bool

definition queue_create ::
  "queue_env \<Rightarrow> int \<Rightarrow> queue_resource resource_event list \<times> 'a queue option" where
  "queue_create env capacity =
     (if \<not> malloc_queue env then ([], None)
      else if \<not> malloc_items env then ([Acquire Queue_Struct, Release Queue_Struct], None)
      else let q = \<lparr>q_items = replicate (nat capacity) None, q_capacity = capacity,
                    q_size = 0, q_front = 0\<rparr> in
        if \<not> init_mutex env
        then ([Acquire Queue_Struct, Acquire Queue_Items,
               Release Queue_Items, Release Queue_Struct], None)
        else if \<not> init_cond_full env
        then ([Acquire Queue_Struct, Acquire Queue_Items, Acquire Queue_Mutex,
               Release Queue_Mutex, Release Queue_Items, Release Queue_Struct], None)
        else if \<not> init_cond_empty env
        then ([Acquire Queue_Struct, Acquire Queue_Items, Acquire Queue_Mutex, Acquire Queue_Cond_Full,
               Release Queue_Cond_Full, Release Queue_Mutex, Release Queue_Items,
               Release Queue_Struct], None)
        else ([Acquire Queue_Struct, Acquire Queue_Items, Acquire Queue_Mutex, Acquire Queue_Cond_Full,
               Acquire Queue_Cond_Empty], Some q))"

text \<open>The array of a queue that was created is never null, so it is always freed.\<close>

definition queue_destroy :: "'a queue option \<Rightarrow> queue_resource resource_event list" where
  "queue_destroy q =
     (case q of None \<Rightarrow> []
      | Some _ \<Rightarrow> [Release Queue_Cond_Empty, Release Queue_Cond_Full, Release Queue_Mutex,
                   Release Queue_Items, Release Queue_Struct])"

section \<open>Critical sections\<close>

text \<open>What \<open>queue_enqueue\<close> does between its wait loop and the signal.\<close>

definition enqueue_body :: "'a queue \<Rightarrow> 'a option \<Rightarrow> 'a queue c_result" where
  "enqueue_body q item =
     bind_r (c_int (q_front q + q_size q)) (\<lambda>sum.
     bind_r (c_rem sum (q_capacity q)) (\<lambda>rear.
       if 0 \<le> rear \<and> nat rear < length (q_items q)
       then bind_r (c_int (q_size q + 1)) (\<lambda>n.
              Inr (q\<lparr>q_items := (q_items q)[nat rear := item], q_size := n\<rparr>))
       else Inl Out_Of_Bounds))"

text \<open>What \<open>queue_dequeue\<close> and \<open>queue_try_dequeue\<close> do before they signal.\<close>

definition dequeue_body :: "'a queue \<Rightarrow> ('a option \<times> 'a queue) c_result" where
  "dequeue_body q =
     (if 0 \<le> q_front q \<and> nat (q_front q) < length (q_items q)
      then let item = q_items q ! nat (q_front q) in
        bind_r (c_int (q_front q + 1)) (\<lambda>sum.
        bind_r (c_rem sum (q_capacity q)) (\<lambda>front.
          bind_r (c_int (q_size q - 1)) (\<lambda>n.
            Inr (item, q\<lparr>q_front := front, q_size := n\<rparr>))))
      else Inl Out_Of_Bounds)"

text \<open>
  The sum of two indices below the capacity has to stay an \<open>int\<close>: the capacity may be at most
  \<open>2^30\<close>. The benchmark uses 100.
\<close>

definition queue_inv :: "'a queue \<Rightarrow> bool" where
  "queue_inv q \<longleftrightarrow>
     0 < q_capacity q \<and> q_capacity q \<le> 1073741824 \<and>
     length (q_items q) = nat (q_capacity q) \<and>
     0 \<le> q_front q \<and> q_front q < q_capacity q \<and>
     0 \<le> q_size q \<and> q_size q \<le> q_capacity q"

definition queue_contents :: "'a queue \<Rightarrow> 'a option list" where
  "queue_contents q = ring_view (q_items q) (nat (q_front q)) (nat (q_size q))"

lemma length_queue_contents [simp]: "length (queue_contents q) = nat (q_size q)"
  by (simp add: queue_contents_def)

lemma enqueue_body_ok:
  assumes inv: "queue_inv q" and room: "q_size q < q_capacity q"
  shows "\<exists>q'. enqueue_body q x = Inr q' \<and> queue_inv q' \<and> q_capacity q' = q_capacity q \<and>
           q_size q' = q_size q + 1 \<and> queue_contents q' = queue_contents q @ [x]"
proof -
  let ?rear = "(q_front q + q_size q) mod q_capacity q"
  let ?q = "q\<lparr>q_items := (q_items q)[nat ?rear := x], q_size := q_size q + 1\<rparr>"
  have "enqueue_body q x = Inr ?q"
    using inv room
    by (simp add: enqueue_body_def queue_inv_def c_rem_nonneg INT_MIN_def INT_MAX_def)
  moreover have "queue_contents ?q = queue_contents q @ [x]"
    using inv room by (simp add: queue_contents_def queue_inv_def ring_put_int)
  ultimately show ?thesis using inv room by (auto simp: queue_inv_def)
qed

lemma dequeue_body_ok:
  assumes inv: "queue_inv q" and some: "0 < q_size q"
  shows "\<exists>x q'. dequeue_body q = Inr (x, q') \<and> queue_inv q' \<and>
           q_capacity q' = q_capacity q \<and> q_size q' = q_size q - 1 \<and>
           queue_contents q = x # queue_contents q'"
proof -
  let ?q = "q\<lparr>q_front := (q_front q + 1) mod q_capacity q, q_size := q_size q - 1\<rparr>"
  have "dequeue_body q = Inr (q_items q ! nat (q_front q), ?q)"
    using inv some
    by (simp add: dequeue_body_def queue_inv_def c_rem_nonneg INT_MIN_def INT_MAX_def nat_less_iff)
  moreover have "queue_contents q = q_items q ! nat (q_front q) # queue_contents ?q"
    using inv some by (simp add: queue_contents_def queue_inv_def ring_take_int)
  ultimately show ?thesis using inv some by (auto simp: queue_inv_def)
qed

interpretation queue: bounded_fifo enqueue_body dequeue_body queue_contents
    "\<lambda>q. nat (q_capacity q)" queue_inv
proof unfold_locales
  fix q :: "'a queue" and x
  assume "queue_inv q" "length (queue_contents q) < nat (q_capacity q)"
  then show "\<exists>q'. enqueue_body q x = Inr q' \<and> queue_inv q' \<and>
      nat (q_capacity q') = nat (q_capacity q) \<and> queue_contents q' = queue_contents q @ [x]"
    using enqueue_body_ok [of q x] by auto
next
  fix q :: "'a queue" and x xs
  assume inv: "queue_inv q" and c: "queue_contents q = x # xs"
  have "0 < q_size q" using c length_queue_contents [of q] by (cases "q_size q \<le> 0") auto
  then show "\<exists>q'. dequeue_body q = Inr (x, q') \<and> queue_inv q' \<and>
      nat (q_capacity q') = nat (q_capacity q) \<and> queue_contents q' = xs"
    using dequeue_body_ok [OF inv] c by auto
next
  fix q :: "'a queue"
  assume "queue_inv q"
  then show "length (queue_contents q) \<le> nat (q_capacity q)"
    by (auto simp: queue_inv_def)
qed

section \<open>Threads\<close>

text \<open>
  The operations that a thread can call. \<open>cond_full\<close> is the condition variable on which enqueuing
  threads sleep, \<open>cond_empty\<close> the one on which dequeuing threads sleep.
\<close>

datatype 'a queue_call = Enqueue "'a option" | Dequeue | Try_Dequeue | Get_Size

datatype 'a queue_ret = Code int | Item "'a option"

fun on_cond_full :: "'a queue_call \<Rightarrow> bool" where
  "on_cond_full (Enqueue x) = True"
| "on_cond_full _ = False"

fun on_cond_empty :: "'a queue_call \<Rightarrow> bool" where
  "on_cond_empty Dequeue = True"
| "on_cond_empty _ = False"

text \<open>The conditions of the two wait loops.\<close>

fun must_wait :: "'a queue \<Rightarrow> 'a queue_call \<Rightarrow> bool" where
  "must_wait q (Enqueue x) = (q_size q \<ge> q_capacity q)"
| "must_wait q Dequeue = (q_size q = 0)"
| "must_wait q _ = False"

fun error_ret :: "'a queue_call \<Rightarrow> 'a queue_ret" where
  "error_ret (Enqueue x) = Code (-1)"
| "error_ret Get_Size = Code (-1)"
| "error_ret _ = Item None"

record 'a queue_sys =
  the_queue :: "'a queue"
  q_owner :: "nat option"
  q_threads :: "('a queue_call, 'a queue_ret) threads"
  produced :: "'a option list"
  consumed :: "'a option list"
  q_fault :: "c_error option"

text \<open>
  The last three fields record what happened: the items put into the array and taken out of it, in
  that order, and the undefined behaviour that a thread ran into, if any.

  One rule per step between two points at which another thread can interfere. \<open>pthread_mutex_lock\<close>
  and \<open>pthread_cond_wait\<close> may fail (\<open>q_lock_fails\<close>, \<open>q_wait_fails\<close>); a failing wait does not
  sleep. A sleeping thread may wake up without a signal (\<open>q_wakeup\<close>).
\<close>

inductive queue_step :: "'a queue_sys \<Rightarrow> 'a queue_sys \<Rightarrow> bool" where
  q_call: "q_threads s t = Idle \<or> q_threads s t = Returned r \<Longrightarrow>
    queue_step s (s\<lparr>q_threads := (q_threads s)(t := Calling c)\<rparr>)"
| q_null_item: "q_threads s t = Calling (Enqueue None) \<Longrightarrow>
    queue_step s (s\<lparr>q_threads := (q_threads s)(t := Returned (Code (-1)))\<rparr>)"
| q_lock_fails: "q_threads s t = Calling c \<Longrightarrow> on_cond_full c \<or> on_cond_empty c \<Longrightarrow>
    queue_step s (s\<lparr>q_threads := (q_threads s)(t := Returned (error_ret c))\<rparr>)"
| q_lock: "q_threads s t = Calling c \<Longrightarrow> c \<noteq> Enqueue None \<Longrightarrow> q_owner s = None \<Longrightarrow>
    queue_step s (s\<lparr>q_threads := (q_threads s)(t := Inside c), q_owner := Some t\<rparr>)"
| q_trylock_busy: "q_threads s t = Calling Try_Dequeue \<Longrightarrow> q_owner s \<noteq> None \<Longrightarrow>
    queue_step s (s\<lparr>q_threads := (q_threads s)(t := Returned (Item None))\<rparr>)"
| q_wait: "q_threads s t = Inside c \<Longrightarrow> must_wait (the_queue s) c \<Longrightarrow>
    queue_step s (s\<lparr>q_threads := (q_threads s)(t := Sleeping c), q_owner := None\<rparr>)"
| q_wait_fails: "q_threads s t = Inside c \<Longrightarrow> must_wait (the_queue s) c \<Longrightarrow>
    queue_step s (s\<lparr>q_threads := (q_threads s)(t := Leaving (error_ret c))\<rparr>)"
| q_wakeup: "q_threads s t = Sleeping c \<Longrightarrow>
    queue_step s (s\<lparr>q_threads := (q_threads s)(t := Woken c)\<rparr>)"
| q_relock: "q_threads s t = Woken c \<Longrightarrow> q_owner s = None \<Longrightarrow>
    queue_step s (s\<lparr>q_threads := (q_threads s)(t := Inside c), q_owner := Some t\<rparr>)"
| q_enqueue: "q_threads s t = Inside (Enqueue x) \<Longrightarrow> \<not> must_wait (the_queue s) (Enqueue x) \<Longrightarrow>
    enqueue_body (the_queue s) x = Inr q' \<Longrightarrow>
    signal_one on_cond_empty ((q_threads s)(t := Leaving (Code 0))) g \<Longrightarrow>
    queue_step s (s\<lparr>the_queue := q', q_threads := g, produced := produced s @ [x]\<rparr>)"
| q_dequeue: "q_threads s t = Inside c \<Longrightarrow>
    c = Dequeue \<and> \<not> must_wait (the_queue s) c \<or> c = Try_Dequeue \<and> q_size (the_queue s) > 0 \<Longrightarrow>
    dequeue_body (the_queue s) = Inr (x, q') \<Longrightarrow>
    signal_one on_cond_full ((q_threads s)(t := Leaving (Item x))) g \<Longrightarrow>
    queue_step s (s\<lparr>the_queue := q', q_threads := g, consumed := consumed s @ [x]\<rparr>)"
| q_try_empty: "q_threads s t = Inside Try_Dequeue \<Longrightarrow> \<not> q_size (the_queue s) > 0 \<Longrightarrow>
    queue_step s (s\<lparr>q_threads := (q_threads s)(t := Leaving (Item None))\<rparr>)"
| q_get_size: "q_threads s t = Inside Get_Size \<Longrightarrow>
    queue_step s (s\<lparr>q_threads := (q_threads s)(t := Leaving (Code (q_size (the_queue s))))\<rparr>)"
| q_undefined_enq: "q_threads s t = Inside (Enqueue x) \<Longrightarrow> \<not> must_wait (the_queue s) (Enqueue x) \<Longrightarrow>
    enqueue_body (the_queue s) x = Inl e \<Longrightarrow> queue_step s (s\<lparr>q_fault := Some e\<rparr>)"
| q_undefined_deq: "q_threads s t = Inside c \<Longrightarrow>
    c = Dequeue \<and> \<not> must_wait (the_queue s) c \<or> c = Try_Dequeue \<and> q_size (the_queue s) > 0 \<Longrightarrow>
    dequeue_body (the_queue s) = Inl e \<Longrightarrow> queue_step s (s\<lparr>q_fault := Some e\<rparr>)"
| q_unlock: "q_threads s t = Leaving r \<Longrightarrow>
    queue_step s (s\<lparr>q_threads := (q_threads s)(t := Returned r), q_owner := None\<rparr>)"

text \<open>The system starts with a queue that \<open>queue_create\<close> returned and no thread in an operation.\<close>

definition queue_sys_init :: "int \<Rightarrow> 'a queue_sys \<Rightarrow> bool" where
  "queue_sys_init cap s \<longleftrightarrow>
     0 < cap \<and> cap \<le> 1073741824 \<and>
     (\<exists>env. snd (queue_create env cap) = Some (the_queue s)) \<and>
     q_owner s = None \<and> q_threads s = (\<lambda>_. Idle) \<and>
     produced s = [] \<and> consumed s = [] \<and> q_fault s = None"

section \<open>Invariant\<close>

text \<open>
  A null item never gets past the check at the head of \<open>queue_enqueue\<close>, and only the two blocking
  operations sleep.
\<close>

fun call_ok :: "('a queue_call, 'a queue_ret) pc \<Rightarrow> bool" where
  "call_ok (Inside c) = (c \<noteq> Enqueue None)"
| "call_ok (Sleeping c) = (c \<noteq> Enqueue None \<and> (on_cond_full c \<or> on_cond_empty c))"
| "call_ok (Woken c) = (c \<noteq> Enqueue None)"
| "call_ok _ = True"

definition queue_sys_inv :: "int \<Rightarrow> 'a queue_sys \<Rightarrow> bool" where
  "queue_sys_inv cap s \<longleftrightarrow>
     queue_inv (the_queue s) \<and> q_capacity (the_queue s) = cap \<and>
     mutex_ok (q_owner s) (q_threads s) \<and> finitely_many (q_threads s) \<and>
     covered (nat (q_size (the_queue s))) on_cond_empty (q_threads s) \<and>
     covered (nat (cap - q_size (the_queue s))) on_cond_full (q_threads s) \<and>
     produced s = consumed s @ queue_contents (the_queue s) \<and>
     None \<notin> set (produced s) \<and> (\<forall>t. call_ok (q_threads s t)) \<and>
     q_fault s = None"

lemma call_ok_wake [simp]: "call_ok x \<Longrightarrow> call_ok (wake x)"
  by (cases x) auto

lemma must_wait_on_cond: "must_wait q c \<Longrightarrow> on_cond_full c \<or> on_cond_empty c"
  by (cases c) auto

lemma signal_call_ok:
  "signal_one p f g \<Longrightarrow> \<forall>t. call_ok (f t) \<Longrightarrow> \<forall>t. call_ok (g t)"
  by (auto simp: signal_one_def)

lemma on_cond_disjoint: "on_cond_full c \<Longrightarrow> \<not> on_cond_empty c"
  by (cases c) auto

lemma queue_create_Some:
  "snd (queue_create env cap) = Some q \<Longrightarrow>
     q = \<lparr>q_items = replicate (nat cap) None, q_capacity = cap, q_size = 0, q_front = 0\<rparr>"
  by (auto simp: queue_create_def Let_def split: if_splits)

lemma queue_sys_inv_init: "queue_sys_init cap s \<Longrightarrow> queue_sys_inv cap s"
  unfolding queue_sys_init_def
  by (elim conjE exE, drule queue_create_Some)
    (simp add: queue_sys_inv_def queue_inv_def queue_contents_def mutex_ok_def finitely_many_def
      covered_def)

text \<open>The two steps that change the queue.\<close>

lemma queue_sys_inv_enqueue:
  assumes inv: "queue_sys_inv cap s"
    and pc: "q_threads s t = Inside (Enqueue x)" and go: "\<not> must_wait (the_queue s) (Enqueue x)"
    and body: "enqueue_body (the_queue s) x = Inr q'"
    and sig: "signal_one on_cond_empty ((q_threads s)(t := Leaving (Code 0))) g"
  shows "queue_sys_inv cap (s\<lparr>the_queue := q', q_threads := g, produced := produced s @ [x]\<rparr>)"
proof -
  let ?f = "(q_threads s)(t := Leaving (Code 0))"
  let ?n = "q_size (the_queue s)"
  from inv have q: "queue_inv (the_queue s)" "q_capacity (the_queue s) = cap"
    and fin: "finitely_many (q_threads s)" and m: "mutex_ok (q_owner s) (q_threads s)"
    and ce: "covered (nat ?n) on_cond_empty (q_threads s)"
    and cf: "covered (nat (cap - ?n)) on_cond_full (q_threads s)"
    and nn: "\<forall>t. call_ok (q_threads s t)"
    by (simp_all add: queue_sys_inv_def)
  have q': "queue_inv q'" "q_capacity q' = cap" "q_size q' = ?n + 1"
      "queue_contents q' = queue_contents (the_queue s) @ [x]"
    using enqueue_body_ok [OF q(1), of x] go body q(2) by auto
  have fin': "finitely_many ?f" using fin by simp
  have "covered (nat ?n) on_cond_empty ?f"
    by (rule covered_upd [OF ce fin]) (simp_all add: pc)
  then have "covered (Suc (nat ?n)) on_cond_empty g"
    by (rule covered_signal [OF _ fin' sig])
  then have ce': "covered (nat (q_size q')) on_cond_empty g"
    using q(1) q'(3) by (simp add: queue_inv_def Suc_nat_eq_nat_zadd1 add.commute)
  have "covered (nat (cap - ?n) - 1) on_cond_full ?f"
    by (rule covered_leave [OF cf fin]) simp
  moreover have "nat (cap - ?n) - 1 = nat (cap - q_size q')" using q'(3) by arith
  ultimately have cf': "covered (nat (cap - q_size q')) on_cond_full g"
    using covered_signal_any [OF _ fin' sig] by metis
  have "mutex_ok (q_owner s) g"
    by (rule mutex_ok_signal [OF mutex_ok_keep [OF m] sig]) (simp add: pc)
  moreover have "\<forall>t. call_ok (g t)"
    using signal_call_ok [OF sig] nn by simp
  moreover have "x \<noteq> None" using nn pc by (metis call_ok.simps(1))
  ultimately show ?thesis
    using inv q' ce' cf' finitely_many_signal [OF fin' sig] by (auto simp: queue_sys_inv_def)
qed

lemma queue_sys_inv_dequeue:
  assumes inv: "queue_sys_inv cap s"
    and pc: "q_threads s t = Inside c"
    and go: "c = Dequeue \<and> \<not> must_wait (the_queue s) c \<or> c = Try_Dequeue \<and> q_size (the_queue s) > 0"
    and body: "dequeue_body (the_queue s) = Inr (x, q')"
    and sig: "signal_one on_cond_full ((q_threads s)(t := Leaving (Item x))) g"
  shows "queue_sys_inv cap (s\<lparr>the_queue := q', q_threads := g, consumed := consumed s @ [x]\<rparr>)"
proof -
  let ?f = "(q_threads s)(t := Leaving (Item x))"
  let ?n = "q_size (the_queue s)"
  from inv have q: "queue_inv (the_queue s)" "q_capacity (the_queue s) = cap"
    and fin: "finitely_many (q_threads s)" and m: "mutex_ok (q_owner s) (q_threads s)"
    and ce: "covered (nat ?n) on_cond_empty (q_threads s)"
    and cf: "covered (nat (cap - ?n)) on_cond_full (q_threads s)"
    and nn: "\<forall>t. call_ok (q_threads s t)"
    by (simp_all add: queue_sys_inv_def)
  have pos: "0 < ?n" using go q by (auto simp: queue_inv_def)
  then have q': "queue_inv q'" "q_capacity q' = cap" "q_size q' = ?n - 1"
      "queue_contents (the_queue s) = x # queue_contents q'"
    using dequeue_body_ok [OF q(1)] body q(2) by auto
  have fin': "finitely_many ?f" using fin by simp
  have "covered (nat (cap - ?n)) on_cond_full ?f"
    by (rule covered_upd [OF cf fin]) (use go in \<open>auto simp: pc\<close>)
  then have "covered (Suc (nat (cap - ?n))) on_cond_full g"
    by (rule covered_signal [OF _ fin' sig])
  moreover have "Suc (nat (cap - ?n)) = nat (cap - q_size q')"
    using q q'(3) by (auto simp: queue_inv_def)
  ultimately have cf': "covered (nat (cap - q_size q')) on_cond_full g" by metis
  have "covered (nat ?n - 1) on_cond_empty ?f"
    by (rule covered_leave [OF ce fin]) simp
  moreover have "nat ?n - 1 = nat (q_size q')" using q'(3) by arith
  ultimately have ce': "covered (nat (q_size q')) on_cond_empty g"
    using covered_signal_any [OF _ fin' sig] by metis
  have "mutex_ok (q_owner s) g"
    by (rule mutex_ok_signal [OF mutex_ok_keep [OF m] sig]) (simp add: pc)
  moreover have "\<forall>t. call_ok (g t)"
    using signal_call_ok [OF sig] nn by simp
  ultimately show ?thesis
    using inv q' ce' cf' finitely_many_signal [OF fin' sig] by (auto simp: queue_sys_inv_def)
qed

text \<open>All other steps move one thread and leave the queue alone.\<close>

lemma queue_sys_inv_move:
  assumes inv: "queue_sys_inv cap s"
    and m: "mutex_ok ow ((q_threads s)(t := x))"
    and nn: "call_ok x"
    and ce: "nat (q_size (the_queue s)) = 0 \<or>
        \<not> sleeps on_cond_empty x \<and> (roused on_cond_empty (q_threads s t) \<longrightarrow> roused on_cond_empty x)"
    and cf: "nat (cap - q_size (the_queue s)) = 0 \<or>
        \<not> sleeps on_cond_full x \<and> (roused on_cond_full (q_threads s t) \<longrightarrow> roused on_cond_full x)"
  shows "queue_sys_inv cap (s\<lparr>q_threads := (q_threads s)(t := x), q_owner := ow\<rparr>)"
proof -
  have "covered (nat (q_size (the_queue s))) on_cond_empty ((q_threads s)(t := x))"
    using inv ce by (auto simp: queue_sys_inv_def intro: covered_upd)
  moreover have "covered (nat (cap - q_size (the_queue s))) on_cond_full ((q_threads s)(t := x))"
    using inv cf by (auto simp: queue_sys_inv_def intro: covered_upd)
  ultimately show ?thesis using inv m nn by (auto simp: queue_sys_inv_def)
qed

lemmas queue_sys_inv_stay =
  queue_sys_inv_move [where ow = "q_owner s" and s = s for s, simplified]

lemma queue_sys_invD:
  assumes "queue_sys_inv cap s"
  shows "mutex_ok (q_owner s) (q_threads s)" "\<forall>t. call_ok (q_threads s t)"
    "queue_inv (the_queue s)" "q_capacity (the_queue s) = cap" "q_fault s = None"
  using assms by (auto simp: queue_sys_inv_def)

text \<open>A thread that has to wait finds no resource of the kind it waits for.\<close>

lemma must_wait_exhausted:
  assumes "queue_sys_inv cap s" "must_wait (the_queue s) c"
  shows "nat (q_size (the_queue s)) = 0 \<or> \<not> on_cond_empty c"
    and "nat (cap - q_size (the_queue s)) = 0 \<or> \<not> on_cond_full c"
  using assms by (cases c; auto simp: queue_sys_inv_def)+

lemma queue_sys_inv_step: "queue_step s s' \<Longrightarrow> queue_sys_inv cap s \<Longrightarrow> queue_sys_inv cap s'"
proof (induction rule: queue_step.induct)
  case (q_enqueue s t x q' g)
  then show ?case by (blast intro: queue_sys_inv_enqueue)
next
  case (q_dequeue s t c x q' g)
  then show ?case by (blast intro: queue_sys_inv_dequeue)
next
  case (q_undefined_enq s t x e)
  then show ?case using enqueue_body_ok [of "the_queue s" x] queue_sys_invD [of cap s] by auto
next
  case (q_undefined_deq s t c e)
  then show ?case using dequeue_body_ok [of "the_queue s"] queue_sys_invD [of cap s]
    by (auto simp: queue_inv_def)
next
  case (q_wait s t c)
  then show ?case using must_wait_exhausted [of cap s c] must_wait_on_cond [of "the_queue s" c]
      queue_sys_invD(1,2) [of cap s]
    by (intro queue_sys_inv_move) (auto intro: mutex_ok_release dest: spec [of _ t])
next
  case (q_wait_fails s t c)
  then show ?case using must_wait_exhausted [of cap s c] queue_sys_invD(1,2) [of cap s]
    by (intro queue_sys_inv_stay) (auto intro: mutex_ok_keep dest: spec [of _ t])
next
  case (q_lock s t c)
  then show ?case using queue_sys_invD(1,2) [of cap s]
    by (intro queue_sys_inv_move) (auto intro: mutex_ok_acquire dest: spec [of _ t])
next
  case (q_relock s t c)
  then show ?case using queue_sys_invD(1,2) [of cap s]
    by (intro queue_sys_inv_move) (auto intro: mutex_ok_acquire dest: spec [of _ t])
next
  case (q_unlock s t r)
  then show ?case using queue_sys_invD(1,2) [of cap s]
    by (intro queue_sys_inv_move) (auto intro: mutex_ok_release dest: spec [of _ t])
next
  case (q_wakeup s t c)
  then show ?case using queue_sys_invD(1,2) [of cap s]
    by (intro queue_sys_inv_stay) (auto intro: mutex_ok_keep dest: spec [of _ t])
qed (auto intro!: queue_sys_inv_stay intro: mutex_ok_keep dest: queue_sys_invD(1))

section \<open>Refinement\<close>

definition queue_abs :: "'a queue_sys \<Rightarrow> 'a option fifo_spec" where
  "queue_abs s = \<lparr>pending = queue_contents (the_queue s), went_in = produced s, came_out = consumed s\<rparr>"

lemma queue_abs_step:
  "queue_step s s' \<Longrightarrow> queue_sys_inv cap s \<Longrightarrow>
     queue_abs s' = queue_abs s \<or> fifo_step (nat cap) (queue_abs s) (queue_abs s')"
proof (induction rule: queue_step.induct)
  case (q_enqueue s t x q' g)
  then have inv: "queue_inv (the_queue s)" "q_size (the_queue s) < cap" "q_capacity (the_queue s) = cap"
    by (auto simp: queue_sys_inv_def)
  then have "queue_contents q' = queue_contents (the_queue s) @ [x]"
    using enqueue_body_ok [of "the_queue s" x] q_enqueue by auto
  then show ?case
    using inv fifo_put [of "queue_abs s" "nat cap" x] by (simp add: queue_abs_def queue_inv_def)
next
  case (q_dequeue s t c x q' g)
  then have inv: "queue_inv (the_queue s)" "0 < q_size (the_queue s)"
    by (auto simp: queue_sys_inv_def queue_inv_def)
  then have "queue_contents (the_queue s) = x # queue_contents q'"
    using dequeue_body_ok [of "the_queue s"] q_dequeue(3) by auto
  then show ?case
    using fifo_get [of "queue_abs s" x "queue_contents q'" "nat cap"] by (simp add: queue_abs_def)
qed (auto simp: queue_abs_def)

lemma queue_abs_init: "queue_sys_init cap s \<Longrightarrow> fifo_init (queue_abs s)"
  by (auto simp: fifo_init_def queue_abs_def queue_sys_init_def queue_contents_def
      dest!: queue_create_Some)

interpretation queue_sys: simulation "queue_sys_init cap" queue_step "queue_sys_inv cap"
    fifo_init "fifo_step (nat cap)" queue_abs
  by unfold_locales
    (fact queue_sys_inv_init queue_sys_inv_step queue_abs_init queue_abs_step)+

section \<open>Progress\<close>

text \<open>The threads in an operation that are not asleep.\<close>

fun awake :: "('c, 'r) pc \<Rightarrow> bool" where
  "awake (Calling c) = True"
| "awake (Inside c) = True"
| "awake (Woken c) = True"
| "awake (Leaving r) = True"
| "awake _ = False"

definition can_move :: "'a queue_sys \<Rightarrow> nat \<Rightarrow> bool" where
  "can_move s t \<longleftrightarrow> awake (q_threads s t) \<and> (\<exists>s'. queue_step s s' \<and> q_threads s' t \<noteq> q_threads s t)"

lemma can_moveI: "awake (q_threads s t) \<Longrightarrow> queue_step s s' \<Longrightarrow> q_threads s' t \<noteq> q_threads s t \<Longrightarrow> can_move s t"
  by (auto simp: can_move_def)

lemma signal_leaving: "signal_one p (f(t := Leaving r)) g \<Longrightarrow> g t = Leaving r"
  using signal_one_cases [of p "f(t := Leaving r)" g t] by auto

text \<open>The owner of the mutex can always go on.\<close>

lemma owner_can_move:
  assumes inv: "queue_sys_inv cap s" and holds: "holds_mutex (q_threads s t)"
  shows "can_move s t"
proof (cases "q_threads s t")
  case (Leaving r)
  then show ?thesis by (auto intro!: can_moveI q_unlock)
next
  case (Inside c)
  note pc = Inside
  note q = queue_sys_invD(3) [OF inv]
  show ?thesis
  proof (cases "must_wait (the_queue s) c")
    case True
    with pc show ?thesis by (auto intro!: can_moveI q_wait)
  next
    case go: False
    show ?thesis
    proof (cases c)
      case (Enqueue x)
      with go q obtain q' where body: "enqueue_body (the_queue s) x = Inr q'"
        using enqueue_body_ok [of "the_queue s" x] by auto
      obtain g where "signal_one on_cond_empty ((q_threads s)(t := Leaving (Code 0))) g"
        using signal_one_exists by blast
      with pc go body Enqueue show ?thesis
        by (intro can_moveI [OF _ q_enqueue]) (auto dest: signal_leaving)
    next
      case Dequeue
      with go q obtain x q' where body: "dequeue_body (the_queue s) = Inr (x, q')"
        using dequeue_body_ok [of "the_queue s"] by (auto simp: queue_inv_def)
      obtain g where "signal_one on_cond_full ((q_threads s)(t := Leaving (Item x))) g"
        using signal_one_exists by blast
      with pc go body Dequeue show ?thesis
        by (intro can_moveI [OF _ q_dequeue]) (auto dest: signal_leaving)
    next
      case Try_Dequeue
      show ?thesis
      proof (cases "q_size (the_queue s) > 0")
        case True
        then obtain x q' where body: "dequeue_body (the_queue s) = Inr (x, q')"
          using dequeue_body_ok [OF q] by auto
        obtain g where "signal_one on_cond_full ((q_threads s)(t := Leaving (Item x))) g"
          using signal_one_exists by blast
        with pc True body Try_Dequeue show ?thesis
          by (intro can_moveI [OF _ q_dequeue]) (auto dest: signal_leaving)
      next
        case False
        with pc Try_Dequeue show ?thesis by (intro can_moveI [OF _ q_try_empty]) auto
      qed
    next
      case Get_Size
      with pc show ?thesis by (intro can_moveI [OF _ q_get_size]) auto
    qed
  qed
qed (use holds in auto)

text \<open>So a thread that is awake can go on, or the owner of the mutex can.\<close>

lemma awake_can_move:
  assumes inv: "queue_sys_inv cap s" and awake: "awake (q_threads s t)"
  shows "\<exists>u. can_move s u"
proof (cases "q_owner s")
  case (Some u)
  then show ?thesis
    using owner_can_move [OF inv, of u] queue_sys_invD(1) [OF inv] by (auto simp: mutex_ok_def)
next
  case None
  then have "\<not> holds_mutex (q_threads s t)"
    using queue_sys_invD(1) [OF inv] by (simp add: mutex_ok_def)
  with awake consider c where "q_threads s t = Calling c" | c where "q_threads s t = Woken c"
    by (cases "q_threads s t") auto
  then show ?thesis
  proof cases
    case 1
    then show ?thesis
      using None by (cases "c = Enqueue None") (auto intro!: exI [of _ t] intro: can_moveI q_lock q_null_item)
  next
    case 2
    then show ?thesis using None by (auto intro!: exI [of _ t] can_moveI q_relock)
  qed
qed

text \<open>A sleeper whose condition holds has a successor on the way.\<close>

lemma sleeper_covered:
  assumes inv: "queue_sys_inv cap s"
    and "q_threads s t = Sleeping c" and "\<not> must_wait (the_queue s) c"
  shows "\<exists>u d. (q_threads s u = Woken d \<or> q_threads s u = Inside d) \<and>
    on_cond_empty d = on_cond_empty c \<and> on_cond_full d = on_cond_full c"
proof -
  have roused_pc: "\<exists>d. (x = Woken d \<or> x = Inside d) \<and> p d" if "roused p x" for p x
    using that by (cases x) auto
  show ?thesis
  proof (cases c)
    case (Enqueue x)
    with assms inv have "covered (nat (cap - q_size (the_queue s))) on_cond_full (q_threads s)"
      "sleeps on_cond_full (q_threads s t)" "0 < nat (cap - q_size (the_queue s))"
      by (auto simp: queue_sys_inv_def)
    then obtain u where "roused on_cond_full (q_threads s u)" using coveredD by blast
    with roused_pc Enqueue show ?thesis by (metis on_cond_disjoint on_cond_full.simps(1))
  next
    case Dequeue
    with assms inv have "covered (nat (q_size (the_queue s))) on_cond_empty (q_threads s)"
      "sleeps on_cond_empty (q_threads s t)" "0 < nat (q_size (the_queue s))"
      by (auto simp: queue_sys_inv_def queue_inv_def)
    then obtain u where "roused on_cond_empty (q_threads s u)" using coveredD by blast
    with roused_pc Dequeue show ?thesis by (metis on_cond_disjoint on_cond_empty.simps(1))
  qed (use assms(2) queue_sys_invD(2) [OF inv] in \<open>auto dest: spec [of _ t]\<close>)
qed

section \<open>Properties\<close>

text \<open>
  C1: the queue shared by any number of threads implements the abstract bounded queue: whatever the
  interleaving, the spurious wake-ups and the failing lock and wait calls, each reachable state of
  the implementation is a reachable state of the specification with the same pending items and the
  same histories.
\<close>

theorem queue_refines_fifo:
  assumes "reachable (queue_sys_init cap) queue_step s"
  shows "reachable fifo_init (fifo_step (nat cap)) (queue_abs s)"
  using assms by (rule queue_sys.reachable_abs)

text \<open>
  C5: in every reachable state the items taken out of the queue followed by the items still in it are
  exactly the items put in, in order (nothing is lost, duplicated or reordered); the queue never holds
  more than its capacity, no null item is ever delivered, no thread runs into undefined behaviour, and
  at most one thread is between its lock and its unlock.
\<close>

theorem queue_delivery:
  assumes "reachable (queue_sys_init cap) queue_step s"
  shows "produced s = consumed s @ queue_contents (the_queue s) \<and>
    int (length (queue_contents (the_queue s))) \<le> cap \<and> None \<notin> set (consumed s) \<and>
    q_fault s = None \<and>
    (\<forall>t u. holds_mutex (q_threads s t) \<and> holds_mutex (q_threads s u) \<longrightarrow> t = u)"
proof -
  from assms have inv: "queue_sys_inv cap s" by (rule queue_sys.reachable_inv)
  then show ?thesis
    using mutex_ok_exclusive [OF queue_sys_invD(1) [OF inv]]
    by (auto simp: queue_sys_inv_def queue_inv_def)
qed

text \<open>
  C2: no wake-up is lost. Whenever a thread sleeps in \<open>queue_dequeue\<close> although the queue holds an
  item, or in \<open>queue_enqueue\<close> although there is room, another thread in the same operation has been
  woken up (or holds the mutex) and has yet to test its condition.
\<close>

theorem queue_no_lost_wakeup:
  assumes "reachable (queue_sys_init cap) queue_step s"
    and "q_threads s t = Sleeping c" and "\<not> must_wait (the_queue s) c"
  shows "\<exists>u d. (q_threads s u = Woken d \<or> q_threads s u = Inside d) \<and>
    on_cond_empty d = on_cond_empty c \<and> on_cond_full d = on_cond_full c"
  using sleeper_covered [OF queue_sys.reachable_inv [OF assms(1)] assms(2,3)] .

text \<open>
  C6: the queue never deadlocks. In a reachable state either some thread that is awake can take its
  next step, or every thread in an operation sleeps for a good reason: the condition it waits for does
  not hold.
\<close>

theorem queue_progress:
  assumes "reachable (queue_sys_init cap) queue_step s"
  shows "(\<exists>u. can_move s u) \<or>
    (\<forall>t. q_threads s t = Idle \<or> (\<exists>r. q_threads s t = Returned r) \<or>
         (\<exists>c. q_threads s t = Sleeping c \<and> must_wait (the_queue s) c))"
proof (cases "\<exists>t. awake (q_threads s t)")
  case True
  then show ?thesis using awake_can_move [OF queue_sys.reachable_inv [OF assms]] by blast
next
  case asleep: False
  have "must_wait (the_queue s) c" if "q_threads s t = Sleeping c" for t c
    using sleeper_covered [OF queue_sys.reachable_inv [OF assms] that] asleep by (metis awake.simps(2,3))
  moreover have "q_threads s t = Idle \<or> (\<exists>r. q_threads s t = Returned r) \<or> (\<exists>c. q_threads s t = Sleeping c)"
    for t
    using asleep by (metis awake.simps(1-4) pc.exhaust)
  ultimately show ?thesis by blast
qed

text \<open>
  \<open>queue_create\<close> followed by \<open>queue_destroy\<close> gives back exactly what was acquired: whichever
  allocation or initialisation fails, every resource is released once and none is left.
\<close>

theorem queue_no_leak:
  "live (fst (queue_create env cap) @ queue_destroy (snd (queue_create env cap))) [] = Some []"
  by (simp add: queue_create_def queue_destroy_def Let_def)

text \<open>
  on a queue that \<open>queue_create\<close> returned, any sequence of operations that never has to wait
  runs without undefined behaviour (index arithmetic included) and returns the items in the order they
  went in.
\<close>

theorem queue_run_in_order:
  assumes "snd (queue_create env cap) = Some q" and "0 < cap" and "cap \<le> 1073741824"
    and "admissible (nat cap) 0 ops"
  shows "\<exists>out q'. fifo_run enqueue_body dequeue_body ops q [] = Inr (out, q') \<and>
    inserted ops = out @ queue_contents q'"
proof -
  have q: "queue_inv q" "queue_contents q = []" "q_capacity q = cap"
    using assms(2,3) queue_create_Some [OF assms(1)] by (auto simp: queue_inv_def queue_contents_def)
  with assms(4) queue.fifo_run_history [of q ops "[]"] show ?thesis by auto
qed

section \<open>Witnesses\<close>

text \<open>
  A run with capacity 1: threads 0 and 2 find the queue empty and go to sleep, thread 1 puts an item in
  and its signal wakes thread 0.
\<close>

definition demo_queue :: "nat queue_sys" where
  "demo_queue = \<lparr>the_queue = \<lparr>q_items = [None], q_capacity = 1, q_size = 0, q_front = 0\<rparr>, q_owner = None,
     q_threads = (\<lambda>_. Idle), produced = [], consumed = [], q_fault = None\<rparr>"

definition demo_queue_full :: "nat queue_sys" where
  "demo_queue_full = \<lparr>the_queue = \<lparr>q_items = [Some 7], q_capacity = 1, q_size = 1, q_front = 0\<rparr>,
     q_owner = Some 1,
     q_threads = (\<lambda>_. Idle)(0 := Woken Dequeue, 2 := Sleeping Dequeue, 1 := Leaving (Code 0)),
     produced = [Some 7], consumed = [], q_fault = None\<rparr>"

lemma demo_queue_init: "queue_sys_init 1 demo_queue"
proof -
  let ?env = "\<lparr>malloc_queue = True, malloc_items = True, init_mutex = True, init_cond_full = True,
      init_cond_empty = True\<rparr>"
  have "snd (queue_create ?env 1) = Some (the_queue demo_queue)"
    by (simp add: queue_create_def demo_queue_def Let_def)
  then show ?thesis by (auto simp: queue_sys_init_def demo_queue_def)
qed

lemma demo_queue_sleep:
  assumes "reachable (queue_sys_init cap) queue_step s" "q_threads s t = Idle" "q_owner s = None"
    and "must_wait (the_queue s) Dequeue"
  shows "reachable (queue_sys_init cap) queue_step
    (s\<lparr>q_threads := (q_threads s)(t := Sleeping Dequeue), q_owner := None\<rparr>)"
  using reach_step [OF reach_step [OF reach_step [OF assms(1) q_call [where t = t and c = Dequeue]]
      q_lock [where t = t and c = Dequeue]] q_wait [where t = t and c = Dequeue]] assms(2-4)
  by simp

lemma demo_queue_reachable: "reachable (queue_sys_init 1) queue_step demo_queue_full"
proof -
  let ?R = "reachable (queue_sys_init 1) (queue_step :: nat queue_sys \<Rightarrow> _)"
  let ?f = "(\<lambda>_. Idle)(0 := Sleeping Dequeue, 2 := Sleeping Dequeue)"
  have r: "?R demo_queue" by (rule reach_init) (rule demo_queue_init)
  have "?R (demo_queue\<lparr>q_threads := (\<lambda>_. Idle)(0 := Sleeping Dequeue)\<rparr>)"
    using demo_queue_sleep [OF r, of 0] by (simp add: demo_queue_def)
  then have r2: "?R (demo_queue\<lparr>q_threads := ?f\<rparr>)"
    using demo_queue_sleep [of 1 "demo_queue\<lparr>q_threads := (\<lambda>_. Idle)(0 := Sleeping Dequeue)\<rparr>" 2]
    by (simp add: demo_queue_def)
  have r3: "?R (demo_queue\<lparr>q_threads := ?f(1 := Calling (Enqueue (Some 7)))\<rparr>)"
    by (rule reach_via [OF r2], rule q_call [where t = 1]) simp_all
  have r4: "?R (demo_queue\<lparr>q_threads := ?f(1 := Inside (Enqueue (Some 7))), q_owner := Some 1\<rparr>)"
    by (rule reach_via [OF r3], rule q_lock [where t = 1]) (simp_all add: demo_queue_def)
  have sig: "signal_one on_cond_empty (?f(1 := Leaving (Code 0)))
      (?f(1 := Leaving (Code 0), 0 := Woken Dequeue))"
    unfolding signal_one_def by (intro disjI1 exI [of _ 0]) simp
  show ?thesis
    by (rule reach_via [OF r4], rule q_enqueue [where t = 1 and x = "Some 7" and
          q' = "the_queue demo_queue_full" and g = "?f(1 := Leaving (Code 0), 0 := Woken Dequeue)"])
      (use sig in \<open>simp_all add: demo_queue_def demo_queue_full_def enqueue_body_def c_int_def c_rem_def
        INT_MIN_def INT_MAX_def fun_upd_twist\<close>)
qed

theorem queue_refines_fifo_witness:
  "reachable (queue_sys_init 1) queue_step demo_queue_full \<and>
   reachable fifo_init (fifo_step 1) \<lparr>pending = [Some (7::nat)], went_in = [Some 7], came_out = []\<rparr>"
  using queue_refines_fifo [OF demo_queue_reachable] demo_queue_reachable
  by (simp add: queue_abs_def demo_queue_full_def queue_contents_def ring_view_def)

theorem queue_delivery_witness:
  "produced demo_queue_full = [Some 7] \<and> consumed demo_queue_full = [] \<and>
   produced demo_queue_full = consumed demo_queue_full @ queue_contents (the_queue demo_queue_full)"
  using queue_delivery [OF demo_queue_reachable] by (simp add: demo_queue_full_def)

theorem queue_no_lost_wakeup_witness:
  "q_threads demo_queue_full 2 = Sleeping Dequeue \<and> q_size (the_queue demo_queue_full) = 1 \<and>
   (\<exists>u d. (q_threads demo_queue_full u = Woken d \<or> q_threads demo_queue_full u = Inside d) \<and>
     on_cond_empty d)"
  using queue_no_lost_wakeup [OF demo_queue_reachable, of 2 Dequeue]
  by (auto simp: demo_queue_full_def)

theorem queue_progress_witness: "\<exists>u. can_move demo_queue_full u"
proof -
  have "q_threads demo_queue_full 0 = Woken Dequeue" by (simp add: demo_queue_full_def)
  then show ?thesis using queue_progress [OF demo_queue_reachable] by (metis pc.distinct)
qed

theorem queue_run_in_order_witness:
  "\<exists>out q'. fifo_run enqueue_body dequeue_body [Some (Some 1), Some (Some 2), None, Some (Some (3::nat))]
      \<lparr>q_items = [None, None], q_capacity = 2, q_size = 0, q_front = 0\<rparr> [] = Inr (out, q') \<and>
    [Some 1, Some 2, Some 3] = out @ queue_contents q'"
proof -
  let ?env = "\<lparr>malloc_queue = True, malloc_items = True, init_mutex = True, init_cond_full = True,
      init_cond_empty = True\<rparr>"
  have "snd (queue_create ?env 2) =
      Some \<lparr>q_items = [None, None], q_capacity = 2, q_size = 0, q_front = 0\<rparr>"
    by (simp add: queue_create_def Let_def numeral_2_eq_2)
  from queue_run_in_order [OF this, of "[Some (Some 1), Some (Some 2), None, Some (Some (3::nat))]"]
  show ?thesis by (simp del: fifo_run.simps)
qed

end
