(* ===== verification/Queue_Benchmark.thy ===== *)
theory Queue_Benchmark
  imports Bounded_Queue "HOL-Library.Word"
begin

unbundle bit_operations_syntax

text \<open>
  The benchmark of the queue, \<open>03_threads/producer_consumer/test.c\<close>: producers and consumers on the
  queue of \<open>Bounded_Queue\<close>, started and joined by \<open>main\<close>. A step is a step of \<open>queue_step\<close> inside a call,
  or what a thread does between two calls. The number of items and of threads are parameters, as in the
  arguments of the program; output and time measurement are left out.
\<close>

section \<open>The code\<close>

text \<open>An item holds the number of its producer in the upper half and its own number in the lower half.\<close>

definition item_value :: "nat \<Rightarrow> nat \<Rightarrow> 64 word" where
  "item_value k i = push_bit 32 (of_nat k) OR (of_nat i AND 0xFFFFFFFF)"

text \<open>
  Where a thread is: a producer before iteration \<open>i\<close> or in the call of iteration \<open>i\<close>, a consumer with
  its count of empty iterations before or in a call.
\<close>

datatype bench_pc = Not_Started | Producing nat | Enqueuing nat | Polling nat | Trying nat | Ended

text \<open>
  Where \<open>main\<close> is: before the allocation of its two arrays, before the creation of thread \<open>i\<close>,
  before it joins thread \<open>i\<close> with the totals so far, after it has reported the totals and the size
  of the queue; or the process has ended, by \<open>return 1\<close> or in a write to a null pointer.
\<close>

datatype bench_main = Starting | Creating nat | Joining nat nat nat | Reported nat nat int | Exited | Crashed

record bench =
  bench_queue :: "64 word queue_sys"
  bench_pcs :: "nat \<Rightarrow> bench_pc"
  items_produced :: "nat \<Rightarrow> nat"
  items_consumed :: "nat \<Rightarrow> nat"
  bench_main :: bench_main

definition max_empty_iterations :: nat where
  "max_empty_iterations = 1000"

definition bench_running :: "bench \<Rightarrow> bool" where
  "bench_running s \<longleftrightarrow> bench_main s \<noteq> Exited \<and> bench_main s \<noteq> Crashed"

definition start_call :: "nat \<Rightarrow> 64 word queue_call \<Rightarrow> bench_pc \<Rightarrow> bench \<Rightarrow> bench" where
  "start_call t c x s =
     s\<lparr>bench_pcs := (bench_pcs s)(t := x),
       bench_queue := (bench_queue s)\<lparr>q_threads := (q_threads (bench_queue s))(t := Calling c)\<rparr>\<rparr>"

text \<open>
  The steps of \<open>main\<close>, of the producers, of the consumers and inside the queue. The threads below \<open>np\<close>
  are the producers, the next \<open>nc\<close> are the consumers; every producer makes \<open>n\<close> items. The condition
  of \<open>b_inside\<close> says that the step is not the beginning of a call.
\<close>

inductive bench_step :: "nat \<Rightarrow> nat \<Rightarrow> nat \<Rightarrow> bench \<Rightarrow> bench \<Rightarrow> bool" for np nc n :: nat where
  b_allocate: "bench_main s = Starting \<Longrightarrow> bench_step np nc n s (s\<lparr>bench_main := Creating 0\<rparr>)"
| b_allocate_fails: "bench_main s = Starting \<Longrightarrow> bench_step np nc n s (s\<lparr>bench_main := Exited\<rparr>)"
| b_create_producer: "bench_main s = Creating t \<Longrightarrow> t < np \<Longrightarrow>
    bench_step np nc n s (s\<lparr>bench_main := Creating (Suc t), bench_pcs := (bench_pcs s)(t := Producing 0),
      items_produced := (items_produced s)(t := 0)\<rparr>)"
| b_create_consumer: "bench_main s = Creating t \<Longrightarrow> np \<le> t \<Longrightarrow> t < np + nc \<Longrightarrow>
    bench_step np nc n s (s\<lparr>bench_main := Creating (Suc t), bench_pcs := (bench_pcs s)(t := Polling 0),
      items_consumed := (items_consumed s)(t := 0)\<rparr>)"
| b_create_fails: "bench_main s = Creating t \<Longrightarrow> t < np + nc \<Longrightarrow> bench_step np nc n s (s\<lparr>bench_main := Exited\<rparr>)"
| b_created: "bench_main s = Creating (np + nc) \<Longrightarrow> bench_step np nc n s (s\<lparr>bench_main := Joining 0 0 0\<rparr>)"
| b_join_producer: "bench_main s = Joining t tp tc \<Longrightarrow> t < np \<Longrightarrow> bench_pcs s t = Ended \<Longrightarrow>
    bench_step np nc n s (s\<lparr>bench_main := Joining (Suc t) (tp + items_produced s t) tc\<rparr>)"
| b_join_consumer: "bench_main s = Joining t tp tc \<Longrightarrow> np \<le> t \<Longrightarrow> t < np + nc \<Longrightarrow> bench_pcs s t = Ended \<Longrightarrow>
    bench_step np nc n s (s\<lparr>bench_main := Joining (Suc t) tp (tc + items_consumed s t)\<rparr>)"
| b_report: "bench_main s = Joining (np + nc) tp tc \<Longrightarrow> q_owner (bench_queue s) = None \<Longrightarrow>
    bench_step np nc n s (s\<lparr>bench_main := Reported tp tc (q_size (the_queue (bench_queue s)))\<rparr>)"
| b_enqueue: "bench_running s \<Longrightarrow> bench_pcs s t = Producing i \<Longrightarrow> i < n \<Longrightarrow> between_calls (q_threads (bench_queue s) t) \<Longrightarrow>
    bench_step np nc n s (start_call t (Enqueue (Some (item_value t i))) (Enqueuing i) s)"
| b_no_item: "bench_running s \<Longrightarrow> bench_pcs s t = Producing i \<Longrightarrow> i < n \<Longrightarrow> bench_step np nc n s (s\<lparr>bench_main := Crashed\<rparr>)"
| b_enqueued: "bench_running s \<Longrightarrow> bench_pcs s t = Enqueuing i \<Longrightarrow> q_threads (bench_queue s) t = Returned (Code r) \<Longrightarrow>
    bench_step np nc n s (s\<lparr>bench_pcs := (bench_pcs s)(t := Producing (Suc i)),
      items_produced := (items_produced s)(t := items_produced s t + (if r = 0 then 1 else 0))\<rparr>)"
| b_producer_ends: "bench_running s \<Longrightarrow> bench_pcs s t = Producing i \<Longrightarrow> n \<le> i \<Longrightarrow>
    bench_step np nc n s (s\<lparr>bench_pcs := (bench_pcs s)(t := Ended)\<rparr>)"
| b_try: "bench_running s \<Longrightarrow> bench_pcs s t = Polling e \<Longrightarrow> e < max_empty_iterations \<Longrightarrow>
    between_calls (q_threads (bench_queue s) t) \<Longrightarrow> bench_step np nc n s (start_call t Try_Dequeue (Trying e) s)"
| b_item: "bench_running s \<Longrightarrow> bench_pcs s t = Trying e \<Longrightarrow> q_threads (bench_queue s) t = Returned (Item (Some x)) \<Longrightarrow>
    bench_step np nc n s (s\<lparr>bench_pcs := (bench_pcs s)(t := Polling 0),
      items_consumed := (items_consumed s)(t := Suc (items_consumed s t))\<rparr>)"
| b_no_item_yet: "bench_running s \<Longrightarrow> bench_pcs s t = Trying e \<Longrightarrow> q_threads (bench_queue s) t = Returned (Item None) \<Longrightarrow>
    bench_step np nc n s (s\<lparr>bench_pcs := (bench_pcs s)(t := Polling (Suc e))\<rparr>)"
| b_consumer_ends: "bench_running s \<Longrightarrow> bench_pcs s t = Polling e \<Longrightarrow> max_empty_iterations \<le> e \<Longrightarrow>
    bench_step np nc n s (s\<lparr>bench_pcs := (bench_pcs s)(t := Ended)\<rparr>)"
| b_inside: "bench_running s \<Longrightarrow> queue_step (bench_queue s) q \<Longrightarrow>
    \<forall>t c. q_threads q t = Calling c \<longrightarrow> q_threads (bench_queue s) t = Calling c \<Longrightarrow>
    bench_step np nc n s (s\<lparr>bench_queue := q\<rparr>)"

definition bench_init :: "bench \<Rightarrow> bool" where
  "bench_init s \<longleftrightarrow> queue_sys_init 100 (bench_queue s) \<and> bench_pcs s = (\<lambda>_. Not_Started) \<and> bench_main s = Starting"

section \<open>The benchmark uses the queue\<close>

lemma bench_queue_step:
  "bench_step np nc n s s' \<Longrightarrow> bench_queue s' = bench_queue s \<or> queue_step (bench_queue s) (bench_queue s')"
proof (induction rule: bench_step.induct)
  case (b_enqueue s t i)
  then show ?case
    by (cases "q_threads (bench_queue s) t") (auto simp: start_call_def intro: q_call)
next
  case (b_try s t e)
  then show ?case
    by (cases "q_threads (bench_queue s) t") (auto simp: start_call_def intro: q_call)
qed auto

lemma bench_reaches_queue:
  "reachable bench_init (bench_step np nc n) s \<Longrightarrow> reachable (queue_sys_init 100) queue_step (bench_queue s)"
proof (induction rule: reachable.induct)
  case (reach_step s s')
  then show ?case using bench_queue_step [of np nc n s s'] by (metis reachable.reach_step)
qed (simp add: bench_init_def reach_init)

lemmas bench_queue_inv = queue_sys.reachable_inv [OF bench_reaches_queue]

section \<open>Inside a call\<close>

text \<open>
  A step inside a call moves one thread without touching the queue, or it puts an item into the
  queue, or it takes one out; the last two may wake another thread.
\<close>

lemma queue_step_inside:
  assumes "queue_step s s'" "\<forall>t c. q_threads s' t = Calling c \<longrightarrow> q_threads s t = Calling c"
  obtains
    (fault) "q_threads s' = q_threads s" "the_queue s' = the_queue s" "produced s' = produced s" "consumed s' = consumed s"
  | (move) t y where "q_threads s' = (q_threads s)(t := y)"
      "(\<exists>c. in_call c (q_threads s t) \<and> (in_call c y \<or> result_is (error_ret c) y)) \<or>
       (\<exists>r. q_threads s t = Leaving r \<and> y = Returned r) \<or> in_call Get_Size (q_threads s t)"
      "the_queue s' = the_queue s" "produced s' = produced s" "consumed s' = consumed s"
  | (put) t x where "q_threads s t = Inside (Enqueue x)" "wakes ((q_threads s)(t := Leaving (Code 0))) (q_threads s')"
      "q_size (the_queue s) < q_capacity (the_queue s)" "enqueue_body (the_queue s) x = Inr (the_queue s')"
      "produced s' = produced s @ [x]" "consumed s' = consumed s"
  | (get) t c x where "q_threads s t = Inside c" "c = Dequeue \<or> c = Try_Dequeue"
      "wakes ((q_threads s)(t := Leaving (Item x))) (q_threads s')"
      "q_size (the_queue s) \<noteq> 0" "dequeue_body (the_queue s) = Inr (x, the_queue s')"
      "produced s' = produced s" "consumed s' = consumed s @ [x]"
  using assms(1)
proof (cases rule: queue_step.cases)
  case (q_call t r c)
  then have "q_threads s' t = Calling c" by simp
  with assms(2) have "q_threads s t = Calling c" by blast
  with q_call show ?thesis by simp
next
  case (q_enqueue t x q' g)
  then show ?thesis using wakes_signal by (intro put [of t x]) auto
next
  case (q_dequeue t c x q' g)
  then show ?thesis using wakes_signal by (intro get [of t c x]) auto
next
  case (q_null_item t)
  then show ?thesis by (intro move [of t "Returned (Code (- 1))"]) (auto simp: in_call_def result_is_def)
next
  case (q_lock_fails t c)
  then show ?thesis by (intro move [of t "Returned (error_ret c)"]) (auto simp: in_call_def result_is_def)
next
  case (q_lock t c)
  then show ?thesis by (intro move [of t "Inside c"]) (auto simp: in_call_def result_is_def)
next
  case (q_trylock_busy t)
  then show ?thesis by (intro move [of t "Returned (Item None)"]) (auto simp: in_call_def result_is_def)
next
  case (q_wait t c)
  then show ?thesis by (intro move [of t "Sleeping c"]) (auto simp: in_call_def result_is_def)
next
  case (q_wait_fails t c)
  then show ?thesis by (intro move [of t "Leaving (error_ret c)"]) (auto simp: in_call_def result_is_def)
next
  case (q_wakeup t c)
  then show ?thesis by (intro move [of t "Woken c"]) (auto simp: in_call_def result_is_def)
next
  case (q_relock t c)
  then show ?thesis by (intro move [of t "Inside c"]) (auto simp: in_call_def result_is_def)
next
  case (q_try_empty t)
  then show ?thesis by (intro move [of t "Leaving (Item None)"]) (auto simp: in_call_def result_is_def)
next
  case (q_get_size t)
  then show ?thesis by (intro move [of t "Leaving (Code (q_size (the_queue s)))"]) (auto simp: in_call_def result_is_def)
next
  case (q_unlock t r)
  then show ?thesis by (intro move [of t "Returned r"]) (auto simp: in_call_def result_is_def)
qed (simp_all add: fault)

section \<open>Invariant\<close>

text \<open>What a thread does in the queue fits to where it is in its function.\<close>

definition bench_thread_ok :: "nat \<Rightarrow> nat \<Rightarrow> nat \<Rightarrow> nat \<Rightarrow> bench_pc \<Rightarrow> (64 word queue_call, 64 word queue_ret) pc \<Rightarrow> bool" where
  "bench_thread_ok np nc n t p x = (case p of
     Not_Started \<Rightarrow> between_calls x
   | Producing i \<Rightarrow> t < np \<and> i \<le> n \<and> between_calls x
   | Enqueuing i \<Rightarrow> t < np \<and> i < n \<and> (in_call (Enqueue (Some (item_value t i))) x \<or> (\<exists>r. result_is (Code r) x))
   | Polling e \<Rightarrow> np \<le> t \<and> t < np + nc \<and> between_calls x
   | Trying e \<Rightarrow> np \<le> t \<and> t < np + nc \<and> (in_call Try_Dequeue x \<or> (\<exists>r. result_is (Item r) x))
   | Ended \<Rightarrow> t < np + nc \<and> between_calls x)"

text \<open>The items that a thread has put into the queue, or taken out, whether it has counted them or not.\<close>

definition made :: "bench \<Rightarrow> nat \<Rightarrow> nat" where
  "made s t = (case bench_pcs s t of
     Not_Started \<Rightarrow> 0
   | Enqueuing i \<Rightarrow> items_produced s t + (if result_is (Code 0) (q_threads (bench_queue s) t) then 1 else 0)
   | _ \<Rightarrow> items_produced s t)"

definition got :: "bench \<Rightarrow> nat \<Rightarrow> nat" where
  "got s t = (case bench_pcs s t of
     Not_Started \<Rightarrow> 0
   | Trying e \<Rightarrow> items_consumed s t + (if \<exists>x. result_is (Item (Some x)) (q_threads (bench_queue s) t) then 1 else 0)
   | _ \<Rightarrow> items_consumed s t)"

fun bench_main_ok :: "nat \<Rightarrow> nat \<Rightarrow> bench \<Rightarrow> bench_main \<Rightarrow> bool" where
  "bench_main_ok np nc s Starting = (\<forall>t. bench_pcs s t = Not_Started)"
| "bench_main_ok np nc s (Creating i) = (i \<le> np + nc \<and> (\<forall>t\<ge>i. bench_pcs s t = Not_Started))"
| "bench_main_ok np nc s (Joining i tp tc) = (i \<le> np + nc \<and> (\<forall>t<i. bench_pcs s t = Ended) \<and>
     tp = (\<Sum>t<min i np. items_produced s t) \<and> tc = (\<Sum>t\<in>{np..<i}. items_consumed s t))"
| "bench_main_ok np nc s (Reported tp tc z) = ((\<forall>t<np + nc. bench_pcs s t = Ended) \<and>
     tp = (\<Sum>t<np. items_produced s t) \<and> tc = (\<Sum>t\<in>{np..<np + nc}. items_consumed s t) \<and>
     z = q_size (the_queue (bench_queue s)))"
| "bench_main_ok np nc s _ = True"

definition bench_inv :: "nat \<Rightarrow> nat \<Rightarrow> nat \<Rightarrow> bench \<Rightarrow> bool" where
  "bench_inv np nc n s \<longleftrightarrow> queue_sys_inv 100 (bench_queue s) \<and>
     (\<forall>t. bench_thread_ok np nc n t (bench_pcs s t) (q_threads (bench_queue s) t)) \<and>
     length (produced (bench_queue s)) = (\<Sum>t<np. made s t) \<and>
     length (consumed (bench_queue s)) = (\<Sum>t\<in>{np..<np + nc}. got s t) \<and>
     bench_main_ok np nc s (bench_main s)"

lemma bench_inv_init: "bench_init s \<Longrightarrow> bench_inv np nc n s"
  using queue_sys_inv_init [of 100 "bench_queue s"]
  by (auto simp: bench_init_def bench_inv_def queue_sys_init_def bench_thread_ok_def made_def got_def)

lemma sum_one_more:
  assumes "finite A" "t \<in> A" "\<And>u. u \<noteq> t \<Longrightarrow> g u = f u" "g t = Suc (f t)"
  shows "sum g A = Suc (sum f A)"
proof -
  have "sum g (A - {t}) = sum f (A - {t})" using assms(3) by (intro sum.cong) auto
  then show ?thesis using assms(1,2,4) by (simp add: sum.remove)
qed

lemma wakes_thread_ok:
  "wakes f g \<Longrightarrow> bench_thread_ok np nc n t p (g t) = bench_thread_ok np nc n t p (f t)"
  by (auto simp: bench_thread_ok_def wakes_in_call wakes_result wakes_between split: bench_pc.split)

text \<open>What a thread in a call is doing.\<close>

lemma bench_in_call:
  assumes "bench_thread_ok np nc n t p x" "in_call c x"
  obtains i where "p = Enqueuing i" "c = Enqueue (Some (item_value t i))" "t < np"
  | e where "p = Trying e" "c = Try_Dequeue" "np \<le> t" "t < np + nc"
proof (cases p)
  case (Enqueuing i)
  then have "t < np" "in_call (Enqueue (Some (item_value t i))) x"
    using assms(1) in_call_busy [OF assms(2)] by (auto simp: bench_thread_ok_def)
  then show thesis using that(1) Enqueuing in_call_unique [OF assms(2)] by blast
next
  case (Trying e)
  then have "np \<le> t" "t < np + nc" "in_call Try_Dequeue x"
    using assms(1) in_call_busy [OF assms(2)] by (auto simp: bench_thread_ok_def)
  then show thesis using that(2) Trying in_call_unique [OF assms(2)] by blast
qed (use assms(1) in_call_busy [OF assms(2)] in \<open>auto simp: bench_thread_ok_def\<close>)

lemma bench_move_ok:
  assumes ok: "bench_thread_ok np nc n t p x"
    and m: "(\<exists>c. in_call c x \<and> (in_call c y \<or> result_is (error_ret c) y)) \<or> (\<exists>r. x = Leaving r \<and> y = Returned r) \<or> in_call Get_Size x"
  shows "bench_thread_ok np nc n t p y \<and> (\<forall>i. p = Enqueuing i \<longrightarrow> result_is (Code 0) y = result_is (Code 0) x) \<and>
    (\<forall>e v. p = Trying e \<longrightarrow> result_is (Item (Some v)) y = result_is (Item (Some v)) x)"
proof -
  consider (stay) c where "in_call c x" "in_call c y" | (fails) c where "in_call c x" "result_is (error_ret c) y"
    | (unlock) r where "x = Leaving r" "y = Returned r" | (size) "in_call Get_Size x" using m by blast
  then show ?thesis
  proof cases
    case stay
    from ok stay(1) show ?thesis
      by (cases rule: bench_in_call) (use ok stay in_call_busy [OF stay(1)] in_call_busy [OF stay(2)] in \<open>auto simp: bench_thread_ok_def\<close>)
  next
    case fails
    from ok fails(1) show ?thesis
      by (cases rule: bench_in_call)
        (use ok fails(2) in_call_busy [OF fails(1)] result_unique [OF fails(2)] in \<open>auto simp: bench_thread_ok_def\<close>)
  next
    case unlock
    then show ?thesis using ok by (auto simp: bench_thread_ok_def result_is_def in_call_def split: bench_pc.splits)
  next
    case size
    from ok size show ?thesis by (cases rule: bench_in_call) auto
  qed
qed

text \<open>A step inside a call that puts an item into the queue, or takes one out.\<close>

lemma bench_put:
  assumes ok: "\<forall>u. bench_thread_ok np nc n u (bench_pcs s u) (q_threads (bench_queue s) u)"
    and t: "q_threads (bench_queue s) t = Inside (Enqueue x)"
    and w: "wakes ((q_threads (bench_queue s))(t := Leaving (Code 0))) (q_threads q)"
  shows "\<exists>i. bench_pcs s t = Enqueuing i \<and> x = Some (item_value t i) \<and> t < np"
    "bench_thread_ok np nc n u (bench_pcs s u) (q_threads q u)"
    "made (s\<lparr>bench_queue := q\<rparr>) u = (if u = t then Suc (made s u) else made s u)" "got (s\<lparr>bench_queue := q\<rparr>) u = got s u"
proof -
  have o: "bench_thread_ok np nc n t (bench_pcs s t) (Inside (Enqueue x))" using ok t by metis
  then obtain i where i: "bench_pcs s t = Enqueuing i" "x = Some (item_value t i)" "t < np"
    by (cases rule: bench_in_call [where c = "Enqueue x"]) (auto simp: in_call_def)
  then show "\<exists>i. bench_pcs s t = Enqueuing i \<and> x = Some (item_value t i) \<and> t < np" by blast
  show "bench_thread_ok np nc n u (bench_pcs s u) (q_threads q u)"
    using ok o i unfolding wakes_thread_ok [OF w] by (cases "u = t") (auto simp: bench_thread_ok_def)
  show "made (s\<lparr>bench_queue := q\<rparr>) u = (if u = t then Suc (made s u) else made s u)"
    using i(1) t by (cases "u = t") (auto simp: made_def wakes_result [OF w] split: bench_pc.split)
  show "got (s\<lparr>bench_queue := q\<rparr>) u = got s u"
    using i(1) by (cases "u = t") (auto simp: got_def wakes_result [OF w] split: bench_pc.split)
qed

lemma bench_get:
  assumes ok: "\<forall>u. bench_thread_ok np nc n u (bench_pcs s u) (q_threads (bench_queue s) u)"
    and t: "q_threads (bench_queue s) t = Inside c" "c = Dequeue \<or> c = Try_Dequeue"
    and w: "wakes ((q_threads (bench_queue s))(t := Leaving (Item (Some x)))) (q_threads q)"
  shows "\<exists>e. bench_pcs s t = Trying e \<and> np \<le> t \<and> t < np + nc"
    "bench_thread_ok np nc n u (bench_pcs s u) (q_threads q u)"
    "got (s\<lparr>bench_queue := q\<rparr>) u = (if u = t then Suc (got s u) else got s u)" "made (s\<lparr>bench_queue := q\<rparr>) u = made s u"
proof -
  have "bench_thread_ok np nc n t (bench_pcs s t) (Inside c)" using ok t(1) by metis
  then obtain e where e: "bench_pcs s t = Trying e" "np \<le> t" "t < np + nc"
    by (cases rule: bench_in_call [where c = c]) (use t(2) in \<open>auto simp: in_call_def\<close>)
  then show "\<exists>e. bench_pcs s t = Trying e \<and> np \<le> t \<and> t < np + nc" by blast
  show "bench_thread_ok np nc n u (bench_pcs s u) (q_threads q u)"
    using ok e unfolding wakes_thread_ok [OF w] by (cases "u = t") (auto simp: bench_thread_ok_def)
  show "got (s\<lparr>bench_queue := q\<rparr>) u = (if u = t then Suc (got s u) else got s u)"
    using e(1) t by (cases "u = t") (auto simp: got_def wakes_result [OF w] split: bench_pc.split)
  show "made (s\<lparr>bench_queue := q\<rparr>) u = made s u"
    using e(1) by (cases "u = t") (auto simp: made_def wakes_result [OF w] split: bench_pc.split)
qed

lemma bench_main_ok_queue:
  assumes "bench_main_ok np nc s m" "the_queue q = the_queue (bench_queue s) \<or> (\<exists>t<np + nc. bench_pcs s t \<noteq> Ended)"
  shows "bench_main_ok np nc (s\<lparr>bench_queue := q\<rparr>) m"
  using assms by (cases m) auto

lemma queue_gives_item:
  assumes "queue_sys_inv cap s" "dequeue_body (the_queue s) = Inr (x, q)" "0 < q_size (the_queue s)"
  shows "x \<noteq> None"
proof -
  have i: "queue_inv (the_queue s)" "produced s = consumed s @ queue_contents (the_queue s)" "None \<notin> set (produced s)"
    using assms(1) unfolding queue_sys_inv_def by blast+
  obtain q' where "queue_contents (the_queue s) = x # queue_contents q'"
    using dequeue_body_ok [OF i(1) assms(3)] assms(2) by auto
  then show ?thesis using i(2,3) by (cases x) auto
qed

lemma bench_inv_inside:
  assumes inv: "bench_inv np nc n s" and st: "queue_step (bench_queue s) q"
    and nc: "\<forall>t c. q_threads q t = Calling c \<longrightarrow> q_threads (bench_queue s) t = Calling c"
  shows "bench_inv np nc n (s\<lparr>bench_queue := q\<rparr>)"
proof -
  have i: "queue_sys_inv 100 (bench_queue s)" "\<forall>t. bench_thread_ok np nc n t (bench_pcs s t) (q_threads (bench_queue s) t)"
      "length (produced (bench_queue s)) = (\<Sum>t<np. made s t)" "length (consumed (bench_queue s)) = (\<Sum>t\<in>{np..<np + nc}. got s t)"
      "bench_main_ok np nc s (bench_main s)"
    using inv by (simp_all add: bench_inv_def)
  have q: "queue_sys_inv 100 q" using queue_sys_inv_step [OF st i(1)] .
  let ?s = "s\<lparr>bench_queue := q\<rparr>"
  from st nc show ?thesis
  proof (cases rule: queue_step_inside)
    case fault
    then have "made ?s = made s" "got ?s = got s" by (auto simp: made_def got_def fun_eq_iff split: bench_pc.split)
    then show ?thesis using i q fault bench_main_ok_queue [OF i(5)] by (simp add: bench_inv_def)
  next
    case (move t y)
    have m: "bench_thread_ok np nc n t (bench_pcs s t) y \<and>
        (\<forall>i. bench_pcs s t = Enqueuing i \<longrightarrow> result_is (Code 0) y = result_is (Code 0) (q_threads (bench_queue s) t)) \<and>
        (\<forall>e v. bench_pcs s t = Trying e \<longrightarrow> result_is (Item (Some v)) y = result_is (Item (Some v)) (q_threads (bench_queue s) t))"
      by (rule bench_move_ok [OF i(2) [rule_format] move(2)])
    then have "made ?s u = made s u" "got ?s u = got s u" for u
      using move(1) by (auto simp: made_def got_def split: bench_pc.split)
    then show ?thesis using i q move m bench_main_ok_queue [OF i(5)] by (simp add: bench_inv_def)
  next
    case (put t x)
    note p = bench_put [OF i(2) put(1,2)]
    have "t < np" using p(1) by blast
    then have "(\<Sum>t<np. made ?s t) = Suc (\<Sum>t<np. made s t)" by (intro sum_one_more [of _ t]) (simp_all add: p)
    moreover have "bench_main_ok np nc ?s (bench_main s)"
      by (rule bench_main_ok_queue [OF i(5)]) (use p(1) in auto)
    ultimately show ?thesis using i q put p(2,4) by (simp add: bench_inv_def)
  next
    case (get t c x)
    have "0 < q_size (the_queue (bench_queue s))" using i(1) get(4) by (simp add: queue_sys_inv_def queue_inv_def)
    then obtain v where x: "x = Some v" using queue_gives_item [OF i(1) get(5)] by blast
    note g = bench_get [OF i(2) get(1,2) get(3) [unfolded x]]
    have "t \<in> {np..<np + nc}" using g(1) by auto
    then have "(\<Sum>t\<in>{np..<np + nc}. got ?s t) = Suc (\<Sum>t\<in>{np..<np + nc}. got s t)" by (intro sum_one_more [of _ t]) (simp_all add: g)
    moreover have "bench_main_ok np nc ?s (bench_main s)"
      by (rule bench_main_ok_queue [OF i(5)]) (use g(1) in auto)
    ultimately show ?thesis using i q get g(2,4) by (simp add: bench_inv_def)
  qed
qed

text \<open>The steps of \<open>main\<close>, and the steps of a thread between two calls.\<close>

lemma bench_inv_main:
  assumes "bench_inv np nc n s" "bench_main_ok np nc s m"
  shows "bench_inv np nc n (s\<lparr>bench_main := m\<rparr>)"
proof -
  have "made (s\<lparr>bench_main := m\<rparr>) = made s" "got (s\<lparr>bench_main := m\<rparr>) = got s"
    by (auto simp: made_def got_def fun_eq_iff split: bench_pc.split)
  moreover have "bench_main_ok np nc (s\<lparr>bench_main := m\<rparr>) m" using assms(2) by (cases m) auto
  ultimately show ?thesis using assms(1) by (simp add: bench_inv_def)
qed

lemma bench_invD:
  assumes "bench_inv np nc n s"
  shows "queue_sys_inv 100 (bench_queue s)" "bench_thread_ok np nc n t (bench_pcs s t) (q_threads (bench_queue s) t)"
    "bench_main_ok np nc s (bench_main s)"
  using assms by (simp_all add: bench_inv_def)

lemma bench_inv_thread:
  assumes inv: "bench_inv np nc n s" and t: "bench_pcs s t \<noteq> Not_Started" "bench_pcs s t \<noteq> Ended" "t < np + nc"
    and u: "\<And>u. u \<noteq> t \<Longrightarrow> bench_pcs s' u = bench_pcs s u \<and> items_produced s' u = items_produced s u \<and>
      items_consumed s' u = items_consumed s u \<and> q_threads (bench_queue s') u = q_threads (bench_queue s) u"
    and t': "bench_thread_ok np nc n t (bench_pcs s' t) (q_threads (bench_queue s') t)" "made s' t = made s t" "got s' t = got s t"
    and q: "queue_sys_inv 100 (bench_queue s')" "produced (bench_queue s') = produced (bench_queue s)"
      "consumed (bench_queue s') = consumed (bench_queue s)"
    and m: "bench_main s' = bench_main s"
  shows "bench_inv np nc n s'"
proof -
  have "made s' v = made s v \<and> got s' v = got s v \<and> bench_thread_ok np nc n v (bench_pcs s' v) (q_threads (bench_queue s') v)" for v
  proof (cases "v = t")
    case False
    then show ?thesis using u [of v] bench_invD(2) [OF inv, of v] by (simp add: made_def got_def split: bench_pc.split)
  qed (use t' in simp)
  moreover have "bench_main_ok np nc s' (bench_main s)"
  proof (cases "bench_main s")
    case Starting
    then show ?thesis using inv t by (auto simp: bench_inv_def)
  next
    case (Creating i)
    then have "bench_pcs s' v = Not_Started" if "i \<le> v" for v using inv t(1) that u [of v] by (cases "v = t") (auto simp: bench_inv_def)
    then show ?thesis using Creating inv by (auto simp: bench_inv_def)
  next
    case (Joining i tp tc)
    then have i: "i \<le> np + nc" "\<forall>v<i. bench_pcs s v = Ended" "tp = (\<Sum>t<min i np. items_produced s t)" "tc = (\<Sum>t\<in>{np..<i}. items_consumed s t)"
      using inv by (simp_all add: bench_inv_def)
    have v: "bench_pcs s' v = bench_pcs s v \<and> items_produced s' v = items_produced s v \<and> items_consumed s' v = items_consumed s v" if "v < i" for v
      using that i(2) t(2) u [of v] by (cases "v = t") auto
    then have "(\<Sum>t<min i np. items_produced s' t) = tp" "(\<Sum>t\<in>{np..<i}. items_consumed s' t) = tc"
      unfolding i(3,4) by (auto intro!: sum.cong)
    then show ?thesis using Joining i(1,2) v by simp
  next
    case (Reported tp tc z)
    then show ?thesis using inv t by (auto simp: bench_inv_def)
  qed simp_all
  ultimately show ?thesis using inv q m by (simp add: bench_inv_def)
qed

lemma bench_thread_known:
  assumes "bench_inv np nc n s" "bench_pcs s t \<noteq> Not_Started"
  shows "t < np + nc"
  using bench_invD(2) [OF assms(1), of t] assms(2) by (cases "bench_pcs s t") (auto simp: bench_thread_ok_def)

lemma queue_sys_inv_call:
  assumes "queue_sys_inv cap q" "between_calls (q_threads q t)"
  shows "queue_sys_inv cap (q\<lparr>q_threads := (q_threads q)(t := Calling c)\<rparr>)"
proof -
  obtain r where "q_threads q t = Idle \<or> q_threads q t = Returned r" using assms(2) by (cases "q_threads q t") auto
  from queue_sys_inv_step [OF q_call [OF this] assms(1)] show ?thesis .
qed

lemma bench_inv_started:
  assumes inv: "bench_inv np nc n s" and t: "bench_main s = Creating t" "t < np + nc"
    and p: "p = Producing 0 \<and> t < np \<and> items_produced s' t = 0 \<or> p = Polling 0 \<and> np \<le> t \<and> items_consumed s' t = 0"
    and u: "\<And>u. u \<noteq> t \<Longrightarrow> items_produced s' u = items_produced s u \<and> items_consumed s' u = items_consumed s u"
    and s': "bench_queue s' = bench_queue s" "bench_main s' = Creating (Suc t)" "bench_pcs s' = (bench_pcs s)(t := p)"
  shows "bench_inv np nc n s'"
proof -
  have n: "bench_pcs s v = Not_Started" if "t \<le> v" for v using bench_invD(3) [OF inv] t(1) that by simp
  have "made s' v = made s v" if "v < np" for v
    using u [of v] n [of v] p s' that by (cases "v = t") (auto simp: made_def split: bench_pc.split)
  moreover have "got s' v = got s v" if "np \<le> v" for v
    using u [of v] n [of v] p s' that by (cases "v = t") (auto simp: got_def split: bench_pc.split)
  moreover have "bench_thread_ok np nc n v (bench_pcs s' v) (q_threads (bench_queue s') v)" for v
    using bench_invD(2) [OF inv, of v] n [of v] p s' t by (cases "v = t") (auto simp: bench_thread_ok_def)
  moreover have "bench_main_ok np nc s' (Creating (Suc t))" using n t s' by auto
  ultimately show ?thesis using inv s' by (auto simp: bench_inv_def intro!: sum.cong)
qed

lemma bench_inv_step:
  assumes "bench_step np nc n s s'" "bench_inv np nc n s"
  shows "bench_inv np nc n s'"
  using assms
proof (induction rule: bench_step.induct)
  case (b_allocate s)
  then show ?case using bench_invD(3) [OF b_allocate.prems] by (intro bench_inv_main) simp_all
next
  case (b_create_producer s t)
  then show ?case by (intro bench_inv_started [OF b_create_producer.prems]) simp_all
next
  case (b_create_consumer s t)
  then show ?case by (intro bench_inv_started [OF b_create_consumer.prems]) simp_all
next
  case (b_created s)
  then show ?case by (intro bench_inv_main) simp_all
next
  case (b_join_producer s t tp tc)
  then have "min t np = t" "min (Suc t) np = Suc t" by simp_all
  then show ?case using bench_invD(3) [OF b_join_producer.prems] b_join_producer
    by (intro bench_inv_main) (auto simp: less_Suc_eq)
next
  case (b_join_consumer s t tp tc)
  then have "min t np = np" "min (Suc t) np = np" "{np..<Suc t} = insert t {np..<t}" by auto
  then show ?case using bench_invD(3) [OF b_join_consumer.prems] b_join_consumer
    by (intro bench_inv_main) (auto simp: less_Suc_eq)
next
  case (b_report s tp tc)
  then show ?case using bench_invD(3) [OF b_report.prems] by (intro bench_inv_main) simp_all
next
  case (b_enqueue s t i)
  then show ?case
    using bench_invD(2) [OF b_enqueue.prems, of t] queue_sys_inv_call [OF bench_invD(1) [OF b_enqueue.prems]]
    by (intro bench_inv_thread [OF b_enqueue.prems, of t]) (auto simp: start_call_def bench_thread_ok_def in_call_def made_def got_def)
next
  case (b_enqueued s t i r)
  then show ?case using bench_invD(1) [OF b_enqueued.prems] bench_invD(2) [OF b_enqueued.prems, of t]
    by (intro bench_inv_thread [OF b_enqueued.prems, of t]) (auto simp: bench_thread_ok_def made_def got_def)
next
  case (b_producer_ends s t i)
  then show ?case using bench_invD(1) [OF b_producer_ends.prems] bench_invD(2) [OF b_producer_ends.prems, of t]
    by (intro bench_inv_thread [OF b_producer_ends.prems, of t]) (auto simp: bench_thread_ok_def made_def got_def)
next
  case (b_try s t e)
  then show ?case
    using bench_invD(2) [OF b_try.prems, of t] queue_sys_inv_call [OF bench_invD(1) [OF b_try.prems]]
    by (intro bench_inv_thread [OF b_try.prems, of t]) (auto simp: start_call_def bench_thread_ok_def in_call_def made_def got_def)
next
  case (b_item s t e x)
  then show ?case using bench_invD(1) [OF b_item.prems] bench_invD(2) [OF b_item.prems, of t]
    by (intro bench_inv_thread [OF b_item.prems, of t]) (auto simp: bench_thread_ok_def made_def got_def)
next
  case (b_no_item_yet s t e)
  then show ?case using bench_invD(1) [OF b_no_item_yet.prems] bench_invD(2) [OF b_no_item_yet.prems, of t]
    by (intro bench_inv_thread [OF b_no_item_yet.prems, of t]) (auto simp: bench_thread_ok_def made_def got_def)
next
  case (b_consumer_ends s t e)
  then show ?case using bench_invD(1) [OF b_consumer_ends.prems] bench_invD(2) [OF b_consumer_ends.prems, of t]
    by (intro bench_inv_thread [OF b_consumer_ends.prems, of t]) (auto simp: bench_thread_ok_def made_def got_def)
next
  case (b_inside s q)
  then show ?case using bench_inv_inside by blast
qed (auto intro: bench_inv_main)

interpretation bench: invariant_of bench_init "bench_step np nc n" "bench_inv np nc n" for np nc n
  by unfold_locales (auto intro: bench_inv_init bench_inv_step)

section \<open>The order of the items\<close>











section \<open>Runs of the benchmark\<close>

text \<open>No thread is in a call.\<close>

definition calm :: "bench \<Rightarrow> bool" where
  "calm s \<longleftrightarrow> bench_running s \<and> q_owner (bench_queue s) = None \<and> (\<forall>t. between_calls (q_threads (bench_queue s) t))"

text \<open>The step \<open>b_inside\<close> for a step of the queue that is not the beginning of a call.\<close>

lemma run_inside:
  assumes "reachable bench_init (bench_step np nc n) s" "bench_running s" "queue_step (bench_queue s) q"
    and "\<forall>t c. q_threads q t = Calling c \<longrightarrow> q_threads (bench_queue s) t = Calling c"
  shows "reachable bench_init (bench_step np nc n) (s\<lparr>bench_queue := q\<rparr>)"
  by (rule reach_step [OF assms(1) b_inside [OF assms(2-4)]])

lemma run_call:
  assumes r: "reachable bench_init (bench_step np nc n) s" and c: "calm s"
    and st: "bench_step np nc n s (start_call t c x s)" "c \<noteq> Enqueue None"
  defines "q \<equiv> (bench_queue s)\<lparr>q_threads := (q_threads (bench_queue s))(t := Inside c), q_owner := Some t\<rparr>"
  shows "reachable bench_init (bench_step np nc n) (s\<lparr>bench_pcs := (bench_pcs s)(t := x), bench_queue := q\<rparr>)"
proof -
  let ?s = "start_call t c x s"
  have "queue_step (bench_queue ?s) ((bench_queue ?s)\<lparr>q_threads := (q_threads (bench_queue ?s))(t := Inside c), q_owner := Some t\<rparr>)"
    by (rule q_lock) (use c st(2) in \<open>simp_all add: start_call_def calm_def\<close>)
  from run_inside [OF reach_step [OF r st(1)] _ this] c show ?thesis
    by (simp add: start_call_def calm_def bench_running_def q_def split: if_splits)
qed

lemma run_unlock:
  assumes r: "reachable bench_init (bench_step np nc n) s" and "bench_running s"
    and t: "q_threads (bench_queue s) t = Leaving r"
  shows "reachable bench_init (bench_step np nc n)
    (s\<lparr>bench_queue := (bench_queue s)\<lparr>q_threads := (q_threads (bench_queue s))(t := Returned r), q_owner := None\<rparr>\<rparr>)"
  by (rule run_inside [OF assms(1,2) q_unlock [OF t]]) simp

text \<open>What a run of the threads leaves alone.\<close>

definition undisturbed :: "bench \<Rightarrow> bench \<Rightarrow> bool" where
  "undisturbed s s' \<longleftrightarrow> calm s' \<and> the_queue (bench_queue s') = the_queue (bench_queue s) \<and>
     items_produced s' = items_produced s \<and> items_consumed s' = items_consumed s \<and> bench_main s' = bench_main s"

lemma run_poll:
  assumes r: "reachable bench_init (bench_step np nc n) s" and c: "calm s"
    and t: "bench_pcs s t = Polling e" "e < max_empty_iterations" and z: "q_size (the_queue (bench_queue s)) = 0"
  shows "\<exists>s'. reachable bench_init (bench_step np nc n) s' \<and> undisturbed s s' \<and> bench_pcs s' = (bench_pcs s)(t := Polling (Suc e))"
proof -
  let ?q = "bench_queue s"
  have run: "bench_running s" and b: "between_calls (q_threads ?q t)" using c by (simp_all add: calm_def)
  let ?q1 = "?q\<lparr>q_threads := (q_threads ?q)(t := Inside Try_Dequeue), q_owner := Some t\<rparr>"
  let ?s1 = "s\<lparr>bench_pcs := (bench_pcs s)(t := Trying e), bench_queue := ?q1\<rparr>"
  have "reachable bench_init (bench_step np nc n) ?s1"
    by (rule run_call [OF r c b_try [OF run t b]]) simp
  moreover have "queue_step ?q1 (?q1\<lparr>q_threads := (q_threads ?q1)(t := Leaving (Item None))\<rparr>)"
    by (rule q_try_empty) (use z in simp_all)
  ultimately have "reachable bench_init (bench_step np nc n) (?s1\<lparr>bench_queue := ?q1\<lparr>q_threads := (q_threads ?q1)(t := Leaving (Item None))\<rparr>\<rparr>)"
    using run by (intro run_inside [where s = ?s1]) (simp_all add: bench_running_def)
  from run_unlock [OF this, of t] have "reachable bench_init (bench_step np nc n)
      (?s1\<lparr>bench_queue := ?q\<lparr>q_threads := (q_threads ?q)(t := Returned (Item None)), q_owner := None\<rparr>\<rparr>)" (is "reachable _ _ ?s2")
    using run by (simp add: bench_running_def)
  moreover have "bench_step np nc n ?s2 (?s2\<lparr>bench_pcs := (bench_pcs ?s2)(t := Polling (Suc e))\<rparr>)"
    by (rule b_no_item_yet [where e = e]) (use run in \<open>simp_all add: bench_running_def\<close>)
  ultimately have "reachable bench_init (bench_step np nc n) (?s2\<lparr>bench_pcs := (bench_pcs ?s2)(t := Polling (Suc e))\<rparr>)"
    by (rule reach_step)
  with c show ?thesis by - (rule exI, rule conjI, assumption, auto simp: undisturbed_def calm_def bench_running_def)
qed

text \<open>A consumer that finds the queue empty 1000 times ends; so do all consumers, one after the other.\<close>

lemma run_polls:
  assumes "e \<le> max_empty_iterations" "reachable bench_init (bench_step np nc n) s" "calm s" "bench_pcs s t = Polling e"
    and "q_size (the_queue (bench_queue s)) = 0"
  shows "\<exists>s'. reachable bench_init (bench_step np nc n) s' \<and> undisturbed s s' \<and> bench_pcs s' = (bench_pcs s)(t := Ended)"
  using assms
proof (induction e arbitrary: s rule: inc_induct)
  case base
  let ?s = "s\<lparr>bench_pcs := (bench_pcs s)(t := Ended)\<rparr>"
  have "bench_step np nc n s ?s" by (rule b_consumer_ends [where e = max_empty_iterations]) (use base in \<open>simp_all add: calm_def\<close>)
  with base(1) have "reachable bench_init (bench_step np nc n) ?s" by (rule reach_step)
  with base(2) show ?case by - (rule exI, rule conjI, assumption, auto simp: undisturbed_def calm_def bench_running_def)
next
  case (step e)
  obtain s' where s': "reachable bench_init (bench_step np nc n) s'" "undisturbed s s'" "bench_pcs s' = (bench_pcs s)(t := Polling (Suc e))"
    using run_poll [OF step.prems(1,2,3) step.hyps(2) step.prems(4)] by blast
  have "calm s'" "bench_pcs s' t = Polling (Suc e)" "q_size (the_queue (bench_queue s')) = 0"
    using s' step.prems(4) by (simp_all add: undisturbed_def)
  from step.IH [OF s'(1) this] obtain s2 where s2: "reachable bench_init (bench_step np nc n) s2" "undisturbed s' s2"
    "bench_pcs s2 = (bench_pcs s')(t := Ended)" by blast
  moreover have "undisturbed s s2" using s'(2) s2(2) by (simp add: undisturbed_def)
  moreover have "bench_pcs s2 = (bench_pcs s)(t := Ended)" unfolding s2(3) s'(3) by simp
  ultimately show ?case by blast
qed

lemma run_consumers:
  assumes "k \<le> nc" "reachable bench_init (bench_step np nc n) s" "calm s" "q_size (the_queue (bench_queue s)) = 0"
    and "\<forall>t\<in>{np..<np + nc}. bench_pcs s t = Polling 0"
  shows "\<exists>s'. reachable bench_init (bench_step np nc n) s' \<and> undisturbed s s' \<and>
    bench_pcs s' = (\<lambda>t. if np \<le> t \<and> t < np + k then Ended else bench_pcs s t)"
  using assms(1)
proof (induction k)
  case 0
  then show ?case using assms(2,3) by (intro exI [of _ s]) (auto simp: undisturbed_def fun_eq_iff)
next
  case (Suc k)
  then obtain s' where s': "reachable bench_init (bench_step np nc n) s'" "undisturbed s s'"
    "bench_pcs s' = (\<lambda>t. if np \<le> t \<and> t < np + k then Ended else bench_pcs s t)" by auto
  have "bench_pcs s' (np + k) = Polling 0" "calm s'" "q_size (the_queue (bench_queue s')) = 0"
    using s' assms(4,5) Suc.prems by (auto simp: undisturbed_def)
  then obtain s2 where s2: "reachable bench_init (bench_step np nc n) s2" "undisturbed s' s2" "bench_pcs s2 = (bench_pcs s')(np + k := Ended)"
    using run_polls [of 0 np nc n s' "np + k"] s'(1) by auto
  then show ?case using s' by (intro exI [of _ s2]) (auto simp: undisturbed_def)
qed

text \<open>A producer puts items into the queue while there is room.\<close>

lemma run_enqueue:
  assumes r: "reachable bench_init (bench_step np nc n) s" and c: "calm s"
    and t: "bench_pcs s t = Producing i" "i < n" and z: "q_size (the_queue (bench_queue s)) < 100"
  shows "\<exists>s'. reachable bench_init (bench_step np nc n) s' \<and> calm s' \<and> bench_main s' = bench_main s \<and>
    q_size (the_queue (bench_queue s')) = q_size (the_queue (bench_queue s)) + 1 \<and>
    bench_pcs s' = (bench_pcs s)(t := Producing (Suc i)) \<and> items_produced s' = (items_produced s)(t := Suc (items_produced s t))"
proof -
  let ?q = "bench_queue s" and ?c = "Enqueue (Some (item_value t i))"
  have run: "bench_running s" and b: "between_calls (q_threads ?q t)" using c by (simp_all add: calm_def)
  have q: "queue_inv (the_queue ?q)" "q_capacity (the_queue ?q) = 100"
    using bench_queue_inv [OF r] by (simp_all add: queue_sys_inv_def)
  then obtain q' where q': "enqueue_body (the_queue ?q) (Some (item_value t i)) = Inr q'" "q_size q' = q_size (the_queue ?q) + 1"
    using enqueue_body_ok z by fastforce
  let ?q1 = "?q\<lparr>q_threads := (q_threads ?q)(t := Inside ?c), q_owner := Some t\<rparr>"
  let ?s1 = "s\<lparr>bench_pcs := (bench_pcs s)(t := Enqueuing i), bench_queue := ?q1\<rparr>"
  let ?g = "(q_threads ?q)(t := Leaving (Code 0))"
  have "reachable bench_init (bench_step np nc n) ?s1"
    by (rule run_call [OF r c b_enqueue [OF run t b]]) simp
  moreover have "\<not> sleeps on_cond_empty (?g u)" for u
    using c by (cases "q_threads ?q u") (auto simp: calm_def dest: spec [of _ u])
  then have "signal_one on_cond_empty ((q_threads ?q1)(t := Leaving (Code 0))) ?g" by (simp add: signal_one_def)
  then have "queue_step ?q1 (?q1\<lparr>the_queue := q', q_threads := ?g, produced := produced ?q1 @ [Some (item_value t i)]\<rparr>)"
    by (intro q_enqueue [of _ t]) (use z q q' in simp_all)
  ultimately have "reachable bench_init (bench_step np nc n)
      (?s1\<lparr>bench_queue := ?q1\<lparr>the_queue := q', q_threads := ?g, produced := produced ?q1 @ [Some (item_value t i)]\<rparr>\<rparr>)"
    using run c by (intro run_inside [where s = ?s1]) (simp_all add: bench_running_def)
  from run_unlock [OF this, of t] have "reachable bench_init (bench_step np nc n)
      (?s1\<lparr>bench_queue := ?q\<lparr>the_queue := q', produced := produced ?q @ [Some (item_value t i)],
        q_threads := (q_threads ?q)(t := Returned (Code 0)), q_owner := None\<rparr>\<rparr>)" (is "reachable _ _ ?s2")
    using run by (simp add: bench_running_def)
  moreover have "bench_step np nc n ?s2 (?s2\<lparr>bench_pcs := (bench_pcs ?s2)(t := Producing (Suc i)),
      items_produced := (items_produced ?s2)(t := items_produced ?s2 t + (if (0 :: int) = 0 then 1 else 0))\<rparr>)"
    by (rule b_enqueued) (use run in \<open>simp_all add: bench_running_def\<close>)
  ultimately have "reachable bench_init (bench_step np nc n) (?s2\<lparr>bench_pcs := (bench_pcs ?s2)(t := Producing (Suc i)),
      items_produced := (items_produced ?s2)(t := items_produced ?s2 t + (if (0 :: int) = 0 then 1 else 0))\<rparr>)" by (rule reach_step)
  with c q'(2) show ?thesis by - (rule exI, rule conjI, assumption, auto simp: calm_def bench_running_def)
qed

lemma run_enqueues:
  assumes "k \<le> n" "int k \<le> 100" "reachable bench_init (bench_step np nc n) s" "calm s" "bench_pcs s t = Producing 0"
    and "q_size (the_queue (bench_queue s)) = 0" "items_produced s t = 0"
  shows "\<exists>s'. reachable bench_init (bench_step np nc n) s' \<and> calm s' \<and> bench_main s' = bench_main s \<and>
    q_size (the_queue (bench_queue s')) = int k \<and> bench_pcs s' = (bench_pcs s)(t := Producing k) \<and>
    items_produced s' = (items_produced s)(t := k)"
  using assms(1,2)
proof (induction k)
  case 0
  then show ?case using assms(3-7) by (intro exI [of _ s]) auto
next
  case (Suc k)
  have k: "k \<le> n" "int k \<le> 100" "k < n" "int k < 100" using Suc.prems by simp_all
  from Suc.IH [OF k(1,2)] obtain s' where s': "reachable bench_init (bench_step np nc n) s'" "calm s'" "bench_main s' = bench_main s"
    "q_size (the_queue (bench_queue s')) = int k" "bench_pcs s' = (bench_pcs s)(t := Producing k)"
    "items_produced s' = (items_produced s)(t := k)" by blast
  have "bench_pcs s' t = Producing k" "q_size (the_queue (bench_queue s')) < 100" using s'(4,5) k(4) by simp_all
  from run_enqueue [OF s'(1,2) this(1) k(3) this(2)] show ?case unfolding s'(3,4,5,6)
    by (simp only: fun_upd_upd fun_upd_same of_nat_Suc add.commute)
qed

text \<open>The beginning: \<open>main\<close> creates all threads.\<close>

definition new_bench :: bench where
  "new_bench = \<lparr>bench_queue = \<lparr>the_queue = \<lparr>q_items = replicate 100 None, q_capacity = 100, q_size = 0, q_front = 0\<rparr>,
       q_owner = None, q_threads = (\<lambda>_. Idle), produced = [], consumed = [], q_fault = None\<rparr>,
     bench_pcs = (\<lambda>_. Not_Started), items_produced = (\<lambda>_. 0), items_consumed = (\<lambda>_. 0), bench_main = Starting\<rparr>"

lemma new_bench_init: "bench_init new_bench"
proof -
  let ?env = "\<lparr>malloc_queue = True, malloc_items = True, init_mutex = True, init_cond_full = True, init_cond_empty = True\<rparr>"
  have "snd (queue_create ?env 100) = Some (the_queue (bench_queue new_bench))"
    by (simp add: queue_create_def new_bench_def Let_def)
  then show ?thesis unfolding bench_init_def queue_sys_init_def by (auto simp: new_bench_def)
qed

lemma run_create:
  "i \<le> np + nc \<Longrightarrow> reachable bench_init (bench_step np nc n) (new_bench\<lparr>bench_main := Creating i,
     bench_pcs := (\<lambda>t. if t < i then if t < np then Producing 0 else Polling 0 else Not_Started)\<rparr>)"
proof (induction i)
  case 0
  have r: "reachable bench_init (bench_step np nc n) new_bench" by (rule reach_init) (rule new_bench_init)
  show ?case by (rule reach_via [OF r b_allocate]) (simp_all add: new_bench_def)
next
  case (Suc i)
  let ?s = "new_bench\<lparr>bench_main := Creating i, bench_pcs := (\<lambda>t. if t < i then if t < np then Producing 0 else Polling 0 else Not_Started)\<rparr>"
  have r: "reachable bench_init (bench_step np nc n) ?s" using Suc by simp
  show ?case
  proof (cases "i < np")
    case True
    show ?thesis by (rule reach_via [OF r b_create_producer [of _ i]]) (use True in \<open>auto simp: new_bench_def fun_eq_iff\<close>)
  next
    case False
    show ?thesis by (rule reach_via [OF r b_create_consumer [of _ i]]) (use False Suc.prems in \<open>auto simp: new_bench_def fun_eq_iff\<close>)
  qed
qed

definition all_created :: "nat \<Rightarrow> nat \<Rightarrow> bench" where
  "all_created np nc = new_bench\<lparr>bench_main := Joining 0 0 0,
     bench_pcs := (\<lambda>t. if t < np + nc then if t < np then Producing 0 else Polling 0 else Not_Started)\<rparr>"

lemma run_created:
  "reachable bench_init (bench_step np nc n) (all_created np nc)" "calm (all_created np nc)"
  "q_size (the_queue (bench_queue (all_created np nc))) = 0" "items_produced (all_created np nc) t = 0"
proof -
  show "reachable bench_init (bench_step np nc n) (all_created np nc)"
    by (rule reach_via [OF run_create [of "np + nc", OF order.refl] b_created]) (simp_all add: all_created_def new_bench_def)
qed (simp_all add: all_created_def new_bench_def calm_def bench_running_def)

text \<open>All consumers have ended, and the queue is full: no producer makes another item.\<close>

definition stuck :: "nat \<Rightarrow> nat \<Rightarrow> nat \<Rightarrow> nat \<Rightarrow> nat \<Rightarrow> bench \<Rightarrow> bool" where
  "stuck np nc n t k s \<longleftrightarrow> bench_inv np nc n s \<and> bench_main s \<noteq> Starting \<and> (\<forall>i. bench_main s \<noteq> Creating i) \<and>
     (\<forall>u. np \<le> u \<and> u < np + nc \<longrightarrow> bench_pcs s u = Ended) \<and> q_size (the_queue (bench_queue s)) = 100 \<and>
     bench_pcs s t \<noteq> Not_Started \<and> items_produced s t = k \<and> made s t = k"

lemma stuck_inside:
  assumes s: "stuck np nc n t k s" and st: "queue_step (bench_queue s) q"
    and c: "\<forall>u c. q_threads q u = Calling c \<longrightarrow> q_threads (bench_queue s) u = Calling c"
  shows "stuck np nc n t k (s\<lparr>bench_queue := q\<rparr>)"
proof -
  have inv: "bench_inv np nc n s" and s': "\<forall>u. np \<le> u \<and> u < np + nc \<longrightarrow> bench_pcs s u = Ended" "q_size (the_queue (bench_queue s)) = 100" "made s t = k"
    using s by (simp_all add: stuck_def)
  have inv': "bench_inv np nc n (s\<lparr>bench_queue := q\<rparr>)" using bench_inv_inside [OF inv st c] .
  have "made (s\<lparr>bench_queue := q\<rparr>) t = k \<and> the_queue q = the_queue (bench_queue s)"
    using st c
  proof (cases rule: queue_step_inside)
    case fault
    then show ?thesis using s'(3) by (auto simp: made_def split: bench_pc.splits)
  next
    case (move u y)
    then have "\<forall>i. bench_pcs s u = Enqueuing i \<longrightarrow> result_is (Code 0) y = result_is (Code 0) (q_threads (bench_queue s) u)"
      using bench_move_ok [OF bench_invD(2) [OF inv] move(2)] by blast
    then show ?thesis using move s'(3) by (auto simp: made_def split: bench_pc.splits)
  next
    case (put u x)
    then show ?thesis using s'(2) bench_invD(1) [OF inv] by (simp add: queue_sys_inv_def)
  next
    case (get u c x)
    have "bench_thread_ok np nc n u (bench_pcs s u) (Inside c)" using bench_invD(2) [OF inv, of u] get(1) by simp
    then show ?thesis by (cases rule: bench_in_call [where c = c]) (use get(2) s'(1) in \<open>auto simp: in_call_def\<close>)
  qed
  then show ?thesis using s inv' by (simp add: stuck_def)
qed

lemma stuck_step:
  assumes "bench_step np nc n s s'" "stuck np nc n t k s"
  shows "stuck np nc n t k s'"
proof -
  have inv: "bench_inv np nc n s" using assms(2) by (simp add: stuck_def)
  have inv': "bench_inv np nc n s'" by (rule bench_inv_step [OF assms(1) inv])
  have consumer: "bench_pcs s u \<noteq> Polling e" "bench_pcs s u \<noteq> Trying e" for u e
    using bench_invD(2) [OF inv, of u] assms(2) by (auto simp: bench_thread_ok_def stuck_def)
  from assms(1) show ?thesis
  proof (cases rule: bench_step.cases)
    case (b_inside q)
    then show ?thesis using stuck_inside [OF assms(2)] by simp
  qed (use assms(2) inv' consumer in \<open>auto simp: stuck_def made_def start_call_def bench_thread_ok_def split: bench_pc.splits if_splits\<close>)
qed

lemma run_sleep:
  assumes r: "reachable bench_init (bench_step np nc n) s" and c: "calm s"
    and t: "bench_pcs s t = Producing i" "i < n" and z: "q_size (the_queue (bench_queue s)) = 100"
  shows "\<exists>s'. reachable bench_init (bench_step np nc n) s' \<and> bench_main s' = bench_main s \<and>
    the_queue (bench_queue s') = the_queue (bench_queue s) \<and> bench_pcs s' = (bench_pcs s)(t := Enqueuing i) \<and>
    q_threads (bench_queue s') t = Sleeping (Enqueue (Some (item_value t i))) \<and> items_produced s' = items_produced s"
proof -
  let ?q = "bench_queue s" and ?c = "Enqueue (Some (item_value t i))"
  have run: "bench_running s" and b: "between_calls (q_threads ?q t)" using c by (simp_all add: calm_def)
  let ?q1 = "?q\<lparr>q_threads := (q_threads ?q)(t := Inside ?c), q_owner := Some t\<rparr>"
  let ?s1 = "s\<lparr>bench_pcs := (bench_pcs s)(t := Enqueuing i), bench_queue := ?q1\<rparr>"
  have "reachable bench_init (bench_step np nc n) ?s1"
    by (rule run_call [OF r c b_enqueue [OF run t b]]) simp
  moreover have "q_capacity (the_queue ?q) = 100" using bench_queue_inv [OF r] by (simp add: queue_sys_inv_def)
  then have "queue_step ?q1 (?q1\<lparr>q_threads := (q_threads ?q1)(t := Sleeping ?c), q_owner := None\<rparr>)"
    by (intro q_wait) (use z in simp_all)
  ultimately have "reachable bench_init (bench_step np nc n) (?s1\<lparr>bench_queue := ?q1\<lparr>q_threads := (q_threads ?q1)(t := Sleeping ?c), q_owner := None\<rparr>\<rparr>)"
    using run by (intro run_inside [where s = ?s1]) (simp_all add: bench_running_def)
  then show ?thesis by - (rule exI, rule conjI, assumption, simp)
qed

lemma stuck_forever: "(bench_step np nc n)\<^sup>*\<^sup>* s s' \<Longrightarrow> stuck np nc n t k s \<Longrightarrow> stuck np nc n t k s'"
  by (induction rule: rtranclp_induct) (auto intro: stuck_step)

section \<open>Properties\<close>

text \<open>
  C35: The totals that the benchmark reports are consistent, for every interleaving and whatever fails:
  the items that were produced are the items that were consumed and those that are left in the
  queue, whose number is reported as well; they are never freed.
\<close>

theorem bench_totals:
  assumes "reachable bench_init (bench_step np nc n) s" "bench_main s = Reported tp tc z"
  shows "int tp = int tc + z \<and> 0 \<le> z \<and> z \<le> 100"
proof -
  have inv: "bench_inv np nc n s" using bench.reachable_inv [OF assms(1)] .
  have m: "\<forall>t<np + nc. bench_pcs s t = Ended" "tp = (\<Sum>t<np. items_produced s t)"
      "tc = (\<Sum>t\<in>{np..<np + nc}. items_consumed s t)" "z = q_size (the_queue (bench_queue s))"
    using bench_invD(3) [OF inv] assms(2) by simp_all
  have "made s t = items_produced s t" "got s t = items_consumed s t" if "t < np + nc" for t
    using m(1) that by (simp_all add: made_def got_def)
  then have "length (produced (bench_queue s)) = tp" "length (consumed (bench_queue s)) = tc"
    using inv unfolding bench_inv_def m(2,3) by (auto intro!: sum.cong)
  moreover have "produced (bench_queue s) = consumed (bench_queue s) @ queue_contents (the_queue (bench_queue s))"
      "queue_inv (the_queue (bench_queue s))" "q_capacity (the_queue (bench_queue s)) = 100"
    using bench_invD(1) [OF inv] unfolding queue_sys_inv_def by blast+
  ultimately show ?thesis unfolding m(4) by (auto simp: queue_inv_def)
qed

text \<open>One producer, no consumer, two items: they are left in the queue.\<close>

theorem bench_totals_witness:
  "\<exists>s. reachable bench_init (bench_step 1 0 2) s \<and> bench_main s = Reported 2 0 2 \<and> int 2 = int 0 + 2"
proof -
  have "bench_pcs (all_created 1 0) 0 = Producing 0" by (simp add: all_created_def)
  from run_enqueues [OF _ _ run_created(1,2) this run_created(3,4), of 2 2]
  obtain s where s: "reachable bench_init (bench_step 1 0 2) s" "calm s" "bench_main s = Joining 0 0 0"
    "q_size (the_queue (bench_queue s)) = 2" "bench_pcs s = (bench_pcs (all_created 1 0))(0 := Producing 2)"
    "items_produced s = (items_produced (all_created 1 0))(0 := 2)"
    by (auto simp: all_created_def)
  let ?s1 = "s\<lparr>bench_pcs := (bench_pcs s)(0 := Ended)\<rparr>"
  have "reachable bench_init (bench_step 1 0 2) ?s1"
    by (rule reach_step [OF s(1) b_producer_ends [of _ 0 2]]) (use s in \<open>simp_all add: calm_def\<close>)
  then have "reachable bench_init (bench_step 1 0 2) (?s1\<lparr>bench_main := Joining (Suc 0) (0 + items_produced ?s1 0) 0\<rparr>)"
    by (rule reach_step, intro b_join_producer) (use s(3) in simp_all)
  then have r: "reachable bench_init (bench_step 1 0 2) (?s1\<lparr>bench_main := Joining (1 + 0) 2 0\<rparr>)" (is "reachable _ _ ?s2")
    using s(6) by (simp add: numeral_2_eq_2)
  have "reachable bench_init (bench_step 1 0 2) (?s2\<lparr>bench_main := Reported 2 0 (q_size (the_queue (bench_queue ?s2)))\<rparr>)"
    (is "reachable _ _ ?s3") by (rule reach_step [OF r b_report]) (use s(2) in \<open>simp_all add: calm_def\<close>)
  moreover have m: "bench_main ?s3 = Reported 2 0 2" using s(4) by simp
  ultimately show ?thesis using bench_totals [of 1 0 2 ?s3 2 0 2] by auto
qed



text \<open>
  The benchmark can hang: a consumer gives up after 1000 empty iterations, and if all of them do
  so before the first item is there, a producer fills the queue and goes to sleep in
  \<open>queue_enqueue\<close>. \<open>main\<close> waits for it, and whatever happens from then on, the producer has made
  100 items.
\<close>

theorem bench_can_hang:
  assumes "0 < np" "100 < n"
  shows "\<exists>s. reachable bench_init (bench_step np nc n) s \<and> bench_main s = Joining 0 0 0 \<and>
    (\<forall>t. np \<le> t \<and> t < np + nc \<longrightarrow> bench_pcs s t = Ended) \<and>
    q_threads (bench_queue s) 0 = Sleeping (Enqueue (Some (item_value 0 100))) \<and>
    (\<forall>s'. (bench_step np nc n)\<^sup>*\<^sup>* s s' \<longrightarrow> items_produced s' 0 = 100)"
proof -
  let ?s0 = "all_created np nc"
  have "\<forall>t\<in>{np..<np + nc}. bench_pcs ?s0 t = Polling 0" by (simp add: all_created_def)
  from run_consumers [OF order.refl run_created(1-3) this, of n]
  obtain s1 where s1: "reachable bench_init (bench_step np nc n) s1" "undisturbed ?s0 s1"
    "bench_pcs s1 = (\<lambda>t. if np \<le> t \<and> t < np + nc then Ended else bench_pcs ?s0 t)" by blast
  have "bench_pcs s1 0 = Producing 0" "calm s1" "q_size (the_queue (bench_queue s1)) = 0" "items_produced s1 0 = 0" "bench_main s1 = Joining 0 0 0"
    using s1(2,3) assms(1) run_created(3,4) by (auto simp: undisturbed_def) (simp_all add: all_created_def)
  with run_enqueues [of 100 n np nc s1 0] s1(1) assms(2)
  obtain s2 where s2: "reachable bench_init (bench_step np nc n) s2" "calm s2" "bench_main s2 = Joining 0 0 0"
    "q_size (the_queue (bench_queue s2)) = 100" "bench_pcs s2 = (bench_pcs s1)(0 := Producing 100)"
    "items_produced s2 = (items_produced s1)(0 := 100)" by auto
  have "bench_pcs s2 0 = Producing 100" using s2(5) by simp
  from run_sleep [OF s2(1,2) this assms(2) s2(4)]
  obtain s where s: "reachable bench_init (bench_step np nc n) s" "bench_main s = bench_main s2"
    "the_queue (bench_queue s) = the_queue (bench_queue s2)" "bench_pcs s = (bench_pcs s2)(0 := Enqueuing 100)"
    "q_threads (bench_queue s) 0 = Sleeping (Enqueue (Some (item_value 0 100)))" "items_produced s = items_produced s2" by blast
  have e: "\<forall>t. np \<le> t \<and> t < np + nc \<longrightarrow> bench_pcs s t = Ended" using s(4) s2(5) s1(3) assms(1) by simp
  have "stuck np nc n 0 100 s" unfolding stuck_def
    using bench.reachable_inv [OF s(1)] s s2(3,4,6) e by (simp add: made_def result_is_def)
  then have "items_produced s' 0 = 100" if "(bench_step np nc n)\<^sup>*\<^sup>* s s'" for s'
    using stuck_forever [OF that] by (auto simp: stuck_def)
  then show ?thesis using s(1,2,5) s2(3) e by auto
qed

theorem bench_can_hang_witness:
  "\<exists>s. reachable bench_init (bench_step 1 2 100000) s \<and> bench_main s = Joining 0 0 0 \<and>
    (\<forall>t. 1 \<le> t \<and> t < 1 + 2 \<longrightarrow> bench_pcs s t = Ended) \<and>
    q_threads (bench_queue s) 0 = Sleeping (Enqueue (Some (item_value 0 100))) \<and>
    (\<forall>s'. (bench_step 1 2 100000)\<^sup>*\<^sup>* s s' \<longrightarrow> items_produced s' 0 = 100)"
  by (rule bench_can_hang) simp_all

end
