(* ===== verification/Thread_Pool.thy ===== *)
theory Thread_Pool
  imports Fifo Monitor "HOL-Library.Multiset"
begin

text \<open>
  The thread pool of \<open>03_threads/thread_pool\<close> (\<open>thread_pool.h\<close>, \<open>thread_pool.c\<close>): the pool with its
  circular work queue, its constructor with the resources it acquires, and the workers together with
  any number of clients (submitting, waiting, destroying the pool) as a step relation. One condition
  variable, \<open>cond_work\<close>, is shared by idle workers and by submitters that wait for room.
\<close>

section \<open>Data\<close>

record ('f, 'a) task_t =
  func :: "'f option"
  arg :: 'a

record ('f, 'a) thread_pool =
  num_threads :: int
  pool_queue :: "('f, 'a) task_t option list"
  queue_capacity :: int
  queue_size :: int
  queue_front :: int
  shutdown :: bool

definition QUEUE_CAPACITY_MULTIPLIER :: int where
  "QUEUE_CAPACITY_MULTIPLIER = 10"

section \<open>Creation\<close>

datatype pool_resource =
    Pool_Struct | Pool_Queue | Pool_Threads | Pool_Mutex | Pool_Cond_Work | Pool_Cond_Empty
  | Worker nat

record pool_env =
  malloc_pool :: bool
  malloc_queue :: bool
  malloc_threads :: bool
  init_mutex :: bool
  init_cond_work :: bool
  init_cond_empty :: bool
  create_thread :: "nat \<Rightarrow> bool"

text \<open>What the constructor has acquired once all objects are initialised, and its release.\<close>

definition pool_acquired :: "pool_resource resource_event list" where
  "pool_acquired = [Acquire Pool_Struct, Acquire Pool_Queue, Acquire Pool_Threads, Acquire Pool_Mutex,
     Acquire Pool_Cond_Work, Acquire Pool_Cond_Empty]"

definition pool_released :: "pool_resource resource_event list" where
  "pool_released = [Release Pool_Cond_Empty, Release Pool_Cond_Work, Release Pool_Mutex,
     Release Pool_Threads, Release Pool_Queue, Release Pool_Struct]"

text \<open>
  The loop that starts the workers, from worker \<open>i\<close> on with \<open>k\<close> workers to go: when a thread cannot be
  created, the workers started before are joined (they leave because \<open>shutdown\<close> is set) and all is
  released.
\<close>

fun start_workers :: "(nat \<Rightarrow> bool) \<Rightarrow> nat \<Rightarrow> nat \<Rightarrow> pool_resource resource_event list \<times> bool" where
  "start_workers created i 0 = ([], True)"
| "start_workers created i (Suc k) =
     (if created i
      then (case start_workers created (Suc i) k of (es, ok) \<Rightarrow> (Acquire (Worker i) # es, ok))
      else (map (\<lambda>j. Release (Worker j)) [0..<i] @ pool_released, False))"

definition thread_pool_create ::
  "pool_env \<Rightarrow> int \<Rightarrow> (pool_resource resource_event list \<times> ('f, 'a) thread_pool option) c_result" where
  "thread_pool_create env n =
     (if n \<le> 0 then Inr ([], None)
      else if \<not> malloc_pool env then Inr ([], None)
      else bind_r (c_int (n * QUEUE_CAPACITY_MULTIPLIER)) (\<lambda>cap.
        let pool = \<lparr>num_threads = n, pool_queue = replicate (nat cap) None, queue_capacity = cap,
                    queue_size = 0, queue_front = 0, shutdown = False\<rparr> in
        if \<not> malloc_queue env
        then Inr ([Acquire Pool_Struct, Release Pool_Struct], None)
        else if \<not> malloc_threads env
        then Inr ([Acquire Pool_Struct, Acquire Pool_Queue, Release Pool_Queue, Release Pool_Struct], None)
        else if \<not> init_mutex env
        then Inr ([Acquire Pool_Struct, Acquire Pool_Queue, Acquire Pool_Threads,
                   Release Pool_Threads, Release Pool_Queue, Release Pool_Struct], None)
        else if \<not> init_cond_work env
        then Inr ([Acquire Pool_Struct, Acquire Pool_Queue, Acquire Pool_Threads, Acquire Pool_Mutex,
                   Release Pool_Mutex, Release Pool_Threads, Release Pool_Queue, Release Pool_Struct],
                  None)
        else if \<not> init_cond_empty env
        then Inr ([Acquire Pool_Struct, Acquire Pool_Queue, Acquire Pool_Threads, Acquire Pool_Mutex,
                   Acquire Pool_Cond_Work, Release Pool_Cond_Work, Release Pool_Mutex,
                   Release Pool_Threads, Release Pool_Queue, Release Pool_Struct], None)
        else (case start_workers (create_thread env) 0 (nat n) of (es, ok) \<Rightarrow>
          Inr (pool_acquired @ es, if ok then Some pool else None))))"

text \<open>The last part of \<open>thread_pool_destroy\<close>: join every worker, then release the objects.\<close>

definition pool_teardown :: "('f, 'a) thread_pool option \<Rightarrow> pool_resource resource_event list" where
  "pool_teardown p =
     (case p of None \<Rightarrow> []
      | Some pool \<Rightarrow> map (\<lambda>i. Release (Worker i)) [0..<nat (num_threads pool)] @ pool_released)"

section \<open>Critical sections\<close>

text \<open>Appending a task in \<open>thread_pool_submit\<close>.\<close>

definition submit_body ::
  "('f, 'a) thread_pool \<Rightarrow> ('f, 'a) task_t option \<Rightarrow> ('f, 'a) thread_pool c_result" where
  "submit_body pool task =
     bind_r (c_int (queue_front pool + queue_size pool)) (\<lambda>sum.
     bind_r (c_rem sum (queue_capacity pool)) (\<lambda>queue_rear.
       if 0 \<le> queue_rear \<and> nat queue_rear < length (pool_queue pool)
       then bind_r (c_int (queue_size pool + 1)) (\<lambda>n.
              Inr (pool\<lparr>pool_queue := (pool_queue pool)[nat queue_rear := task], queue_size := n\<rparr>))
       else Inl Out_Of_Bounds))"

text \<open>Taking a task in \<open>worker_thread\<close>.\<close>

definition take_body ::
  "('f, 'a) thread_pool \<Rightarrow> (('f, 'a) task_t option \<times> ('f, 'a) thread_pool) c_result" where
  "take_body pool =
     (if 0 \<le> queue_front pool \<and> nat (queue_front pool) < length (pool_queue pool)
      then let task = pool_queue pool ! nat (queue_front pool) in
        bind_r (c_int (queue_front pool + 1)) (\<lambda>sum.
        bind_r (c_rem sum (queue_capacity pool)) (\<lambda>front.
          bind_r (c_int (queue_size pool - 1)) (\<lambda>n.
            Inr (task, pool\<lparr>queue_front := front, queue_size := n\<rparr>))))
      else Inl Out_Of_Bounds)"

definition pool_inv :: "('f, 'a) thread_pool \<Rightarrow> bool" where
  "pool_inv p \<longleftrightarrow>
     0 < num_threads p \<and> queue_capacity p = num_threads p * QUEUE_CAPACITY_MULTIPLIER \<and>
     queue_capacity p \<le> 1073741824 \<and> length (pool_queue p) = nat (queue_capacity p) \<and>
     0 \<le> queue_front p \<and> queue_front p < queue_capacity p \<and>
     0 \<le> queue_size p \<and> queue_size p \<le> queue_capacity p"

definition pool_contents :: "('f, 'a) thread_pool \<Rightarrow> ('f, 'a) task_t option list" where
  "pool_contents p = ring_view (pool_queue p) (nat (queue_front p)) (nat (queue_size p))"

lemma length_pool_contents [simp]: "length (pool_contents p) = nat (queue_size p)"
  by (simp add: pool_contents_def)

lemma submit_body_ok:
  assumes inv: "pool_inv p" and room: "queue_size p < queue_capacity p"
  shows "\<exists>p'. submit_body p x = Inr p' \<and> pool_inv p' \<and> num_threads p' = num_threads p \<and>
           queue_capacity p' = queue_capacity p \<and> shutdown p' = shutdown p \<and>
           queue_size p' = queue_size p + 1 \<and> pool_contents p' = pool_contents p @ [x]"
proof -
  let ?r = "(queue_front p + queue_size p) mod queue_capacity p"
  let ?p = "p\<lparr>pool_queue := (pool_queue p)[nat ?r := x], queue_size := queue_size p + 1\<rparr>"
  have b: "0 \<le> queue_front p" "queue_front p < queue_capacity p" "0 \<le> queue_size p"
      "queue_capacity p \<le> 1073741824" "length (pool_queue p) = nat (queue_capacity p)"
    using inv by (simp_all add: pool_inv_def)
  then have "submit_body p x = Inr ?p"
    using room by (simp add: submit_body_def c_rem_nonneg INT_MIN_def INT_MAX_def)
  moreover have "pool_contents ?p = pool_contents p @ [x]"
    using b room by (simp add: pool_contents_def ring_put_int)
  ultimately show ?thesis using inv room by (auto simp: pool_inv_def)
qed

lemma take_body_ok:
  assumes inv: "pool_inv p" and some: "0 < queue_size p"
  shows "\<exists>x p'. take_body p = Inr (x, p') \<and> pool_inv p' \<and> num_threads p' = num_threads p \<and>
           queue_capacity p' = queue_capacity p \<and> shutdown p' = shutdown p \<and>
           queue_size p' = queue_size p - 1 \<and> pool_contents p = x # pool_contents p'"
proof -
  let ?p = "p\<lparr>queue_front := (queue_front p + 1) mod queue_capacity p, queue_size := queue_size p - 1\<rparr>"
  have b: "0 \<le> queue_front p" "queue_front p < queue_capacity p" "queue_size p \<le> queue_capacity p"
      "queue_capacity p \<le> 1073741824" "length (pool_queue p) = nat (queue_capacity p)"
    using inv by (simp_all add: pool_inv_def)
  then have "take_body p = Inr (pool_queue p ! nat (queue_front p), ?p)"
    using some by (simp add: take_body_def c_rem_nonneg INT_MIN_def INT_MAX_def nat_less_iff)
  moreover have "pool_contents p = pool_queue p ! nat (queue_front p) # pool_contents ?p"
    using b some by (simp add: pool_contents_def ring_take_int)
  moreover have "pool_inv ?p" using inv some by (auto simp: pool_inv_def)
  ultimately show ?thesis by auto
qed

interpretation pool: bounded_fifo submit_body take_body pool_contents
    "\<lambda>p. nat (queue_capacity p)" pool_inv
proof unfold_locales
  fix p x
  assume "pool_inv p" "length (pool_contents p) < nat (queue_capacity p)"
  then show "\<exists>p'. submit_body p x = Inr p' \<and> pool_inv p' \<and>
      nat (queue_capacity p') = nat (queue_capacity p) \<and> pool_contents p' = pool_contents p @ [x]"
    using submit_body_ok [of p x] by auto
next
  fix p x xs
  assume inv: "pool_inv p" and c: "pool_contents p = x # xs"
  have "0 < queue_size p" using c length_pool_contents [of p] by (cases "queue_size p \<le> 0") auto
  then show "\<exists>p'. take_body p = Inr (x, p') \<and> pool_inv p' \<and>
      nat (queue_capacity p') = nat (queue_capacity p) \<and> pool_contents p' = xs"
    using take_body_ok [OF inv] c by auto
next
  fix p
  assume "pool_inv p"
  then show "length (pool_contents p) \<le> nat (queue_capacity p)"
    by (auto simp: pool_inv_def)
qed

section \<open>Workers and clients\<close>

text \<open>
  The threads below \<open>num_threads\<close> are the workers; the others are clients. \<open>Drain\<close> and \<open>Shut_Down\<close>
  are the two locked parts of \<open>thread_pool_destroy\<close>: its call of \<open>thread_pool_wait_all\<close> and the
  setting of the flag. A worker that has left the lock with \<open>Run k\<close> executes the task \<open>k\<close>.
\<close>

datatype ('f, 'a) pool_call =
    Work
  | Submit "('f, 'a) task_t"
  | Wait_All
  | Drain
  | Shut_Down

datatype ('f, 'a) pool_ret =
    Run "('f, 'a) task_t option"
  | Exit
  | Submitted int
  | Empty_Seen
  | Drained
  | Flagged
  | Joined

fun is_work :: "('f, 'a) pool_call \<Rightarrow> bool" where
  "is_work Work = True"
| "is_work _ = False"

fun is_submit :: "('f, 'a) pool_call \<Rightarrow> bool" where
  "is_submit (Submit k) = True"
| "is_submit _ = False"

fun on_cond_work :: "('f, 'a) pool_call \<Rightarrow> bool" where
  "on_cond_work Work = True"
| "on_cond_work (Submit k) = True"
| "on_cond_work _ = False"

fun on_cond_empty :: "('f, 'a) pool_call \<Rightarrow> bool" where
  "on_cond_empty Wait_All = True"
| "on_cond_empty Drain = True"
| "on_cond_empty _ = False"

text \<open>When an operation goes to sleep. A submitter tests \<open>shutdown\<close> each time before it tests for room.\<close>

fun pool_must_wait :: "('f, 'a) thread_pool \<Rightarrow> ('f, 'a) pool_call \<Rightarrow> bool" where
  "pool_must_wait p Work = (queue_size p = 0 \<and> \<not> shutdown p)"
| "pool_must_wait p (Submit k) = (\<not> shutdown p \<and> queue_size p \<ge> queue_capacity p)"
| "pool_must_wait p Wait_All = (queue_size p > 0 \<and> \<not> shutdown p)"
| "pool_must_wait p Drain = (queue_size p > 0 \<and> \<not> shutdown p)"
| "pool_must_wait p Shut_Down = False"

type_synonym ('f, 'a) pool_threads = "(('f, 'a) pool_call, ('f, 'a) pool_ret) threads"

record ('f, 'a) pool_sys =
  the_pool :: "('f, 'a) thread_pool"
  p_owner :: "nat option"
  p_threads :: "('f, 'a) pool_threads"
  destroying :: bool
  submitted :: "('f, 'a) task_t option list"
  started :: "('f, 'a) task_t option list"
  finished :: "('f, 'a) task_t option list"
  p_fault :: "c_error option"

text \<open>The signals that \<open>worker_thread\<close> sends after it has taken a task out of the queue.\<close>

definition take_signals ::
  "('f, 'a) thread_pool \<Rightarrow> ('f, 'a) pool_threads \<Rightarrow> ('f, 'a) pool_threads \<Rightarrow> bool" where
  "take_signals p f g \<longleftrightarrow>
     (let f' = (if queue_size p = queue_capacity p - 1 then broadcast on_cond_work f else f)
      in if queue_size p = 0 then signal_one on_cond_empty f' g else g = f')"

definition client_may_call :: "(('f, 'a) pool_call, ('f, 'a) pool_ret) pc \<Rightarrow> bool" where
  "client_may_call x \<longleftrightarrow> x = Idle \<or> (\<exists>i. x = Returned (Submitted i)) \<or> x = Returned Empty_Seen"

inductive pool_step :: "('f, 'a) pool_sys \<Rightarrow> ('f, 'a) pool_sys \<Rightarrow> bool" where
  p_call: "int t \<ge> num_threads (the_pool s) \<Longrightarrow> client_may_call (p_threads s t) \<Longrightarrow>
    c = Wait_All \<or> is_submit c \<Longrightarrow>
    pool_step s (s\<lparr>p_threads := (p_threads s)(t := Calling c)\<rparr>)"
| p_destroy: "int t \<ge> num_threads (the_pool s) \<Longrightarrow> client_may_call (p_threads s t) \<Longrightarrow>
    \<not> destroying s \<Longrightarrow>
    pool_step s (s\<lparr>p_threads := (p_threads s)(t := Calling Drain), destroying := True\<rparr>)"
| p_null_func: "p_threads s t = Calling (Submit k) \<Longrightarrow> func k = None \<Longrightarrow>
    pool_step s (s\<lparr>p_threads := (p_threads s)(t := Returned (Submitted (-1)))\<rparr>)"
| p_lock: "p_threads s t = Calling c \<Longrightarrow> (\<forall>k. c = Submit k \<longrightarrow> func k \<noteq> None) \<Longrightarrow> p_owner s = None \<Longrightarrow>
    pool_step s (s\<lparr>p_threads := (p_threads s)(t := Inside c), p_owner := Some t\<rparr>)"
| p_wait: "p_threads s t = Inside c \<Longrightarrow> pool_must_wait (the_pool s) c \<Longrightarrow>
    pool_step s (s\<lparr>p_threads := (p_threads s)(t := Sleeping c), p_owner := None\<rparr>)"
| p_wakeup: "p_threads s t = Sleeping c \<Longrightarrow>
    pool_step s (s\<lparr>p_threads := (p_threads s)(t := Woken c)\<rparr>)"
| p_relock: "p_threads s t = Woken c \<Longrightarrow> p_owner s = None \<Longrightarrow>
    pool_step s (s\<lparr>p_threads := (p_threads s)(t := Inside c), p_owner := Some t\<rparr>)"
| p_reject: "p_threads s t = Inside (Submit k) \<Longrightarrow> shutdown (the_pool s) \<Longrightarrow>
    pool_step s (s\<lparr>p_threads := (p_threads s)(t := Leaving (Submitted (-1)))\<rparr>)"
| p_submit: "p_threads s t = Inside (Submit k) \<Longrightarrow> \<not> shutdown (the_pool s) \<Longrightarrow>
    \<not> pool_must_wait (the_pool s) (Submit k) \<Longrightarrow> submit_body (the_pool s) (Some k) = Inr p' \<Longrightarrow>
    signal_one on_cond_work ((p_threads s)(t := Leaving (Submitted 0))) g \<Longrightarrow>
    pool_step s (s\<lparr>the_pool := p', p_threads := g, submitted := submitted s @ [Some k]\<rparr>)"
| p_exit: "p_threads s t = Inside Work \<Longrightarrow> queue_size (the_pool s) = 0 \<Longrightarrow> shutdown (the_pool s) \<Longrightarrow>
    pool_step s (s\<lparr>p_threads := (p_threads s)(t := Leaving Exit)\<rparr>)"
| p_take: "p_threads s t = Inside Work \<Longrightarrow> \<not> pool_must_wait (the_pool s) Work \<Longrightarrow>
    \<not> (queue_size (the_pool s) = 0 \<and> shutdown (the_pool s)) \<Longrightarrow>
    take_body (the_pool s) = Inr (task, p') \<Longrightarrow>
    take_signals p' ((p_threads s)(t := Leaving (Run task))) g \<Longrightarrow>
    pool_step s (s\<lparr>the_pool := p', p_threads := g, started := started s @ [task]\<rparr>)"
| p_run: "p_threads s t = Returned (Run task) \<Longrightarrow>
    pool_step s (s\<lparr>p_threads := (p_threads s)(t := Calling Work), finished := finished s @ [task]\<rparr>)"
| p_empty: "p_threads s t = Inside Wait_All \<Longrightarrow> \<not> pool_must_wait (the_pool s) Wait_All \<Longrightarrow>
    pool_step s (s\<lparr>p_threads := (p_threads s)(t := Leaving Empty_Seen)\<rparr>)"
| p_drained: "p_threads s t = Inside Drain \<Longrightarrow> \<not> pool_must_wait (the_pool s) Drain \<Longrightarrow>
    pool_step s (s\<lparr>p_threads := (p_threads s)(t := Leaving Drained)\<rparr>)"
| p_call_shut: "p_threads s t = Returned Drained \<Longrightarrow>
    pool_step s (s\<lparr>p_threads := (p_threads s)(t := Calling Shut_Down)\<rparr>)"
| p_shut: "p_threads s t = Inside Shut_Down \<Longrightarrow>
    pool_step s (s\<lparr>the_pool := (the_pool s)\<lparr>shutdown := True\<rparr>,
      p_threads := broadcast on_cond_work ((p_threads s)(t := Leaving Flagged))\<rparr>)"
| p_unlock: "p_threads s t = Leaving r \<Longrightarrow>
    pool_step s (s\<lparr>p_threads := (p_threads s)(t := Returned r), p_owner := None\<rparr>)"
| p_join: "p_threads s t = Returned Flagged \<Longrightarrow>
    (\<forall>u. int u < num_threads (the_pool s) \<longrightarrow> p_threads s u = Returned Exit) \<Longrightarrow>
    pool_step s (s\<lparr>p_threads := (p_threads s)(t := Returned Joined)\<rparr>)"
| p_undefined_submit: "p_threads s t = Inside (Submit k) \<Longrightarrow> \<not> shutdown (the_pool s) \<Longrightarrow>
    \<not> pool_must_wait (the_pool s) (Submit k) \<Longrightarrow> submit_body (the_pool s) (Some k) = Inl e \<Longrightarrow>
    pool_step s (s\<lparr>p_fault := Some e\<rparr>)"
| p_undefined_take: "p_threads s t = Inside Work \<Longrightarrow> \<not> pool_must_wait (the_pool s) Work \<Longrightarrow>
    \<not> (queue_size (the_pool s) = 0 \<and> shutdown (the_pool s)) \<Longrightarrow> take_body (the_pool s) = Inl e \<Longrightarrow>
    pool_step s (s\<lparr>p_fault := Some e\<rparr>)"

text \<open>The system starts with a pool that \<open>thread_pool_create\<close> returned and its workers started.\<close>

definition pool_sys_init :: "int \<Rightarrow> ('f, 'a) pool_sys \<Rightarrow> bool" where
  "pool_sys_init n s \<longleftrightarrow>
     n \<le> 107374182 \<and>
     (\<exists>env es. thread_pool_create env n = Inr (es, Some (the_pool s))) \<and>
     p_owner s = None \<and> p_threads s = (\<lambda>t. if int t < n then Calling Work else Idle) \<and>
     \<not> destroying s \<and> submitted s = [] \<and> started s = [] \<and> finished s = [] \<and> p_fault s = None"

section \<open>Invariants\<close>

text \<open>The queue and the histories.\<close>

definition pool_data_inv :: "int \<Rightarrow> ('f, 'a) pool_sys \<Rightarrow> bool" where
  "pool_data_inv n s \<longleftrightarrow> pool_inv (the_pool s) \<and> num_threads (the_pool s) = n \<and>
     submitted s = started s @ pool_contents (the_pool s) \<and> p_fault s = None"

lemma thread_pool_create_Some:
  assumes "thread_pool_create env n = Inr (es, Some p)"
  shows "0 < n \<and> p = \<lparr>num_threads = n, pool_queue = replicate (nat (n * 10)) None,
      queue_capacity = n * 10, queue_size = 0, queue_front = 0, shutdown = False\<rparr>"
  using assms
  by (auto simp: thread_pool_create_def Let_def QUEUE_CAPACITY_MULTIPLIER_def split: if_splits prod.splits)

lemma pool_data_inv_init: "pool_sys_init n s \<Longrightarrow> pool_data_inv n s"
  unfolding pool_sys_init_def
  by (elim conjE exE, drule thread_pool_create_Some)
    (simp add: pool_data_inv_def pool_inv_def pool_contents_def QUEUE_CAPACITY_MULTIPLIER_def)

lemma pool_data_inv_step: "pool_step s s' \<Longrightarrow> pool_data_inv n s \<Longrightarrow> pool_data_inv n s'"
proof (induction rule: pool_step.induct)
  case (p_submit s t k p' g)
  then show ?case using submit_body_ok [of "the_pool s" "Some k"] by (auto simp: pool_data_inv_def)
next
  case (p_take s t task p' g)
  then show ?case using take_body_ok [of "the_pool s"] by (auto simp: pool_data_inv_def pool_inv_def)
next
  case (p_undefined_submit s t k e)
  then show ?case using submit_body_ok [of "the_pool s" "Some k"] by (auto simp: pool_data_inv_def)
next
  case (p_undefined_take s t e)
  then show ?case using take_body_ok [of "the_pool s"] by (auto simp: pool_data_inv_def pool_inv_def)
qed (auto simp: pool_data_inv_def pool_inv_def pool_contents_def)

text \<open>The mutex.\<close>

definition pool_lock_inv :: "('f, 'a) pool_sys \<Rightarrow> bool" where
  "pool_lock_inv s \<longleftrightarrow> mutex_ok (p_owner s) (p_threads s) \<and> finitely_many (p_threads s)"

lemma wakes_take_signals: "take_signals p f g \<Longrightarrow> wakes f g"
  unfolding take_signals_def Let_def
  by (auto intro: wakes_trans [OF wakes_broadcast] wakes_broadcast wakes_signal split: if_splits)

lemma pool_lock_inv_init: "pool_sys_init n s \<Longrightarrow> pool_lock_inv s"
proof -
  assume "pool_sys_init n s"
  then have f: "p_threads s = (\<lambda>t. if int t < n then Calling Work else Idle)" "p_owner s = None"
    by (auto simp: pool_sys_init_def)
  have "{t. p_threads s t \<noteq> Idle} = {t. int t < n}" unfolding f by auto
  moreover have "finite {t. int t < n}"
    by (rule finite_subset [of _ "{..nat n}"]) auto
  ultimately show ?thesis using f by (simp add: pool_lock_inv_def mutex_ok_def finitely_many_def)
qed

lemma pool_lock_inv_step: "pool_step s s' \<Longrightarrow> pool_lock_inv s \<Longrightarrow> pool_lock_inv s'"
proof (induction rule: pool_step.induct)
  case (p_take s t task p' g)
  note w = wakes_take_signals [OF p_take(5)]
  from p_take show ?case
    by (simp add: pool_lock_inv_def mutex_ok_wakes [OF mutex_ok_keep w] finitely_many_wakes [OF _ w])
next
  case (p_submit s t k p' g)
  note w = wakes_signal [OF p_submit(5)]
  from p_submit show ?case
    by (simp add: pool_lock_inv_def mutex_ok_wakes [OF mutex_ok_keep w] finitely_many_wakes [OF _ w])
next
  case (p_shut s t)
  then show ?case by (simp add: pool_lock_inv_def mutex_ok_broadcast [OF mutex_ok_keep])
qed (auto simp: pool_lock_inv_def client_may_call_def
    intro: mutex_ok_acquire mutex_ok_release mutex_ok_keep)

text \<open>Workers do the work of workers, clients that of clients; a null function is never enqueued.\<close>

fun worker_pc :: "(('f, 'a) pool_call, ('f, 'a) pool_ret) pc \<Rightarrow> bool" where
  "worker_pc (Calling c) = (c = Work)"
| "worker_pc (Inside c) = (c = Work)"
| "worker_pc (Sleeping c) = (c = Work)"
| "worker_pc (Woken c) = (c = Work)"
| "worker_pc (Leaving r) = (r = Exit \<or> (\<exists>k. r = Run k))"
| "worker_pc (Returned r) = (r = Exit \<or> (\<exists>k. r = Run k))"
| "worker_pc Idle = False"

fun client_pc :: "(('f, 'a) pool_call, ('f, 'a) pool_ret) pc \<Rightarrow> bool" where
  "client_pc (Calling c) = (c \<noteq> Work)"
| "client_pc (Inside c) = (c \<noteq> Work)"
| "client_pc (Sleeping c) = (c \<noteq> Work)"
| "client_pc (Woken c) = (c \<noteq> Work)"
| "client_pc (Leaving r) = (r \<noteq> Exit \<and> r \<noteq> Joined \<and> (\<forall>k. r \<noteq> Run k))"
| "client_pc (Returned r) = (r \<noteq> Exit \<and> (\<forall>k. r \<noteq> Run k))"
| "client_pc Idle = True"

definition role :: "bool \<Rightarrow> (('f, 'a) pool_call, ('f, 'a) pool_ret) pc \<Rightarrow> bool" where
  "role worker x = (if worker then worker_pc x else client_pc x)"

definition roles :: "int \<Rightarrow> ('f, 'a) pool_threads \<Rightarrow> bool" where
  "roles n f \<longleftrightarrow> (\<forall>t. role (int t < n) (f t))"

lemma rolesD: "roles n f \<Longrightarrow> role (int t < n) (f t)"
  by (simp add: roles_def)

lemma roles_upd:
  "roles n f \<Longrightarrow> role (int t < n) (f t) \<longrightarrow> role (int t < n) x \<Longrightarrow> roles n (f(t := x))"
  by (simp add: roles_def)

lemma roles_wakes: "roles n f \<Longrightarrow> wakes f g \<Longrightarrow> roles n g"
  unfolding roles_def
proof
  fix t assume "\<forall>t. role (int t < n) (f t)" and w: "wakes f g"
  then have "role (int t < n) (f t)" by simp
  then show "role (int t < n) (g t)"
    by (cases rule: wakesE [OF w, of t]) (auto simp: role_def split: if_splits)
qed

lemma roles_init: "pool_sys_init n s \<Longrightarrow> roles n (p_threads s)"
  by (auto simp: pool_sys_init_def roles_def role_def)

lemma roles_step:
  "pool_step s s' \<Longrightarrow> pool_data_inv n s \<Longrightarrow> roles n (p_threads s) \<Longrightarrow> roles n (p_threads s')"
proof (induction rule: pool_step.induct)
  case (p_take s t task p' g)
  then show ?case
    using roles_wakes [OF roles_upd wakes_take_signals [OF p_take(5)], of n]
    by (simp add: role_def split: if_splits)
next
  case (p_submit s t k p' g)
  then show ?case
    using roles_wakes [OF roles_upd wakes_signal [OF p_submit(5)], of n]
    by (simp add: role_def split: if_splits)
next
  case (p_shut s t)
  then show ?case
    using roles_wakes [OF roles_upd wakes_broadcast, of n "p_threads s" t "Leaving Flagged"]
    by (auto simp: role_def split: if_splits)
next
  case (p_call t s c)
  then show ?case by (auto simp: roles_def role_def pool_data_inv_def)
next
  case (p_destroy t s)
  then show ?case by (auto simp: roles_def role_def pool_data_inv_def)
qed (auto intro!: roles_upd simp: role_def split: if_splits)

text \<open>
  Wake-ups on \<open>cond_work\<close>. While a worker sleeps, at least as many workers as there are tasks in the
  queue are on their way to it; a submitter sleeps only while the queue is full; after the shutdown
  nobody sleeps there.
\<close>

definition pool_wake_inv :: "('f, 'a) pool_sys \<Rightarrow> bool" where
  "pool_wake_inv s \<longleftrightarrow>
     covered (nat (queue_size (the_pool s))) is_work (p_threads s) \<and>
     (\<forall>t. sleeps is_submit (p_threads s t) \<longrightarrow> queue_size (the_pool s) = queue_capacity (the_pool s)) \<and>
     (shutdown (the_pool s) \<longrightarrow> (\<forall>t. \<not> sleeps on_cond_work (p_threads s t)))"

lemma sleeps_on_cond_work: "sleeps on_cond_work x \<longleftrightarrow> sleeps is_work x \<or> sleeps is_submit x"
proof (cases x)
  case (Sleeping c)
  then show ?thesis by (cases c) auto
qed auto

lemma pool_wake_inv_init: "pool_sys_init n s \<Longrightarrow> pool_wake_inv s"
  by (auto simp: pool_sys_init_def pool_wake_inv_def covered_def dest!: thread_pool_create_Some)

lemma pool_wake_inv_submit:
  assumes inv: "pool_wake_inv s" "pool_data_inv n s" "pool_lock_inv s"
    and pc: "p_threads s t = Inside (Submit k)"
    and go: "\<not> shutdown (the_pool s)" "\<not> pool_must_wait (the_pool s) (Submit k)"
    and body: "submit_body (the_pool s) (Some k) = Inr p'"
    and sig: "signal_one on_cond_work ((p_threads s)(t := Leaving (Submitted 0))) g"
  shows "pool_wake_inv (s\<lparr>the_pool := p', p_threads := g, submitted := submitted s @ [Some k]\<rparr>)"
proof -
  let ?f = "(p_threads s)(t := Leaving (Submitted 0))"
  have room: "queue_size (the_pool s) < queue_capacity (the_pool s)" using go by auto
  then have p': "queue_size p' = queue_size (the_pool s) + 1" "shutdown p' = shutdown (the_pool s)"
    using submit_body_ok [of "the_pool s" "Some k"] body inv(2) by (auto simp: pool_data_inv_def)
  have no_submit: "\<not> sleeps is_submit (?f u)" for u
    using inv(1) room by (auto simp: pool_wake_inv_def)
  then have sig': "signal_one is_work ?f g"
    using sig unfolding signal_one_def sleeps_on_cond_work by blast
  have fin: "finitely_many ?f" using inv(3) by (simp add: pool_lock_inv_def)
  have "covered (nat (queue_size (the_pool s))) is_work ?f"
    by (rule covered_upd) (use inv pc in \<open>auto simp: pool_wake_inv_def pool_lock_inv_def\<close>)
  then have "covered (Suc (nat (queue_size (the_pool s)))) is_work g"
    using fin sig' by (rule covered_signal)
  moreover have "Suc (nat (queue_size (the_pool s))) = nat (queue_size p')"
    using p'(1) inv(2) by (auto simp: pool_data_inv_def pool_inv_def)
  moreover have "\<not> sleeps is_submit (g u)" for u
    using wakes_sleeps [OF wakes_signal [OF sig]] no_submit by blast
  ultimately show ?thesis using go(1) p'(2) by (simp add: pool_wake_inv_def)
qed

lemma take_signals_submit:
  assumes "take_signals p f g" "queue_size p = queue_capacity p - 1"
  shows "\<not> sleeps on_cond_work (g u)"
proof -
  have "wakes (broadcast on_cond_work f) g"
    using assms by (auto simp: take_signals_def Let_def intro: wakes_signal split: if_splits)
  then show ?thesis
    by (auto simp: broadcast_def dest: wakes_sleeps split: if_splits)
qed

lemma pool_wake_inv_take:
  assumes inv: "pool_wake_inv s" "pool_data_inv n s" "pool_lock_inv s"
    and pc: "p_threads s t = Inside Work" and go: "\<not> pool_must_wait (the_pool s) Work"
      "\<not> (queue_size (the_pool s) = 0 \<and> shutdown (the_pool s))"
    and body: "take_body (the_pool s) = Inr (task, p')"
    and sig: "take_signals p' ((p_threads s)(t := Leaving (Run task))) g"
  shows "pool_wake_inv (s\<lparr>the_pool := p', p_threads := g, started := started s @ [task]\<rparr>)"
proof -
  let ?f = "(p_threads s)(t := Leaving (Run task))"
  note w = wakes_take_signals [OF sig]
  have "0 < queue_size (the_pool s)"
    using go inv(2) by (auto simp: pool_data_inv_def pool_inv_def)
  then have p': "queue_size p' = queue_size (the_pool s) - 1"
      "queue_capacity p' = queue_capacity (the_pool s)" "shutdown p' = shutdown (the_pool s)"
    using take_body_ok [of "the_pool s"] body inv(2) by (auto simp: pool_data_inv_def)
  have fin: "finitely_many (p_threads s)" using inv(3) by (simp add: pool_lock_inv_def)
  have "covered (nat (queue_size (the_pool s)) - 1) is_work ?f"
    by (rule covered_leave [OF _ fin]) (use inv in \<open>auto simp: pool_wake_inv_def\<close>)
  moreover have "nat (queue_size (the_pool s)) - 1 = nat (queue_size p')" using p'(1) by arith
  ultimately have "covered (nat (queue_size p')) is_work g"
    using covered_wakes [OF _ _ w] fin by (metis finitely_many_upd)
  moreover have "queue_size p' = queue_capacity p'" if "sleeps is_submit (g u)" for u
  proof -
    have "sleeps is_submit (?f u)" using wakes_sleeps [OF w that] by blast
    then have "queue_size (the_pool s) = queue_capacity (the_pool s)"
      using inv(1) by (auto simp: pool_wake_inv_def split: if_splits)
    then have "\<not> sleeps on_cond_work (g u)" using take_signals_submit [OF sig] p' by simp
    then show ?thesis using that by (simp add: sleeps_on_cond_work)
  qed
  moreover have "\<not> sleeps on_cond_work (g u)" if "shutdown p'" for u
  proof
    assume "sleeps on_cond_work (g u)"
    then have "sleeps on_cond_work (?f u)" using wakes_sleeps [OF w] by blast
    then show False using inv(1) that p'(3) by (auto simp: pool_wake_inv_def split: if_splits)
  qed
  ultimately show ?thesis by (simp add: pool_wake_inv_def)
qed

text \<open>The remaining steps move one thread.\<close>

lemma pool_wake_inv_move:
  assumes "p_threads s' = (p_threads s)(t := x)" "the_pool s' = the_pool s"
    and "pool_wake_inv s" "pool_lock_inv s"
    and "roused is_work (p_threads s t) \<longrightarrow> roused is_work x" "\<not> sleeps on_cond_work x"
  shows "pool_wake_inv s'"
  using assms by (auto simp: pool_wake_inv_def pool_lock_inv_def sleeps_on_cond_work intro: covered_upd)

lemma pool_wake_inv_step:
  "pool_step s s' \<Longrightarrow> pool_data_inv n s \<Longrightarrow> pool_lock_inv s \<Longrightarrow> roles n (p_threads s) \<Longrightarrow>
     pool_wake_inv s \<Longrightarrow> pool_wake_inv s'"
proof (induction rule: pool_step.induct)
  case (p_submit s t k p' g)
  then show ?case using pool_wake_inv_submit by metis
next
  case (p_take s t task p' g)
  then show ?case using pool_wake_inv_take by metis
next
  case (p_wait s t c)
  then show ?case
    by (cases c) (auto simp: pool_wake_inv_def pool_lock_inv_def pool_data_inv_def pool_inv_def
        sleeps_on_cond_work intro: covered_upd)
next
  case (p_shut s t)
  have "covered (nat (queue_size (the_pool s))) is_work ((p_threads s)(t := Leaving Flagged))"
    using p_shut by (auto simp: pool_wake_inv_def pool_lock_inv_def intro: covered_upd)
  then have "covered (nat (queue_size (the_pool s))) is_work
      (broadcast on_cond_work ((p_threads s)(t := Leaving Flagged)))"
    using p_shut by (intro covered_broadcast_any) (auto simp: pool_lock_inv_def)
  moreover have "\<not> sleeps on_cond_work (broadcast on_cond_work ((p_threads s)(t := Leaving Flagged)) u)" for u
    by (simp add: broadcast_def)
  ultimately show ?case by (simp add: pool_wake_inv_def sleeps_on_cond_work)
next
  case (p_exit s t)
  then show ?case by (auto simp: pool_wake_inv_def)
next
  case (p_call t s c)
  then show ?case
    using pool_wake_inv_move [where s = s and t = t] by (auto simp: client_may_call_def)
next
  case (p_destroy t s)
  then show ?case
    using pool_wake_inv_move [where s = s and t = t] by (auto simp: client_may_call_def)
qed ((rule pool_wake_inv_move, simp, simp, assumption, assumption, simp, simp)+,
    simp_all add: pool_wake_inv_def)

text \<open>Every task taken out of the queue has been executed or is being executed by one worker.\<close>

fun running_task :: "(('f, 'a) pool_call, ('f, 'a) pool_ret) pc \<Rightarrow> ('f, 'a) task_t option multiset" where
  "running_task (Leaving (Run k)) = {#k#}"
| "running_task (Returned (Run k)) = {#k#}"
| "running_task _ = {#}"

definition running :: "int \<Rightarrow> ('f, 'a) pool_threads \<Rightarrow> ('f, 'a) task_t option multiset" where
  "running n f = (\<Sum>t<nat n. running_task (f t))"

definition pool_task_inv :: "int \<Rightarrow> ('f, 'a) pool_sys \<Rightarrow> bool" where
  "pool_task_inv n s \<longleftrightarrow> mset (started s) = mset (finished s) + running n (p_threads s)"

lemma running_upd:
  "running n (f(t := x)) =
     (if int t < n then running n f - running_task (f t) + running_task x else running n f)"
proof (cases "int t < n")
  case True
  then have t: "t \<in> {..<nat n}" by auto
  have "running n f = running_task (f t) + (\<Sum>u\<in>{..<nat n} - {t}. running_task (f u))"
    unfolding running_def by (rule sum.remove) (use t in auto)
  moreover have "running n (f(t := x)) = running_task x + (\<Sum>u\<in>{..<nat n} - {t}. running_task (f u))"
    unfolding running_def by (subst sum.remove [OF _ t]) auto
  ultimately show ?thesis using True by simp
next
  case False
  then show ?thesis by (auto simp: running_def intro!: sum.cong)
qed

lemma running_same: "running_task x = running_task (f t) \<Longrightarrow> running n (f(t := x)) = running n f"
  unfolding running_def by (intro sum.cong) auto

lemma running_wakes: "wakes f g \<Longrightarrow> running n g = running n f"
  unfolding running_def
proof (rule sum.cong)
  fix t assume w: "wakes f g"
  show "running_task (g t) = running_task (f t)" by (cases rule: wakesE [OF w, of t]) auto
qed simp

lemma running_member: "int t < n \<Longrightarrow> running_task (f t) \<subseteq># running n f"
  unfolding running_def by (subst sum.remove [of _ t]) auto

lemma pool_task_inv_init: "pool_sys_init n s \<Longrightarrow> pool_task_inv n s"
  by (auto simp: pool_sys_init_def pool_task_inv_def running_def intro!: sum.neutral)

lemma pool_task_inv_step:
  "pool_step s s' \<Longrightarrow> roles n (p_threads s) \<Longrightarrow> pool_task_inv n s \<Longrightarrow> pool_task_inv n s'"
proof (induction rule: pool_step.induct)
  case (p_take s t task p' g)
  have t: "int t < n"
    using rolesD [OF p_take.prems(1), of t] p_take by (auto simp: role_def split: if_splits)
  with p_take show ?case
    by (simp add: pool_task_inv_def running_wakes [OF wakes_take_signals] running_upd)
next
  case (p_run s t task)
  have t: "int t < n"
    using rolesD [OF p_run.prems(1), of t] p_run by (auto simp: role_def split: if_splits)
  then have "{#task#} \<subseteq># running n (p_threads s)"
    using running_member [of t n "p_threads s"] p_run by simp
  with t p_run show ?case
    by (simp add: pool_task_inv_def running_upd add.assoc)
next
  case (p_submit s t k p' g)
  then show ?case
    by (simp add: pool_task_inv_def running_wakes [OF wakes_signal] running_same)
next
  case (p_shut s t)
  then show ?case
    by (simp add: pool_task_inv_def running_wakes [OF wakes_broadcast] running_same)
next
  case (p_unlock s t r)
  have "running_task (Returned r) = running_task (Leaving r)" by (cases r) auto
  with p_unlock show ?case by (simp add: pool_task_inv_def running_same)
qed (auto simp: pool_task_inv_def client_may_call_def running_same split: if_splits)

text \<open>A worker leaves only when the pool is shut down and the queue is empty, and this is final.\<close>

definition pool_exit_inv :: "int \<Rightarrow> ('f, 'a) pool_sys \<Rightarrow> bool" where
  "pool_exit_inv n s \<longleftrightarrow>
     (\<forall>t. p_threads s t = Leaving Exit \<or> p_threads s t = Returned Exit \<longrightarrow>
        shutdown (the_pool s) \<and> queue_size (the_pool s) = 0) \<and>
     (\<forall>t. p_threads s t = Returned Joined \<longrightarrow>
        (\<forall>u. int u < n \<longrightarrow> p_threads s u = Returned Exit))"

lemma pool_exit_inv_init: "pool_sys_init n s \<Longrightarrow> pool_exit_inv n s"
  by (auto simp: pool_sys_init_def pool_exit_inv_def split: if_splits)

lemma pool_exit_inv_wakes:
  assumes "wakes f g"
  shows "g u = Leaving r \<longleftrightarrow> f u = Leaving r" "g u = Returned r \<longleftrightarrow> f u = Returned r"
  by (rule wakes_eq_iff [OF assms]; simp)+

lemma pool_exit_inv_fault [simp]: "pool_exit_inv n (s\<lparr>p_fault := e\<rparr>) = pool_exit_inv n s"
  by (simp add: pool_exit_inv_def)

text \<open>A step of one thread that neither leaves the pool nor has left it.\<close>

lemma pool_exit_inv_move:
  assumes "pool_exit_inv n s"
    and "p_threads s' = (p_threads s)(t := x)" "p_threads s t \<noteq> Returned Exit"
    and "x \<noteq> Leaving Exit" "x \<noteq> Returned Exit" "x \<noteq> Returned Joined"
    and "shutdown (the_pool s') = shutdown (the_pool s)" "queue_size (the_pool s') = queue_size (the_pool s)"
  shows "pool_exit_inv n s'"
proof -
  have keep: "p_threads s u = y" if "p_threads s' u = y" "y \<noteq> x" for u y
    using that assms(2) by (auto split: if_splits)
  have exited: "p_threads s' u = Returned Exit" if "p_threads s u = Returned Exit" for u
    using that assms(2,3) by auto
  show ?thesis
    unfolding pool_exit_inv_def assms(7,8)
  proof (intro conjI allI impI)
    fix u assume "p_threads s' u = Leaving Exit \<or> p_threads s' u = Returned Exit"
    then have "p_threads s u = Leaving Exit \<or> p_threads s u = Returned Exit"
      using keep assms(4,5) by metis
    then show "shutdown (the_pool s)" "queue_size (the_pool s) = 0"
      using assms(1) by (auto simp: pool_exit_inv_def)
  next
    fix u v assume "p_threads s' u = Returned Joined" "int v < n"
    then have "p_threads s v = Returned Exit"
      using keep [of u "Returned Joined"] assms(1,6) by (auto simp: pool_exit_inv_def)
    then show "p_threads s' v = Returned Exit" by (rule exited)
  qed
qed

lemma pool_exit_inv_step:
  "pool_step s s' \<Longrightarrow> pool_data_inv n s \<Longrightarrow> roles n (p_threads s) \<Longrightarrow> pool_exit_inv n s \<Longrightarrow> pool_exit_inv n s'"
proof (induction rule: pool_step.induct)
  case (p_take s t task p' g)
  have pos: "queue_size (the_pool s) \<noteq> 0" using p_take by auto
  then have none: "\<not> (p_threads s u = Leaving Exit \<or> p_threads s u = Returned Exit)" for u
    using p_take.prems(3) by (auto simp: pool_exit_inv_def)
  have "int t < n"
    using rolesD [OF p_take.prems(2), of t] p_take by (auto simp: role_def split: if_splits)
  then have "p_threads s u \<noteq> Returned Joined" for u
    using none p_take.prems(3) by (auto simp: pool_exit_inv_def)
  with none show ?case
    by (auto simp: pool_exit_inv_def pool_exit_inv_wakes [OF wakes_take_signals [OF p_take(5)]]
        split: if_splits)
next
  case (p_submit s t k p' g)
  then have none: "\<not> (p_threads s u = Leaving Exit \<or> p_threads s u = Returned Exit)" for u
    by (auto simp: pool_exit_inv_def)
  have "0 < n" using p_submit.prems(1) by (auto simp: pool_data_inv_def pool_inv_def)
  then have "p_threads s u \<noteq> Returned Joined" for u
    using none [of 0] p_submit.prems(3) by (auto simp: pool_exit_inv_def)
  with none show ?case
    by (auto simp: pool_exit_inv_def pool_exit_inv_wakes [OF wakes_signal [OF p_submit(5)]]
        split: if_splits)
next
  case (p_shut s t)
  then show ?case
    by (auto simp: pool_exit_inv_def pool_exit_inv_wakes [OF wakes_broadcast] split: if_splits)
next
  case (p_unlock s t r)
  have "r \<noteq> Joined" using rolesD [OF p_unlock.prems(2), of t] p_unlock(1)
    by (auto simp: role_def split: if_splits)
  with p_unlock show ?case by (auto simp: pool_exit_inv_def split: if_splits)
next
  case (p_join s t)
  then show ?case by (auto simp: pool_exit_inv_def pool_data_inv_def split: if_splits)
next
  case (p_exit s t)
  then show ?case by (auto simp: pool_exit_inv_def split: if_splits)
next
  case (p_call t s c)
  then show ?case
    using pool_exit_inv_move [of n s _ t "Calling c"] by (auto simp: client_may_call_def)
next
  case (p_destroy t s)
  then show ?case
    using pool_exit_inv_move [of n s _ t "Calling Drain"] by (auto simp: client_may_call_def)
qed ((rule pool_exit_inv_move, assumption, simp, simp, simp, simp, simp, simp, simp)+, simp_all)

section \<open>The invariant of the pool\<close>

definition pool_sys_inv :: "int \<Rightarrow> ('f, 'a) pool_sys \<Rightarrow> bool" where
  "pool_sys_inv n s \<longleftrightarrow> pool_data_inv n s \<and> pool_lock_inv s \<and> roles n (p_threads s) \<and>
     pool_wake_inv s \<and> pool_task_inv n s \<and> pool_exit_inv n s"

interpretation pool_sys: invariant_of "pool_sys_init n" pool_step "pool_sys_inv n"
proof
  fix s :: "('a, 'b) pool_sys"
  assume "pool_sys_init n s"
  then show "pool_sys_inv n s"
    by (simp add: pool_sys_inv_def pool_data_inv_init pool_lock_inv_init roles_init pool_wake_inv_init
        pool_task_inv_init pool_exit_inv_init)
next
  fix s t :: "('a, 'b) pool_sys"
  assume step: "pool_step s t" and "pool_sys_inv n s"
  then show "pool_sys_inv n t"
    using pool_data_inv_step [OF step] pool_lock_inv_step [OF step] roles_step [OF step]
      pool_wake_inv_step [OF step, of n] pool_task_inv_step [OF step] pool_exit_inv_step [OF step]
    by (simp add: pool_sys_inv_def)
qed

section \<open>Properties\<close>

text \<open>
  C7: the pool neither loses, duplicates nor reorders work. In every reachable state the tasks handed to
  workers followed by the tasks still queued are the accepted tasks in the order of their submission;
  every task handed out has been executed once or is being executed by exactly one worker; the queue
  never exceeds ten tasks per worker and no thread runs into undefined behaviour.
\<close>

theorem pool_in_order:
  assumes "reachable (pool_sys_init n) pool_step s"
  shows "submitted s = started s @ pool_contents (the_pool s) \<and>
    mset (started s) = mset (finished s) + running n (p_threads s) \<and>
    int (length (pool_contents (the_pool s))) \<le> 10 * n \<and> p_fault s = None"
  using pool_sys.reachable_inv [OF assms]
  by (auto simp: pool_sys_inv_def pool_data_inv_def pool_task_inv_def pool_inv_def
      QUEUE_CAPACITY_MULTIPLIER_def)

lemma pool_joined:
  assumes inv: "pool_sys_inv n s" and "p_threads s t = Returned Joined"
  shows "pool_contents (the_pool s) = [] \<and> mset (finished s) = mset (submitted s)"
proof -
  have gone: "p_threads s u = Returned Exit" if "int u < n" for u
    using inv assms(2) that by (auto simp: pool_sys_inv_def pool_exit_inv_def)
  have "0 < n" using inv by (auto simp: pool_sys_inv_def pool_data_inv_def pool_inv_def)
  then have "queue_size (the_pool s) = 0"
    using inv gone [of 0] by (auto simp: pool_sys_inv_def pool_exit_inv_def)
  then have empty: "pool_contents (the_pool s) = []" by (simp add: pool_contents_def)
  have "running n (p_threads s) = {#}"
    unfolding running_def by (rule sum.neutral) (auto simp: gone)
  then show ?thesis
    using inv empty by (simp add: pool_sys_inv_def pool_data_inv_def pool_task_inv_def)
qed

text \<open>
  C3: when \<open>thread_pool_destroy\<close> returns, the queue is empty and every task that was ever accepted has
  been executed exactly once.
\<close>

theorem pool_destroy_completes:
  assumes "reachable (pool_sys_init n) pool_step s" and "p_threads s t = Returned Joined"
  shows "pool_contents (the_pool s) = [] \<and> mset (finished s) = mset (submitted s)"
  using pool_joined [OF pool_sys.reachable_inv [OF assms(1)] assms(2)] .

text \<open>
  no wake-up of a worker is lost. While a worker sleeps although a task is queued, another worker has
  been woken up, or holds the mutex, and has yet to look at the queue.
\<close>

theorem pool_worker_wakeup:
  assumes "reachable (pool_sys_init n) pool_step s"
    and "p_threads s t = Sleeping Work" and "0 < queue_size (the_pool s)"
  shows "\<exists>u. p_threads s u = Woken Work \<or> p_threads s u = Inside Work"
proof -
  have "covered (nat (queue_size (the_pool s))) is_work (p_threads s)"
    using pool_sys.reachable_inv [OF assms(1)] by (simp add: pool_sys_inv_def pool_wake_inv_def)
  then obtain u where u: "roused is_work (p_threads s u)"
    using coveredD [of "nat (queue_size (the_pool s))" is_work "p_threads s" t] assms(2,3) by auto
  have "c = Work" if "is_work c" for c :: "('a, 'b) pool_call" using that by (cases c) auto
  with u show ?thesis by (cases "p_threads s u") auto
qed

text \<open>
  C4: although idle workers and submitters waiting for room share the condition variable \<open>cond_work\<close>,
  they never sleep on it at the same time, so a signal meant for one kind cannot be consumed by the
  other; and a submitter sleeps only while the queue is full.
\<close>

theorem pool_cond_work_not_contended:
  assumes "reachable (pool_sys_init n) pool_step s" and "p_threads s u = Sleeping (Submit k)"
  shows "queue_size (the_pool s) = queue_capacity (the_pool s) \<and> p_threads s t \<noteq> Sleeping Work"
proof -
  from assms(1) have inv: "pool_sys_inv n s" by (rule pool_sys.reachable_inv)
  have "sleeps is_submit (p_threads s u)" by (simp add: assms(2))
  then have full: "queue_size (the_pool s) = queue_capacity (the_pool s)"
    using inv unfolding pool_sys_inv_def pool_wake_inv_def by blast
  have "False" if sleep: "p_threads s t = Sleeping Work"
  proof -
    let ?R = "{v. roused is_work (p_threads s v)}"
    have n: "0 < n" "queue_capacity (the_pool s) = n * 10"
      using inv by (auto simp: pool_sys_inv_def pool_data_inv_def pool_inv_def QUEUE_CAPACITY_MULTIPLIER_def)
    have "?R \<subseteq> {..<nat n}"
    proof
      fix v assume "v \<in> ?R"
      then have "\<not> client_pc (p_threads s v)" by (cases "p_threads s v") (auto elim: is_work.elims)
      then show "v \<in> {..<nat n}"
        using inv rolesD [of n "p_threads s" v] by (auto simp: pool_sys_inv_def role_def split: if_splits)
    qed
    then have "card ?R \<le> nat n" using card_mono [of "{..<nat n}" ?R] by simp
    moreover have "sleeps is_work (p_threads s t)" using sleep by simp
    then have "nat (queue_size (the_pool s)) \<le> card ?R"
      using inv unfolding pool_sys_inv_def pool_wake_inv_def covered_def by blast
    ultimately show False using full n by simp
  qed
  with full show ?thesis by blast
qed

lemma live_release_all:
  "distinct rs \<Longrightarrow> set rs \<inter> set held = {} \<Longrightarrow> live (map Release rs) (rev rs @ held) = Some held"
  by (induction rs) (auto simp: remove1_append)

abbreviation pool_base :: "pool_resource list" where
  "pool_base \<equiv> [Pool_Cond_Empty, Pool_Cond_Work, Pool_Mutex, Pool_Threads, Pool_Queue, Pool_Struct]"

lemma live_pool_released: "live pool_released pool_base = Some []"
  by (simp add: pool_released_def)

lemma live_workers_released:
  "live (map (\<lambda>j. Release (Worker j)) [0..<i] @ pool_released) (rev (map Worker [0..<i]) @ pool_base) = Some []"
proof -
  have "live (map Release (map Worker [0..<i])) (rev (map Worker [0..<i]) @ pool_base) = Some pool_base"
    by (rule live_release_all) (auto simp: distinct_map inj_on_def)
  then show ?thesis by (simp add: live_append live_pool_released comp_def)
qed

lemma start_workers_live:
  assumes "start_workers created i k = (es, ok)"
  shows "live es (rev (map Worker [0..<i]) @ pool_base) =
    Some (if ok then rev (map Worker [0..<i + k]) @ pool_base else [])"
  using assms
proof (induction k arbitrary: i es ok)
  case 0
  then show ?case by simp
next
  case (Suc k)
  show ?case
  proof (cases "created i")
    case True
    with Suc.prems obtain fs where fs: "start_workers created (Suc i) k = (fs, ok)"
        "es = Acquire (Worker i) # fs"
      by (auto split: prod.splits)
    with Suc.IH [OF fs(1)] show ?thesis by simp
  next
    case False
    with Suc.prems show ?thesis using live_workers_released [of i] by auto
  qed
qed

text \<open>
  \<open>thread_pool_create\<close> followed by the final part of \<open>thread_pool_destroy\<close> gives back exactly what
  was acquired, worker threads included: whichever allocation, initialisation or thread creation
  fails, nothing is left and nothing is released twice.
\<close>

theorem pool_no_leak:
  assumes "thread_pool_create env n = Inr (es, p)"
  shows "live (es @ pool_teardown p) [] = Some []"
proof -
  obtain fs ok where fs: "start_workers (create_thread env) 0 (nat n) = (fs, ok)" by fastforce
  show ?thesis
    using assms fs start_workers_live [OF fs] live_workers_released [of "nat n"]
    by (auto simp: thread_pool_create_def pool_teardown_def pool_acquired_def Let_def live_append
        split: if_splits)
qed

section \<open>Runs\<close>

text \<open>A pool with one worker (thread 0) and clients from thread 1 on.\<close>

definition demo_task :: "(unit, unit) task_t" where
  "demo_task = \<lparr>func = Some (), arg = ()\<rparr>"

definition demo_pool :: "(unit, unit) task_t option list \<Rightarrow> int \<Rightarrow> int \<Rightarrow> (unit, unit) thread_pool" where
  "demo_pool q n i = \<lparr>num_threads = 1, pool_queue = q, queue_capacity = 10, queue_size = n,
     queue_front = i, shutdown = False\<rparr>"

definition demo_empty :: "(unit, unit) thread_pool" where
  "demo_empty = demo_pool (replicate 10 None) 0 0"

definition demo_one :: "(unit, unit) thread_pool" where
  "demo_one = demo_pool (Some demo_task # replicate 9 None) 1 0"

definition demo_done :: "(unit, unit) thread_pool" where
  "demo_done = demo_pool (Some demo_task # replicate 9 None) 0 1"

definition demo_sys where
  "demo_sys p ow f sub st fin = \<lparr>the_pool = p, p_owner = ow, p_threads = f, destroying = False,
     submitted = sub, started = st, finished = fin, p_fault = None\<rparr>"

lemma demo_fields [simp]:
  "num_threads demo_empty = 1" "queue_size demo_empty = 0" "queue_capacity demo_empty = 10"
  "shutdown demo_empty = False" "num_threads demo_one = 1" "queue_size demo_one = 1"
  "queue_capacity demo_one = 10" "shutdown demo_one = False" "num_threads demo_done = 1"
  "queue_size demo_done = 0" "queue_capacity demo_done = 10" "shutdown demo_done = False"
  by (simp_all add: demo_empty_def demo_one_def demo_done_def demo_pool_def)

lemma demo_submit_body: "submit_body demo_empty (Some demo_task) = Inr demo_one"
  by (simp add: submit_body_def demo_empty_def demo_one_def demo_pool_def c_int_def c_rem_def
      INT_MIN_def INT_MAX_def numeral_eq_Suc)

lemma demo_take_body: "take_body demo_one = Inr (Some demo_task, demo_done)"
  by (simp add: take_body_def demo_one_def demo_done_def demo_pool_def c_int_def c_rem_def
      INT_MIN_def INT_MAX_def numeral_eq_Suc signed_modulo_int_def)

abbreviation demo_reach where
  "demo_reach \<equiv> reachable (pool_sys_init 1) (pool_step :: (unit, unit) pool_sys \<Rightarrow> _)"

lemma demo_start: "demo_reach (demo_sys demo_empty None ((\<lambda>_. Idle)(0 := Calling Work)) [] [] [])"
proof (rule reach_init)
  let ?env = "\<lparr>malloc_pool = True, malloc_queue = True, malloc_threads = True, init_mutex = True,
      init_cond_work = True, init_cond_empty = True, create_thread = (\<lambda>_. True)\<rparr>"
  have "thread_pool_create ?env 1 = Inr (pool_acquired @ [Acquire (Worker 0)], Some demo_empty)"
    by (simp add: thread_pool_create_def Let_def c_int_def INT_MIN_def INT_MAX_def
        QUEUE_CAPACITY_MULTIPLIER_def demo_empty_def demo_pool_def)
  moreover have "(\<lambda>_. Idle)(0 := Calling Work) = (\<lambda>t. if int t < 1 then Calling Work else Idle)"
    by auto
  ultimately show "pool_sys_init 1 (demo_sys demo_empty None ((\<lambda>_. Idle)(0 := Calling Work)) [] [] [])"
    by (auto simp: pool_sys_init_def demo_sys_def)
qed

text \<open>Client 1 submits a task.\<close>

lemma demo_submitted:
  "demo_reach (demo_sys demo_one None ((\<lambda>_. Idle)(0 := Calling Work, 1 := Returned (Submitted 0)))
     [Some demo_task] [] [])"
proof -
  let ?f = "(\<lambda>_. Idle)(0 := Calling Work)"
  have 1: "demo_reach (demo_sys demo_empty None (?f(1 := Calling (Submit demo_task))) [] [] [])"
    by (rule reach_via [OF demo_start], rule p_call [where t = 1])
      (simp_all add: demo_sys_def client_may_call_def)
  have 2: "demo_reach (demo_sys demo_empty (Some 1) (?f(1 := Inside (Submit demo_task))) [] [] [])"
    by (rule reach_via [OF 1], rule p_lock [where t = 1]) (simp_all add: demo_sys_def demo_task_def)
  have 3: "demo_reach (demo_sys demo_one (Some 1) (?f(1 := Leaving (Submitted 0))) [Some demo_task] [] [])"
    by (rule reach_via [OF 2], rule p_submit [where t = 1 and p' = demo_one and
          g = "?f(1 := Leaving (Submitted 0))"])
      (simp_all add: demo_sys_def demo_submit_body signal_one_def)
  show ?thesis
    by (rule reach_via [OF 3], rule p_unlock [where t = 1]) (simp_all add: demo_sys_def)
qed

text \<open>The worker takes it and is executing it.\<close>

lemma demo_running:
  "demo_reach (demo_sys demo_done None
     ((\<lambda>_. Idle)(0 := Returned (Run (Some demo_task)), 1 := Returned (Submitted 0)))
     [Some demo_task] [Some demo_task] [])"
proof -
  let ?f = "\<lambda>x. (\<lambda>_. Idle)(0 := x, 1 := Returned (Submitted 0))"
  have 1: "demo_reach (demo_sys demo_one (Some 0) (?f (Inside Work)) [Some demo_task] [] [])"
    by (rule reach_via [OF demo_submitted], rule p_lock [where t = 0])
      (simp_all add: demo_sys_def fun_upd_twist)
  have 2: "demo_reach (demo_sys demo_done (Some 0) (?f (Leaving (Run (Some demo_task))))
      [Some demo_task] [Some demo_task] [])"
    by (rule reach_via [OF 1], rule p_take [where t = 0 and p' = demo_done and task = "Some demo_task" and
          g = "?f (Leaving (Run (Some demo_task)))"])
      (simp_all add: demo_sys_def demo_take_body signal_one_def take_signals_def fun_upd_twist)
  show ?thesis
    by (rule reach_via [OF 2], rule p_unlock [where t = 0]) (simp_all add: demo_sys_def fun_upd_twist)
qed

text \<open>
  \<open>thread_pool_wait_all\<close> returns as soon as the queue is empty, although the task submitted before by
  the same client is still being executed: a run reaches a state in which client 1 has submitted a task,
  its call of \<open>thread_pool_wait_all\<close> has returned, and the worker is executing the task. The
  header promises that the call waits for all submitted tasks to complete.
\<close>

theorem pool_wait_all_too_early:
  "\<exists>s :: (unit, unit) pool_sys. reachable (pool_sys_init 1) pool_step s \<and>
     submitted s = [Some demo_task] \<and> finished s = [] \<and>
     p_threads s 0 = Returned (Run (Some demo_task)) \<and> p_threads s 1 = Returned Empty_Seen"
proof -
  let ?f = "(\<lambda>_. Idle)(0 := Returned (Run (Some demo_task)))"
  have 1: "demo_reach (demo_sys demo_done None (?f(1 := Calling Wait_All)) [Some demo_task] [Some demo_task] [])"
    by (rule reach_via [OF demo_running], rule p_call [where t = 1 and c = Wait_All])
      (simp_all add: demo_sys_def client_may_call_def)
  have 2: "demo_reach (demo_sys demo_done (Some 1) (?f(1 := Inside Wait_All)) [Some demo_task] [Some demo_task] [])"
    by (rule reach_via [OF 1], rule p_lock [where t = 1]) (simp_all add: demo_sys_def)
  have 3: "demo_reach (demo_sys demo_done (Some 1) (?f(1 := Leaving Empty_Seen)) [Some demo_task] [Some demo_task] [])"
    by (rule reach_via [OF 2], rule p_empty [where t = 1])
      (simp_all add: demo_sys_def)
  have "demo_reach (demo_sys demo_done None (?f(1 := Returned Empty_Seen)) [Some demo_task] [Some demo_task] [])"
    by (rule reach_via [OF 3], rule p_unlock [where t = 1]) (simp_all add: demo_sys_def)
  then show ?thesis by (intro exI conjI) (assumption, simp_all add: demo_sys_def)
qed

text \<open>A client that calls \<open>thread_pool_wait_all\<close> while the queue is not empty goes to sleep.\<close>

lemma demo_wait_all:
  assumes "demo_reach (demo_sys p None f sub st fin)" "client_may_call (f t)" "num_threads p \<le> int t"
    and "pool_must_wait p Wait_All"
  shows "demo_reach (demo_sys p None (f(t := Sleeping Wait_All)) sub st fin)"
proof -
  have 1: "demo_reach (demo_sys p None (f(t := Calling Wait_All)) sub st fin)"
    by (rule reach_via [OF assms(1)], rule p_call [where t = t and c = Wait_All])
      (use assms in \<open>simp_all add: demo_sys_def\<close>)
  have 2: "demo_reach (demo_sys p (Some t) (f(t := Inside Wait_All)) sub st fin)"
    by (rule reach_via [OF 1], rule p_lock [where t = t]) (simp_all add: demo_sys_def)
  show ?thesis
    by (rule reach_via [OF 2], rule p_wait [where t = t]) (use assms(4) in \<open>simp_all add: demo_sys_def\<close>)
qed

text \<open>
  with two clients in \<open>thread_pool_wait_all\<close>, one of them can sleep forever: the worker signals
  \<open>cond_empty\<close> once when the queue runs empty, which wakes a single waiter. A run reaches a state
  in which every submitted task has been executed and the queue is empty, the worker is idle and one
  waiter has returned, while the other one still sleeps and no thread is left to wake it up.
\<close>

theorem pool_wait_all_stranded:
  "\<exists>s :: (unit, unit) pool_sys. reachable (pool_sys_init 1) pool_step s \<and>
     queue_size (the_pool s) = 0 \<and> submitted s = [Some demo_task] \<and> finished s = [Some demo_task] \<and>
     p_threads s = (\<lambda>_. Idle)(0 := Sleeping Work, 1 := Returned (Submitted 0),
       2 := Returned Empty_Seen, 3 := Sleeping Wait_All)"
proof -
  let ?k = "Some demo_task"
  let ?f = "\<lambda>x y. (\<lambda>_::nat. Idle)(0 := x, 1 := Returned (Submitted 0), 2 := y, 3 := Sleeping Wait_All)"
  have 1: "demo_reach (demo_sys demo_one None (?f (Calling Work) (Sleeping Wait_All)) [?k] [] [])"
    using demo_wait_all [OF demo_wait_all [OF demo_submitted, of 2], of 3]
    by (simp add: client_may_call_def)
  have 2: "demo_reach (demo_sys demo_one (Some 0) (?f (Inside Work) (Sleeping Wait_All)) [?k] [] [])"
    by (rule reach_via [OF 1], rule p_lock [where t = 0]) (simp_all add: demo_sys_def fun_upd_twist)
  have sig: "signal_one on_cond_empty (?f (Leaving (Run ?k)) (Sleeping Wait_All))
      (?f (Leaving (Run ?k)) (Woken Wait_All))"
    unfolding signal_one_def by (rule disjI1, rule exI [of _ 2]) (simp add: fun_upd_twist)
  have upd: "(?f (Inside Work) (Sleeping Wait_All))(0 := Leaving (Run ?k)) =
      ?f (Leaving (Run ?k)) (Sleeping Wait_All)"
    by (simp add: fun_upd_twist)
  have tk: "take_signals demo_done ((?f (Inside Work) (Sleeping Wait_All))(0 := Leaving (Run ?k)))
      (?f (Leaving (Run ?k)) (Woken Wait_All))"
    unfolding upd take_signals_def demo_fields using sig by simp
  have 3: "demo_reach (demo_sys demo_done (Some 0) (?f (Leaving (Run ?k)) (Woken Wait_All)) [?k] [?k] [])"
    by (rule reach_via [OF 2], rule p_take [where t = 0 and p' = demo_done and task = ?k and
          g = "?f (Leaving (Run ?k)) (Woken Wait_All)"])
      (use tk in \<open>simp_all add: demo_sys_def demo_take_body\<close>)
  have 4: "demo_reach (demo_sys demo_done None (?f (Returned (Run ?k)) (Woken Wait_All)) [?k] [?k] [])"
    by (rule reach_via [OF 3], rule p_unlock [where t = 0]) (simp_all add: demo_sys_def fun_upd_twist)
  have 5: "demo_reach (demo_sys demo_done None (?f (Calling Work) (Woken Wait_All)) [?k] [?k] [?k])"
    by (rule reach_via [OF 4], rule p_run [where t = 0]) (simp_all add: demo_sys_def fun_upd_twist)
  have 6: "demo_reach (demo_sys demo_done (Some 0) (?f (Inside Work) (Woken Wait_All)) [?k] [?k] [?k])"
    by (rule reach_via [OF 5], rule p_lock [where t = 0]) (simp_all add: demo_sys_def fun_upd_twist)
  have 7: "demo_reach (demo_sys demo_done None (?f (Sleeping Work) (Woken Wait_All)) [?k] [?k] [?k])"
    by (rule reach_via [OF 6], rule p_wait [where t = 0]) (simp_all add: demo_sys_def fun_upd_twist)
  have 8: "demo_reach (demo_sys demo_done (Some 2) (?f (Sleeping Work) (Inside Wait_All)) [?k] [?k] [?k])"
    by (rule reach_via [OF 7], rule p_relock [where t = 2]) (simp_all add: demo_sys_def fun_upd_twist)
  have 9: "demo_reach (demo_sys demo_done (Some 2) (?f (Sleeping Work) (Leaving Empty_Seen)) [?k] [?k] [?k])"
    by (rule reach_via [OF 8], rule p_empty [where t = 2]) (simp_all add: demo_sys_def fun_upd_twist)
  have "demo_reach (demo_sys demo_done None (?f (Sleeping Work) (Returned Empty_Seen)) [?k] [?k] [?k])"
    by (rule reach_via [OF 9], rule p_unlock [where t = 2]) (simp_all add: demo_sys_def fun_upd_twist)
  then show ?thesis by (intro exI conjI) (assumption, simp_all add: demo_sys_def)
qed

section \<open>Witnesses\<close>

theorem pool_in_order_witness:
  "\<exists>s :: (unit, unit) pool_sys. reachable (pool_sys_init 1) pool_step s \<and> submitted s = [Some demo_task] \<and>
     submitted s = started s @ pool_contents (the_pool s) \<and>
     mset (started s) = mset (finished s) + running 1 (p_threads s)"
  using demo_running pool_in_order [OF demo_running] by (intro exI conjI) (auto simp: demo_sys_def)

text \<open>After the task client 1 destroys the pool.\<close>

lemma demo_destroyed:
  "demo_reach (demo_sys (demo_done\<lparr>shutdown := True\<rparr>) None
     ((\<lambda>_. Idle)(0 := Returned Exit, 1 := Returned Joined)) [Some demo_task] [Some demo_task] [Some demo_task]
     \<lparr>destroying := True\<rparr>)"
proof -
  let ?k = "Some demo_task"
  let ?f = "\<lambda>x y. (\<lambda>_::nat. Idle)(0 := x, 1 := y)"
  let ?S = "\<lambda>p ow f. (demo_sys p ow f [?k] [?k] [?k])\<lparr>destroying := True\<rparr>"
  let ?shut = "demo_done\<lparr>shutdown := True\<rparr>"
  have 1: "demo_reach (demo_sys demo_done None (?f (Calling Work) (Returned (Submitted 0))) [?k] [?k] [?k])"
    by (rule reach_via [OF demo_running], rule p_run [where t = 0]) (simp_all add: demo_sys_def fun_upd_twist)
  have 2: "demo_reach (?S demo_done None (?f (Calling Work) (Calling Drain)))"
    by (rule reach_via [OF 1], rule p_destroy [where t = 1]) (simp_all add: demo_sys_def client_may_call_def)
  have 3: "demo_reach (?S demo_done (Some 1) (?f (Calling Work) (Inside Drain)))"
    by (rule reach_via [OF 2], rule p_lock [where t = 1]) (simp_all add: demo_sys_def)
  have 4: "demo_reach (?S demo_done (Some 1) (?f (Calling Work) (Leaving Drained)))"
    by (rule reach_via [OF 3], rule p_drained [where t = 1]) (simp_all add: demo_sys_def)
  have 5: "demo_reach (?S demo_done None (?f (Calling Work) (Returned Drained)))"
    by (rule reach_via [OF 4], rule p_unlock [where t = 1]) (simp_all add: demo_sys_def)
  have 6: "demo_reach (?S demo_done None (?f (Calling Work) (Calling Shut_Down)))"
    by (rule reach_via [OF 5], rule p_call_shut [where t = 1]) (simp_all add: demo_sys_def)
  have 7: "demo_reach (?S demo_done (Some 1) (?f (Calling Work) (Inside Shut_Down)))"
    by (rule reach_via [OF 6], rule p_lock [where t = 1]) (simp_all add: demo_sys_def)
  have 8: "demo_reach (?S ?shut (Some 1) (?f (Calling Work) (Leaving Flagged)))"
    by (rule reach_via [OF 7], rule p_shut [where t = 1]) (simp_all add: demo_sys_def broadcast_def fun_eq_iff)
  have 9: "demo_reach (?S ?shut None (?f (Calling Work) (Returned Flagged)))"
    by (rule reach_via [OF 8], rule p_unlock [where t = 1]) (simp_all add: demo_sys_def)
  have 10: "demo_reach (?S ?shut (Some 0) (?f (Inside Work) (Returned Flagged)))"
    by (rule reach_via [OF 9], rule p_lock [where t = 0]) (simp_all add: demo_sys_def fun_upd_twist)
  have 11: "demo_reach (?S ?shut (Some 0) (?f (Leaving Exit) (Returned Flagged)))"
    by (rule reach_via [OF 10], rule p_exit [where t = 0]) (simp_all add: demo_sys_def fun_upd_twist)
  have 12: "demo_reach (?S ?shut None (?f (Returned Exit) (Returned Flagged)))"
    by (rule reach_via [OF 11], rule p_unlock [where t = 0]) (simp_all add: demo_sys_def fun_upd_twist)
  show ?thesis
    by (rule reach_via [OF 12], rule p_join [where t = 1]) (simp_all add: demo_sys_def)
qed

theorem pool_destroy_completes_witness:
  "\<exists>s :: (unit, unit) pool_sys. reachable (pool_sys_init 1) pool_step s \<and> p_threads s 1 = Returned Joined \<and>
     submitted s = [Some demo_task] \<and> mset (finished s) = mset (submitted s)"
  using demo_destroyed pool_destroy_completes [OF demo_destroyed, of 1]
  by (intro exI conjI) (assumption, simp_all add: demo_sys_def)

text \<open>Two workers go to sleep, a submission wakes one of them.\<close>

definition demo_two :: "(unit, unit) thread_pool" where
  "demo_two = \<lparr>num_threads = 2, pool_queue = replicate 20 None, queue_capacity = 20, queue_size = 0,
     queue_front = 0, shutdown = False\<rparr>"

lemma demo_two_woken:
  "\<exists>p. reachable (pool_sys_init 2) pool_step (demo_sys p (Some 2)
     ((\<lambda>_. Idle)(0 := Woken Work, 1 := Sleeping Work, 2 := Leaving (Submitted 0))) [Some demo_task] [] []) \<and>
     queue_size p = 1"
proof -
  let ?R = "reachable (pool_sys_init 2) (pool_step :: (unit, unit) pool_sys \<Rightarrow> _)"
  let ?f = "\<lambda>x y z. (\<lambda>_::nat. Idle)(0 := x, 1 := y, 2 := z)"
  let ?S = "\<lambda>ow f. demo_sys demo_two ow f [] [] []"
  let ?env = "\<lparr>malloc_pool = True, malloc_queue = True, malloc_threads = True, init_mutex = True,
      init_cond_work = True, init_cond_empty = True, create_thread = (\<lambda>_. True)\<rparr>"
  have "\<exists>es. thread_pool_create ?env 2 = Inr (es, Some demo_two)"
    by (auto simp: thread_pool_create_def Let_def c_int_def INT_MIN_def INT_MAX_def numeral_2_eq_2
        QUEUE_CAPACITY_MULTIPLIER_def demo_two_def)
  moreover have "?f (Calling Work) (Calling Work) Idle = (\<lambda>t. if int t < 2 then Calling Work else Idle)"
    by (auto simp: less_Suc_eq numeral_2_eq_2 fun_eq_iff)
  ultimately have 0: "?R (?S None (?f (Calling Work) (Calling Work) Idle))"
    by (intro reach_init) (auto simp: pool_sys_init_def demo_sys_def)
  have 1: "?R (?S (Some 0) (?f (Inside Work) (Calling Work) Idle))"
    by (rule reach_via [OF 0], rule p_lock [where t = 0]) (simp_all add: demo_sys_def fun_upd_twist)
  have 2: "?R (?S None (?f (Sleeping Work) (Calling Work) Idle))"
    by (rule reach_via [OF 1], rule p_wait [where t = 0])
      (simp_all add: demo_sys_def demo_two_def fun_upd_twist)
  have 3: "?R (?S (Some 1) (?f (Sleeping Work) (Inside Work) Idle))"
    by (rule reach_via [OF 2], rule p_lock [where t = 1]) (simp_all add: demo_sys_def fun_upd_twist)
  have 4: "?R (?S None (?f (Sleeping Work) (Sleeping Work) Idle))"
    by (rule reach_via [OF 3], rule p_wait [where t = 1])
      (simp_all add: demo_sys_def demo_two_def fun_upd_twist)
  have 5: "?R (?S None (?f (Sleeping Work) (Sleeping Work) (Calling (Submit demo_task))))"
    by (rule reach_via [OF 4], rule p_call [where t = 2])
      (simp_all add: demo_sys_def demo_two_def client_may_call_def)
  have 6: "?R (?S (Some 2) (?f (Sleeping Work) (Sleeping Work) (Inside (Submit demo_task))))"
    by (rule reach_via [OF 5], rule p_lock [where t = 2]) (simp_all add: demo_sys_def demo_task_def)
  obtain p where p: "submit_body demo_two (Some demo_task) = Inr p" "queue_size p = 1"
    using submit_body_ok [of demo_two "Some demo_task"]
    by (auto simp: pool_inv_def demo_two_def QUEUE_CAPACITY_MULTIPLIER_def)
  have sig: "signal_one on_cond_work (?f (Sleeping Work) (Sleeping Work) (Leaving (Submitted 0)))
      (?f (Woken Work) (Sleeping Work) (Leaving (Submitted 0)))"
    unfolding signal_one_def by (rule disjI1, rule exI [of _ 0]) (simp add: fun_upd_twist)
  have "?R (demo_sys p (Some 2) (?f (Woken Work) (Sleeping Work) (Leaving (Submitted 0))) [Some demo_task] [] [])"
    by (rule reach_via [OF 6], rule p_submit [where t = 2 and p' = p and
          g = "?f (Woken Work) (Sleeping Work) (Leaving (Submitted 0))"])
      (use p(1) sig in \<open>simp_all add: demo_sys_def, simp_all add: demo_two_def\<close>)
  with p(2) show ?thesis by blast
qed

theorem pool_worker_wakeup_witness:
  "\<exists>s :: (unit, unit) pool_sys. p_threads s 1 = Sleeping Work \<and> queue_size (the_pool s) = 1 \<and>
     (\<exists>u. p_threads s u = Woken Work \<or> p_threads s u = Inside Work)"
proof -
  obtain p where r: "reachable (pool_sys_init 2) pool_step (demo_sys p (Some 2)
     ((\<lambda>_. Idle)(0 := Woken Work, 1 := Sleeping Work, 2 := Leaving (Submitted 0))) [Some demo_task] [] [])"
    and p: "queue_size p = 1"
    using demo_two_woken by blast
  show ?thesis
    using pool_worker_wakeup [OF r, of 1] p
    by (intro exI [of _ "demo_sys p (Some 2) ((\<lambda>_. Idle)(0 := Woken Work, 1 := Sleeping Work,
          2 := Leaving (Submitted 0))) [Some demo_task] [] []"]) (simp add: demo_sys_def)
qed

theorem pool_no_leak_witness:
  "live (pool_acquired @ [Acquire (Worker 0), Release (Worker 0)] @ pool_released) [] = Some []"
proof -
  let ?env = "\<lparr>malloc_pool = True, malloc_queue = True, malloc_threads = True, init_mutex = True,
      init_cond_work = True, init_cond_empty = True, create_thread = (\<lambda>i. i = 0)\<rparr>"
  have "thread_pool_create ?env 2 =
      Inr (pool_acquired @ [Acquire (Worker 0), Release (Worker 0)] @ pool_released,
        None :: (unit, unit) thread_pool option)"
    by (simp add: thread_pool_create_def Let_def c_int_def INT_MIN_def INT_MAX_def
        QUEUE_CAPACITY_MULTIPLIER_def numeral_2_eq_2)
  from pool_no_leak [OF this] show ?thesis by (simp add: pool_teardown_def)
qed

text \<open>Client 1 submits until the queue is full; its next submission goes to sleep.\<close>

lemma demo_submit_once:
  assumes r: "demo_reach (demo_sys p None ((\<lambda>_. Idle)(0 := Calling Work, 1 := x)) sub [] [])"
    and "client_may_call x" "num_threads p = 1" "\<not> shutdown p"
  shows "demo_reach (demo_sys p (Some 1) ((\<lambda>_. Idle)(0 := Calling Work, 1 := Inside (Submit demo_task))) sub [] [])"
proof -
  have 1: "demo_reach (demo_sys p None ((\<lambda>_. Idle)(0 := Calling Work, 1 := Calling (Submit demo_task))) sub [] [])"
    by (rule reach_via [OF r], rule p_call [where t = 1 and c = "Submit demo_task"])
      (use assms in \<open>simp_all add: demo_sys_def\<close>)
  show ?thesis
    by (rule reach_via [OF 1], rule p_lock [where t = 1]) (simp_all add: demo_sys_def demo_task_def)
qed

lemma demo_filled:
  "k \<le> 10 \<Longrightarrow> \<exists>p x sub. demo_reach (demo_sys p None ((\<lambda>_. Idle)(0 := Calling Work, 1 := x)) sub [] []) \<and>
     client_may_call x \<and> num_threads p = 1 \<and> \<not> shutdown p \<and> queue_size p = int k \<and> queue_capacity p = 10"
proof (induction k)
  case 0
  have "demo_reach (demo_sys demo_empty None ((\<lambda>_. Idle)(0 := Calling Work, 1 := Idle)) [] [] [])"
    using demo_start by (simp add: fun_upd_idem)
  then show ?case by (intro exI conjI) (assumption, simp_all add: client_may_call_def)
next
  case (Suc k)
  from Suc.prems have "k \<le> 10" by simp
  from Suc.IH [OF this] obtain p x sub where p: "client_may_call x" "num_threads p = 1" "\<not> shutdown p"
      "queue_size p = int k" "queue_capacity p = 10"
    and r: "demo_reach (demo_sys p None ((\<lambda>_. Idle)(0 := Calling Work, 1 := x)) sub [] [])"
    by blast
  note 1 = demo_submit_once [OF r p(1-3)]
  have "pool_inv p"
    using pool_sys.reachable_inv [OF 1] by (simp add: pool_sys_inv_def pool_data_inv_def demo_sys_def)
  then obtain p' where p': "submit_body p (Some demo_task) = Inr p'" "num_threads p' = 1" "\<not> shutdown p'"
      "queue_size p' = int (Suc k)" "queue_capacity p' = 10"
    using submit_body_ok [of p "Some demo_task"] p Suc.prems by auto
  let ?f = "\<lambda>y. (\<lambda>_::nat. Idle)(0 := Calling Work, 1 := y)"
  have 2: "demo_reach (demo_sys p' (Some 1) (?f (Leaving (Submitted 0))) (sub @ [Some demo_task]) [] [])"
    by (rule reach_via [OF 1], rule p_submit [where t = 1 and p' = p' and g = "?f (Leaving (Submitted 0))"])
      (use p p' Suc.prems in \<open>simp_all add: demo_sys_def signal_one_def\<close>)
  have "demo_reach (demo_sys p' None (?f (Returned (Submitted 0))) (sub @ [Some demo_task]) [] [])"
    by (rule reach_via [OF 2], rule p_unlock [where t = 1]) (simp_all add: demo_sys_def)
  moreover have "client_may_call (Returned (Submitted 0))" by (simp add: client_may_call_def)
  ultimately show ?case using p' by blast
qed

theorem pool_cond_work_not_contended_witness:
  "\<exists>s :: (unit, unit) pool_sys. reachable (pool_sys_init 1) pool_step s \<and>
     p_threads s 1 = Sleeping (Submit demo_task) \<and> queue_size (the_pool s) = 10 \<and>
     queue_size (the_pool s) = queue_capacity (the_pool s) \<and> p_threads s 0 \<noteq> Sleeping Work"
proof -
  obtain p x sub where p: "client_may_call x" "num_threads p = 1" "\<not> shutdown p" "queue_size p = int 10"
      "queue_capacity p = 10"
    and r: "demo_reach (demo_sys p None ((\<lambda>_. Idle)(0 := Calling Work, 1 := x)) sub [] [])"
    using demo_filled [OF order_refl] by blast
  let ?s = "demo_sys p None ((\<lambda>_. Idle)(0 := Calling Work, 1 := Sleeping (Submit demo_task))) sub [] []"
  have 1: "demo_reach ?s"
    by (rule reach_via [OF demo_submit_once [OF r p(1-3)]], rule p_wait [where t = 1])
      (use p in \<open>simp_all add: demo_sys_def\<close>)
  from pool_cond_work_not_contended [OF 1, of 1 demo_task 0] 1 p(4) show ?thesis
    by (intro exI [of _ ?s]) (simp add: demo_sys_def)
qed

end
