(* ===== verification/Pool_Benchmark.thy ===== *)
theory Pool_Benchmark
  imports Thread_Pool
begin

text \<open>
  The test program of the pool, \<open>03_threads/thread_pool/test.c\<close>: one test submits its tasks, calls
  \<open>thread_pool_wait_all\<close>, prints how many tasks have been completed and destroys the pool. The steps
  inside the pool are those of \<open>pool_step\<close> in \<open>Thread_Pool\<close>. A task adds one to \<open>tasks_completed\<close> as its
  last action, so this counter is the number of finished tasks; its mutex is held for that action only.
\<close>

section \<open>The code\<close>

text \<open>
  Where the main thread is: before or in the submission of task \<open>i\<close>, before or in the call of
  \<open>thread_pool_wait_all\<close>, before or in \<open>thread_pool_destroy\<close> with the number it has printed, or at the end,
  with that number and the final value of the counter.
\<close>

datatype pool_main = To_Submit nat | Submitting nat | To_Wait | Waiting | To_Destroy nat | Destroying nat | Test_Done nat nat

record pool_bench =
  bench_pool :: "(unit, nat) pool_sys"
  pool_main :: pool_main

definition simple_task :: "nat \<Rightarrow> (unit, nat) task_t" where
  "simple_task i = \<lparr>func = Some (), arg = i\<rparr>"

definition tasks_completed :: "pool_bench \<Rightarrow> nat" where
  "tasks_completed s = length (finished (bench_pool s))"

definition main_calls :: "nat \<Rightarrow> (unit, nat) pool_call \<Rightarrow> pool_main \<Rightarrow> pool_bench \<Rightarrow> pool_bench" where
  "main_calls nt c m s =
     s\<lparr>bench_pool := (bench_pool s)\<lparr>p_threads := (p_threads (bench_pool s))(nt := Calling c)\<rparr>, pool_main := m\<rparr>"

text \<open>
  A test with \<open>nt\<close> workers and \<open>n\<close> tasks; the main thread has the number \<open>nt\<close>. \<open>benchmark\<close> leaves its loop
  when a submission fails (\<open>stop\<close>), the correctness test does not look at the result. The condition of
  \<open>t_inside\<close> says that the step is not the beginning of a call of the main thread or of another client.
\<close>

inductive pool_test_step :: "bool \<Rightarrow> nat \<Rightarrow> nat \<Rightarrow> pool_bench \<Rightarrow> pool_bench \<Rightarrow> bool" for stop :: bool and nt n :: nat where
  t_submit: "pool_main s = To_Submit i \<Longrightarrow> i < n \<Longrightarrow>
    pool_test_step stop nt n s (main_calls nt (Submit (simple_task i)) (Submitting i) s)"
| t_submitted: "pool_main s = Submitting i \<Longrightarrow> p_threads (bench_pool s) nt = Returned (Submitted r) \<Longrightarrow>
    pool_test_step stop nt n s (s\<lparr>pool_main := if stop \<and> r \<noteq> 0 then To_Wait else To_Submit (Suc i)\<rparr>)"
| t_all_submitted: "pool_main s = To_Submit i \<Longrightarrow> n \<le> i \<Longrightarrow> pool_test_step stop nt n s (s\<lparr>pool_main := To_Wait\<rparr>)"
| t_wait: "pool_main s = To_Wait \<Longrightarrow> pool_test_step stop nt n s (main_calls nt Wait_All Waiting s)"
| t_print: "pool_main s = Waiting \<Longrightarrow> p_threads (bench_pool s) nt = Returned Empty_Seen \<Longrightarrow>
    pool_test_step stop nt n s (s\<lparr>pool_main := To_Destroy (tasks_completed s)\<rparr>)"
| t_destroy: "pool_main s = To_Destroy c \<Longrightarrow>
    pool_test_step stop nt n s (s\<lparr>bench_pool := (bench_pool s)\<lparr>p_threads := (p_threads (bench_pool s))(nt := Calling Drain), destroying := True\<rparr>,
      pool_main := Destroying c\<rparr>)"
| t_destroyed: "pool_main s = Destroying c \<Longrightarrow> p_threads (bench_pool s) nt = Returned Joined \<Longrightarrow>
    pool_test_step stop nt n s (s\<lparr>pool_main := Test_Done c (tasks_completed s)\<rparr>)"
| t_inside: "pool_step (bench_pool s) p \<Longrightarrow>
    \<forall>t c. nt \<le> t \<and> p_threads p t = Calling c \<longrightarrow> c = Shut_Down \<or> p_threads (bench_pool s) t = Calling c \<Longrightarrow>
    pool_test_step stop nt n s (s\<lparr>bench_pool := p\<rparr>)"

definition pool_test_init :: "nat \<Rightarrow> pool_bench \<Rightarrow> bool" where
  "pool_test_init nt s \<longleftrightarrow> pool_sys_init (int nt) (bench_pool s) \<and> pool_main s = To_Submit 0"

text \<open>
  \<open>main\<close>: the correctness test, then \<open>benchmark\<close> for 1, 2, 4, 8 and 16 workers, then one with high load.
  Each test has a pool of its own and sets the counter to 0. The loop doubles its variable, which is
  never 0.
\<close>

function scaling_threads :: "nat \<Rightarrow> nat list" where
  "scaling_threads t = (if 0 < t \<and> t \<le> 16 then t # scaling_threads (t * 2) else [])"
  by pat_completeness auto

termination by (relation "measure (\<lambda>t. 17 - t)") auto

definition pool_tests :: "(bool \<times> nat \<times> nat) list" where
  "pool_tests = (False, 4, 100) # map (\<lambda>t. (True, t, 10000)) (scaling_threads 1) @ [(True, 8, 100000)]"

text \<open>A test has printed \<open>c\<close> after the wait, and the counter was \<open>d\<close> at the end.\<close>

definition pool_test_ends :: "bool \<times> nat \<times> nat \<Rightarrow> nat \<times> nat \<Rightarrow> bool" where
  "pool_test_ends = (\<lambda>(stop, nt, n) (c, d).
     \<exists>s. reachable (pool_test_init nt) (pool_test_step stop nt n) s \<and> pool_main s = Test_Done c d)"

section \<open>Inside a call\<close>

text \<open>The threads that are in \<open>thread_pool_destroy\<close>.\<close>

definition in_destroy :: "(('f, 'a) pool_call, ('f, 'a) pool_ret) pc \<Rightarrow> bool" where
  "in_destroy x \<longleftrightarrow> in_call Drain x \<or> in_call Shut_Down x \<or> result_is Drained x \<or> result_is Flagged x \<or> x = Returned Joined"

text \<open>A step inside the pool, seen from the only client.\<close>

lemma pool_step_inside:
  assumes st: "pool_step s s'" and idle: "\<forall>t>nt. p_threads s t = Idle" and nt: "num_threads (the_pool s) = int nt"
    and roles: "roles (int nt) (p_threads s)"
    and c: "\<forall>t c. nt \<le> t \<and> p_threads s' t = Calling c \<longrightarrow> c = Shut_Down \<or> p_threads s t = Calling c"
  obtains
    (worker) "p_threads s' nt = p_threads s nt \<or> (\<exists>c. p_threads s nt = Sleeping c \<and> p_threads s' nt = Woken c)"
      "submitted s' = submitted s" "shutdown (the_pool s') = shutdown (the_pool s)"
      "\<forall>t>nt. p_threads s' t = Idle"
  | (stay) c where "in_call c (p_threads s nt)" "in_call c (p_threads s' nt)" "submitted s' = submitted s"
      "shutdown (the_pool s') = shutdown (the_pool s)" "\<forall>t>nt. p_threads s' t = Idle"
  | (unlock) r where "p_threads s nt = Leaving r" "p_threads s' nt = Returned r" "submitted s' = submitted s"
      "shutdown (the_pool s') = shutdown (the_pool s)" "\<forall>t>nt. p_threads s' t = Idle"
  | (submit) k where "p_threads s nt = Inside (Submit k)" "p_threads s' nt = Leaving (Submitted 0)"
      "submitted s' = submitted s @ [Some k]" "shutdown (the_pool s') = shutdown (the_pool s)" "\<forall>t>nt. p_threads s' t = Idle"
  | (fail) k where "in_call (Submit k) (p_threads s nt)" "shutdown (the_pool s) \<or> func k = None"
  | (empty) "p_threads s nt = Inside Wait_All" "p_threads s' nt = Leaving Empty_Seen" "submitted s' = submitted s"
      "the_pool s' = the_pool s" "\<not> pool_must_wait (the_pool s) Wait_All" "\<forall>t>nt. p_threads s' t = Idle"
  | (destroy) "in_destroy (p_threads s nt)" "in_destroy (p_threads s' nt)" "submitted s' = submitted s" "\<forall>t>nt. p_threads s' t = Idle"
      "p_threads s nt \<noteq> Returned Joined"
proof -
  have le: "t \<le> nt" if "p_threads s t \<noteq> Idle" for t using idle that by (meson not_le)
  have worker_is: "worker_pc (p_threads s t)" if "t < nt" for t using rolesD [OF roles, of t] that by (simp add: role_def)
  have client_is: "client_pc (p_threads s nt)" using rolesD [OF roles, of nt] by (simp add: role_def)
  have mine: "t = nt" if "p_threads s t \<noteq> Idle" "\<not> worker_pc (p_threads s t)" for t
    using le [OF that(1)] that(2) worker_is by (metis le_neq_implies_less)
  have keep: thesis if "t \<le> nt" "t \<noteq> nt" "p_threads s' = (p_threads s)(t := x)" "submitted s' = submitted s" "shutdown (the_pool s') = shutdown (the_pool s)" for t x
    by (rule worker) (use that idle in auto)
  have quiet: thesis if "t \<le> nt" "p_threads s' = (p_threads s)(t := x)" "in_call c (p_threads s t)" "in_call c x"
      "submitted s' = submitted s" "the_pool s' = the_pool s" for t x c
    by (cases "t = nt") (use that idle in \<open>auto intro: keep stay [of c]\<close>)
  from st show thesis
  proof (cases rule: pool_step.cases)
    case (p_call t c')
    then have "p_threads s' t = Calling c'" "nt \<le> t" using nt by simp_all
    with c have "c' = Shut_Down \<or> p_threads s t = Calling c'" by blast
    with p_call show ?thesis by (auto simp: client_may_call_def)
  next
    case (p_destroy t)
    then have "p_threads s' t = Calling Drain" "nt \<le> t" using nt by simp_all
    with c have "p_threads s t = Calling Drain" by blast
    with p_destroy show ?thesis by (auto simp: client_may_call_def)
  next
    case (p_null_func t k)
    then have "t = nt" using mine [of t] by simp
    with p_null_func show ?thesis by (intro fail [of k]) (simp_all add: in_call_def)
  next
    case (p_lock t c')
    then show ?thesis using le [of t] by (intro quiet [of t "Inside c'" c']) (simp_all add: in_call_def)
  next
    case (p_wait t c')
    then show ?thesis using le [of t] by (intro quiet [of t "Sleeping c'" c']) (simp_all add: in_call_def)
  next
    case (p_wakeup t c')
    then show ?thesis using le [of t] by (intro quiet [of t "Woken c'" c']) (simp_all add: in_call_def)
  next
    case (p_relock t c')
    then show ?thesis using le [of t] by (intro quiet [of t "Inside c'" c']) (simp_all add: in_call_def)
  next
    case (p_reject t k)
    then have "t = nt" using mine [of t] by simp
    with p_reject show ?thesis by (intro fail [of k]) (simp_all add: in_call_def)
  next
    case (p_submit t k p' g)
    then have t: "t = nt" using mine [of t] by simp
    note w = wakes_signal [OF p_submit(6)]
    have "g nt = Leaving (Submitted 0)" using wakes_awake [OF w, of nt] t by simp
    moreover have "shutdown p' = shutdown (the_pool s)"
      using p_submit(5) by (auto simp: submit_body_def bind_r_Inr split: if_splits)
    moreover have "g u = Idle" if "nt < u" for u using wakes_awake [OF w, of u] that t idle by simp
    ultimately show ?thesis using p_submit t by (intro submit [of k]) auto
  next
    case (p_exit t)
    then have "t \<le> nt" "t \<noteq> nt" using le [of t] client_is by auto
    then show ?thesis using p_exit by (intro keep [of t]) simp_all
  next
    case (p_take t task p' g)
    then have t: "t \<le> nt" "t \<noteq> nt" using le [of t] client_is by auto
    note w = wakes_take_signals [OF p_take(6)]
    have "shutdown p' = shutdown (the_pool s)"
      using p_take(5) by (auto simp: take_body_def bind_r_Inr Let_def split: if_splits)
    moreover have "g u = Idle" if "nt < u" for u using wakes_awake [OF w, of u] that t idle by simp
    moreover have "g nt = p_threads s nt \<or> (\<exists>c. p_threads s nt = Sleeping c \<and> g nt = Woken c)"
      using t by (cases rule: wakesE [OF w, of nt]) auto
    ultimately show ?thesis using p_take by (intro worker) auto
  next
    case (p_run t task)
    then have "t \<le> nt" "t \<noteq> nt" using le [of t] client_is by auto
    then show ?thesis using p_run by (intro keep [of t]) simp_all
  next
    case (p_empty t)
    then have "t = nt" using mine [of t] by simp
    with p_empty idle show ?thesis by (intro empty) auto
  next
    case (p_drained t)
    then have "t = nt" using mine [of t] by simp
    with p_drained idle show ?thesis by (intro destroy) (auto simp: in_destroy_def in_call_def)
  next
    case (p_call_shut t)
    then have "t = nt" using mine [of t] by simp
    with p_call_shut idle show ?thesis by (intro destroy) (auto simp: in_destroy_def in_call_def)
  next
    case (p_shut t)
    then have "t = nt" using mine [of t] by simp
    with p_shut idle show ?thesis by (intro destroy) (auto simp: in_destroy_def in_call_def broadcast_def)
  next
    case (p_unlock t r)
    then show ?thesis using le [of t] idle by (cases "t = nt") (auto intro: unlock keep)
  next
    case (p_join t)
    then have "t = nt" using mine [of t] by simp
    with p_join idle show ?thesis by (intro destroy) (auto simp: in_destroy_def in_call_def)
  qed (auto intro: worker simp: idle)
qed

section \<open>Invariant\<close>

definition test_main_ok :: "nat \<Rightarrow> nat \<Rightarrow> (unit, nat) pool_sys \<Rightarrow> pool_main \<Rightarrow> bool" where
  "test_main_ok nt n p m =
     (let x = p_threads p nt; sub = length (submitted p) in
      case m of
        To_Submit i \<Rightarrow> i \<le> n \<and> sub = i \<and> \<not> shutdown (the_pool p) \<and> (x = Idle \<or> x = Returned (Submitted 0))
      | Submitting i \<Rightarrow> i < n \<and> \<not> shutdown (the_pool p) \<and>
          (in_call (Submit (simple_task i)) x \<and> sub = i \<or> result_is (Submitted 0) x \<and> sub = Suc i)
      | To_Wait \<Rightarrow> sub = n \<and> \<not> shutdown (the_pool p) \<and> (x = Idle \<or> x = Returned (Submitted 0))
      | Waiting \<Rightarrow> sub = n \<and> \<not> shutdown (the_pool p) \<and>
          (in_call Wait_All x \<or> result_is Empty_Seen x \<and> length (started p) = n)
      | To_Destroy c \<Rightarrow> sub = n \<and> c \<le> n \<and> n \<le> c + nt \<and> x = Returned Empty_Seen
      | Destroying c \<Rightarrow> sub = n \<and> c \<le> n \<and> n \<le> c + nt \<and> in_destroy x
      | Test_Done c d \<Rightarrow> c \<le> n \<and> n \<le> c + nt \<and> d = n \<and> x = Returned Joined)"

definition before_destroy :: "pool_main \<Rightarrow> bool" where
  "before_destroy m \<longleftrightarrow> (\<forall>c. m \<noteq> Destroying c) \<and> (\<forall>c d. m \<noteq> Test_Done c d)"

definition pool_test_inv :: "nat \<Rightarrow> nat \<Rightarrow> pool_bench \<Rightarrow> bool" where
  "pool_test_inv nt n s \<longleftrightarrow> pool_sys_inv (int nt) (bench_pool s) \<and> (\<forall>t>nt. p_threads (bench_pool s) t = Idle) \<and>
     (before_destroy (pool_main s) \<longrightarrow> \<not> destroying (bench_pool s)) \<and> test_main_ok nt n (bench_pool s) (pool_main s)"

lemma pool_test_inv_init: "pool_test_init nt s \<Longrightarrow> pool_test_inv nt n s"
  using pool_sys.inv_init [of "int nt" "bench_pool s"]
  by (auto simp: pool_test_init_def pool_test_inv_def pool_sys_init_def test_main_ok_def dest: thread_pool_create_Some)

lemma size_running: "size (running n f) \<le> nat n"
proof -
  have "size (running_task x) \<le> 1" for x :: "(('a, 'b) pool_call, ('a, 'b) pool_ret) pc"
    by (cases x rule: running_task.cases) auto
  then have "(\<Sum>t<nat n. size (running_task (f t))) \<le> (\<Sum>t<nat n. 1)" by (intro sum_mono)
  then show ?thesis by (simp add: running_def)
qed

lemma started_grows: "pool_step s s' \<Longrightarrow> length (started s) \<le> length (started s')"
  by (cases rule: pool_step.cases) auto

lemma destroying_stays:
  assumes "pool_step s s'" "\<forall>t c. nt \<le> t \<and> p_threads s' t = Calling c \<longrightarrow> c = Shut_Down \<or> p_threads s t = Calling c"
    and "num_threads (the_pool s) = int nt"
  shows "destroying s' = destroying s"
  using assms(1)
proof (cases rule: pool_step.cases)
  case (p_destroy t)
  then have "p_threads s' t = Calling Drain" "nt \<le> t" using assms(3) by simp_all
  with assms(2) have "p_threads s t = Calling Drain" by blast
  with p_destroy show ?thesis by (auto simp: client_may_call_def)
qed simp_all

lemma pool_test_inside:
  assumes inv: "pool_test_inv nt n s" and st: "pool_step (bench_pool s) p"
    and c: "\<forall>t c. nt \<le> t \<and> p_threads p t = Calling c \<longrightarrow> c = Shut_Down \<or> p_threads (bench_pool s) t = Calling c"
  shows "pool_test_inv nt n (s\<lparr>bench_pool := p\<rparr>)"
proof -
  have i: "pool_sys_inv (int nt) (bench_pool s)" "\<forall>t>nt. p_threads (bench_pool s) t = Idle" "test_main_ok nt n (bench_pool s) (pool_main s)"
    using inv by (simp_all add: pool_test_inv_def)
  have d: "num_threads (the_pool (bench_pool s)) = int nt" "roles (int nt) (p_threads (bench_pool s))"
      "submitted (bench_pool s) = started (bench_pool s) @ pool_contents (the_pool (bench_pool s))" "pool_inv (the_pool (bench_pool s))"
    using i(1) by (auto simp: pool_sys_inv_def pool_data_inv_def)
  have p: "pool_sys_inv (int nt) p" using pool_sys.inv_step [OF st i(1)] .
  then have d': "length (started p) \<le> length (submitted p)" by (auto simp: pool_sys_inv_def pool_data_inv_def)
  note g = started_grows [OF st]
  have "(\<forall>t>nt. p_threads p t = Idle) \<and> test_main_ok nt n p (pool_main s)"
    using st i(2) d(1,2) c
  proof (cases rule: pool_step_inside)
    case worker
    then have "in_call c (p_threads p nt) = in_call c (p_threads (bench_pool s) nt)" "result_is r (p_threads p nt) = result_is r (p_threads (bench_pool s) nt)"
       "in_destroy (p_threads p nt) = in_destroy (p_threads (bench_pool s) nt)"
       "p_threads p nt = Idle \<longleftrightarrow> p_threads (bench_pool s) nt = Idle" "p_threads p nt = Returned r \<longleftrightarrow> p_threads (bench_pool s) nt = Returned r" for c r
      by (auto simp: in_call_def result_is_def in_destroy_def)
    then show ?thesis using worker i(3) g d' by (auto simp: test_main_ok_def Let_def split: pool_main.splits)
  next
    case (stay c)
    have "in_call d (p_threads (bench_pool s) nt) \<longleftrightarrow> d = c" "in_call d (p_threads p nt) \<longleftrightarrow> d = c"
       "\<not> result_is r (p_threads (bench_pool s) nt)" "p_threads (bench_pool s) nt \<noteq> Idle" "p_threads (bench_pool s) nt \<noteq> Returned r" for d r
      using stay(1,2) by (auto simp: in_call_def result_is_def)
    then show ?thesis using i(3) stay(3-5)
      by (cases "pool_main s") (simp_all add: test_main_ok_def Let_def in_destroy_def, blast)
  next
    case (unlock r)
    then show ?thesis using i(3) g d' by (auto simp: test_main_ok_def Let_def in_destroy_def in_call_def split: pool_main.splits)
  next
    case (submit k)
    then show ?thesis using i(3)
      by (cases "pool_main s") (simp_all add: test_main_ok_def Let_def in_destroy_def in_call_def)
  next
    case (fail k)
    have n: "in_call d (p_threads (bench_pool s) nt) \<longleftrightarrow> d = Submit k" "\<not> result_is r (p_threads (bench_pool s) nt)"
       "p_threads (bench_pool s) nt \<noteq> Idle" "p_threads (bench_pool s) nt \<noteq> Returned r" for d r
      using fail(1) by (auto simp: in_call_def result_is_def)
    have "func (simple_task i) = Some ()" for i by (simp add: simple_task_def)
    then show ?thesis using i(3) fail(2) n
      by (cases "pool_main s") (auto simp: test_main_ok_def Let_def in_destroy_def n)
  next
    case empty
    have "\<not> shutdown (the_pool (bench_pool s)) \<Longrightarrow> length (started (bench_pool s)) = length (submitted (bench_pool s))"
      using empty(5) d(3,4) by (simp add: pool_contents_def)
    then show ?thesis using empty(1-4,6) i(3) g d'
      by (cases "pool_main s") (simp_all add: test_main_ok_def Let_def in_destroy_def in_call_def)
  next
    case destroy
    have n: "\<not> in_call Wait_All (p_threads (bench_pool s) nt)" "\<not> in_call (Submit k) (p_threads (bench_pool s) nt)"
      "p_threads (bench_pool s) nt \<noteq> Idle" "\<not> result_is Empty_Seen (p_threads (bench_pool s) nt)"
      "\<not> result_is (Submitted r) (p_threads (bench_pool s) nt)" "p_threads (bench_pool s) nt \<noteq> Returned Empty_Seen"
      "p_threads (bench_pool s) nt \<noteq> Returned (Submitted r)" for k r
      using destroy(1) by (auto simp: in_destroy_def in_call_def result_is_def)
    show ?thesis using destroy(2-5) i(3) n
      by (cases "pool_main s") (simp_all add: test_main_ok_def Let_def)
  qed
  then show ?thesis using inv p destroying_stays [OF st c d(1)] by (simp add: pool_test_inv_def)
qed

text \<open>Every step of the test is a step of the pool or leaves it alone.\<close>

lemma pool_test_pool_step:
  assumes "pool_test_step stop nt n s s'" "pool_test_inv nt n s"
  shows "bench_pool s' = bench_pool s \<or> pool_step (bench_pool s) (bench_pool s')"
proof -
  have n: "num_threads (the_pool (bench_pool s)) = int nt" and ok: "test_main_ok nt n (bench_pool s) (pool_main s)"
    and d: "before_destroy (pool_main s) \<longrightarrow> \<not> destroying (bench_pool s)"
    using assms(2) by (auto simp: pool_test_inv_def pool_sys_inv_def pool_data_inv_def)
  from assms(1) show ?thesis
  proof (cases rule: pool_test_step.cases)
    case (t_submit i)
    then have "client_may_call (p_threads (bench_pool s) nt)" using ok by (auto simp: test_main_ok_def client_may_call_def Let_def)
    then show ?thesis using t_submit n p_call [of "bench_pool s" nt] by (simp add: main_calls_def)
  next
    case t_wait
    then have "client_may_call (p_threads (bench_pool s) nt)" using ok by (auto simp: test_main_ok_def client_may_call_def Let_def)
    then show ?thesis using t_wait n p_call [of "bench_pool s" nt] by (simp add: main_calls_def)
  next
    case (t_destroy c)
    then have "client_may_call (p_threads (bench_pool s) nt)" "\<not> destroying (bench_pool s)"
      using ok d by (auto simp: test_main_ok_def client_may_call_def Let_def before_destroy_def)
    then have "pool_step (bench_pool s) ((bench_pool s)\<lparr>p_threads := (p_threads (bench_pool s))(nt := Calling Drain), destroying := True\<rparr>)"
      using n by (intro p_destroy) simp_all
    then show ?thesis using t_destroy by (simp add: main_calls_def)
  qed auto
qed

lemma pool_test_inv_step:
  assumes "pool_test_step stop nt n s s'" "pool_test_inv nt n s"
  shows "pool_test_inv nt n s'"
proof -
  have i: "pool_sys_inv (int nt) (bench_pool s)" "\<forall>t>nt. p_threads (bench_pool s) t = Idle" "test_main_ok nt n (bench_pool s) (pool_main s)"
      "before_destroy (pool_main s) \<longrightarrow> \<not> destroying (bench_pool s)"
    using assms(2) by (simp_all add: pool_test_inv_def)
  have p: "pool_sys_inv (int nt) (bench_pool s')"
    using pool_test_pool_step [OF assms] pool_sys.inv_step [of "bench_pool s" "bench_pool s'" "int nt"] i(1) by auto
  have task: "mset (started (bench_pool s)) = mset (finished (bench_pool s)) + running (int nt) (p_threads (bench_pool s))"
    using i(1) by (simp add: pool_sys_inv_def pool_task_inv_def)
  from assms(1) show ?thesis
  proof (cases rule: pool_test_step.cases)
    case t_print
    then have "length (started (bench_pool s)) = n" "length (submitted (bench_pool s)) = n" using i(3) by (auto simp: test_main_ok_def Let_def in_call_def)
    moreover have "length (started (bench_pool s)) = tasks_completed s + size (running (int nt) (p_threads (bench_pool s)))"
      using arg_cong [OF task, of size] by (simp add: tasks_completed_def)
    ultimately show ?thesis using t_print i p size_running [of "int nt" "p_threads (bench_pool s)"]
      by (auto simp: pool_test_inv_def test_main_ok_def Let_def before_destroy_def)
  next
    case (t_destroyed c)
    then have "mset (finished (bench_pool s)) = mset (submitted (bench_pool s))" using pool_joined [OF i(1)] by blast
    then have "tasks_completed s = length (submitted (bench_pool s))" unfolding tasks_completed_def by (metis size_mset)
    then show ?thesis using t_destroyed i p by (auto simp: pool_test_inv_def test_main_ok_def Let_def before_destroy_def)
  next
    case (t_inside q)
    then show ?thesis using pool_test_inside [OF assms(2)] by simp
  qed (use i p in \<open>auto simp: pool_test_inv_def test_main_ok_def Let_def before_destroy_def main_calls_def in_call_def in_destroy_def
    split: if_splits\<close>)
qed

interpretation pool_test: simulation "pool_test_init nt" "pool_test_step stop nt n" "pool_test_inv nt n"
  "pool_sys_init (int nt)" pool_step bench_pool for stop nt n
proof unfold_locales
  show "pool_test_init nt s \<Longrightarrow> pool_test_inv nt n s" for s by (rule pool_test_inv_init)
  show "pool_test_step stop nt n s t \<Longrightarrow> pool_test_inv nt n s \<Longrightarrow> pool_test_inv nt n t" for s t by (rule pool_test_inv_step)
  show "pool_test_init nt s \<Longrightarrow> pool_sys_init (int nt) (bench_pool s)" for s by (simp add: pool_test_init_def)
  show "pool_test_step stop nt n s t \<Longrightarrow> pool_test_inv nt n s \<Longrightarrow> bench_pool t = bench_pool s \<or> pool_step (bench_pool s) (bench_pool t)" for s t
    by (rule pool_test_pool_step)
qed

section \<open>A run of a test\<close>

text \<open>
  Worker 0 does all the work while the other workers have not got the mutex yet; \<open>x\<close> is where the main
  thread is in the pool and \<open>y\<close> where worker 0 is.
\<close>

definition one_worker ::
  "nat \<Rightarrow> pool_main \<Rightarrow> (unit, nat) thread_pool \<Rightarrow> nat option \<Rightarrow> ((unit, nat) pool_call, (unit, nat) pool_ret) pc \<Rightarrow>
   ((unit, nat) pool_call, (unit, nat) pool_ret) pc \<Rightarrow> (unit, nat) task_t option list \<Rightarrow> (unit, nat) task_t option list \<Rightarrow>
   (unit, nat) task_t option list \<Rightarrow> pool_bench" where
  "one_worker nt m q ow x y sub st fin =
     \<lparr>bench_pool = \<lparr>the_pool = q, p_owner = ow, p_threads = (\<lambda>t. if t < nt then Calling Work else Idle)(nt := x, 0 := y),
        destroying = False, submitted = sub, started = st, finished = fin, p_fault = None\<rparr>, pool_main = m\<rparr>"

lemma one_worker_simps [simp]:
  "pool_main (one_worker nt m q ow x y sub st fin) = m" "the_pool (bench_pool (one_worker nt m q ow x y sub st fin)) = q"
  "p_owner (bench_pool (one_worker nt m q ow x y sub st fin)) = ow" "finished (bench_pool (one_worker nt m q ow x y sub st fin)) = fin"
  "p_threads (bench_pool (one_worker nt m q ow x y sub st fin)) 0 = y"
  "0 < nt \<Longrightarrow> p_threads (bench_pool (one_worker nt m q ow x y sub st fin)) nt = x"
  by (simp_all add: one_worker_def)

lemma run_pool:
  assumes "reachable (pool_test_init nt) (pool_test_step stop nt n) s" "pool_step (bench_pool s) p"
    and "\<forall>t c. nt \<le> t \<and> p_threads p t = Calling c \<longrightarrow> c = Shut_Down \<or> p_threads (bench_pool s) t = Calling c"
    and "s\<lparr>bench_pool := p\<rparr> = s'"
  shows "reachable (pool_test_init nt) (pool_test_step stop nt n) s'"
  by (rule reach_via [OF assms(1) t_inside [OF assms(2,3)] assms(4)])

lemma run_lock_main:
  assumes "reachable (pool_test_init nt) (pool_test_step stop nt n) (one_worker nt m q None (Calling c) y sub st fin)" "0 < nt"
    and "\<forall>k. c = Submit k \<longrightarrow> func k \<noteq> None"
  shows "reachable (pool_test_init nt) (pool_test_step stop nt n) (one_worker nt m q (Some nt) (Inside c) y sub st fin)"
  by (rule run_pool [OF assms(1)], rule p_lock [where t = nt and c = c])
    (use assms(2,3) in \<open>auto simp: one_worker_def fun_eq_iff\<close>)

lemma run_unlock_main:
  assumes "reachable (pool_test_init nt) (pool_test_step stop nt n) (one_worker nt m q (Some nt) (Leaving r) y sub st fin)" "0 < nt"
  shows "reachable (pool_test_init nt) (pool_test_step stop nt n) (one_worker nt m q None (Returned r) y sub st fin)"
  by (rule run_pool [OF assms(1)], rule p_unlock [where t = nt and r = r])
    (use assms(2) in \<open>auto simp: one_worker_def fun_eq_iff\<close>)

lemma run_submit:
  assumes r: "reachable (pool_test_init nt) (pool_test_step stop nt n) (one_worker nt (To_Submit i) q None x (Calling Work) sub st fin)"
    and nt: "0 < nt" and i: "i < n" and q: "pool_inv q" "queue_size q = 0" "\<not> shutdown q"
  shows "\<exists>q'. reachable (pool_test_init nt) (pool_test_step stop nt n)
      (one_worker nt (To_Submit (Suc i)) q' None (Returned (Submitted 0)) (Calling Work) (sub @ [Some (simple_task i)]) st fin) \<and>
    pool_inv q' \<and> queue_size q' = 1 \<and> \<not> shutdown q'"
proof -
  let ?R = "reachable (pool_test_init nt) (pool_test_step stop nt n)" and ?k = "simple_task i"
  have "0 < queue_capacity q" using q(1) by (auto simp: pool_inv_def QUEUE_CAPACITY_MULTIPLIER_def)
  then obtain q' where q': "submit_body q (Some ?k) = Inr q'" "pool_inv q'" "queue_size q' = 1" "shutdown q' = shutdown q"
    using submit_body_ok [OF q(1), of "Some ?k"] q(2) by auto
  have "?R (one_worker nt (Submitting i) q None (Calling (Submit ?k)) (Calling Work) sub st fin)"
    by (rule reach_via [OF r t_submit]) (use nt i in \<open>auto simp: main_calls_def one_worker_def fun_eq_iff\<close>)
  from run_lock_main [OF this nt]
  have "?R (one_worker nt (Submitting i) q (Some nt) (Inside (Submit ?k)) (Calling Work) sub st fin)" by (simp add: simple_task_def)
  then have "?R (one_worker nt (Submitting i) q' (Some nt) (Leaving (Submitted 0)) (Calling Work) (sub @ [Some ?k]) st fin)"
  proof (rule run_pool)
    let ?s = "bench_pool (one_worker nt (Submitting i) q (Some nt) (Inside (Submit ?k)) (Calling Work) sub st fin)"
    let ?g = "(p_threads ?s)(nt := Leaving (Submitted 0))"
    have "\<not> sleeps on_cond_work (?g u)" for u by (simp add: one_worker_def)
    then have "signal_one on_cond_work ?g ?g" by (simp add: signal_one_def)
    then show "pool_step ?s (?s\<lparr>the_pool := q', p_threads := ?g, submitted := submitted ?s @ [Some ?k]\<rparr>)"
      by (intro p_submit) (use nt q q'(1) \<open>0 < queue_capacity q\<close> in simp_all)
  qed (use nt in \<open>auto simp: one_worker_def fun_eq_iff\<close>)
  note u = run_unlock_main [OF this nt]
  have "?R (one_worker nt (To_Submit (Suc i)) q' None (Returned (Submitted 0)) (Calling Work) (sub @ [Some ?k]) st fin)"
    by (rule reach_via [OF u t_submitted [where i = i and r = 0]]) (use nt in \<open>auto simp: one_worker_def\<close>)
  with q' q(3) show ?thesis by auto
qed

lemma run_take:
  assumes r: "reachable (pool_test_init nt) (pool_test_step stop nt n) (one_worker nt m q None (Returned x) (Calling Work) sub st fin)"
    and nt: "0 < nt" and q: "pool_inv q" "queue_size q = 1" "\<not> shutdown q"
  shows "\<exists>q' k. reachable (pool_test_init nt) (pool_test_step stop nt n)
      (one_worker nt m q' None (Returned x) (Returned (Run k)) sub (st @ [k]) fin) \<and> pool_inv q' \<and> queue_size q' = 0 \<and> \<not> shutdown q'"
proof -
  let ?R = "reachable (pool_test_init nt) (pool_test_step stop nt n)"
  obtain k q' where q': "take_body q = Inr (k, q')" "pool_inv q'" "queue_size q' = 0" "shutdown q' = shutdown q" "queue_capacity q' = queue_capacity q"
    using take_body_ok [OF q(1)] q(2) by auto
  have "?R (one_worker nt m q (Some 0) (Returned x) (Inside Work) sub st fin)"
    by (rule run_pool [OF r], rule p_lock [where t = 0 and c = Work]) (use nt in \<open>auto simp: one_worker_def fun_eq_iff\<close>)
  then have "?R (one_worker nt m q' (Some 0) (Returned x) (Leaving (Run k)) sub (st @ [k]) fin)"
  proof (rule run_pool)
    let ?s = "bench_pool (one_worker nt m q (Some 0) (Returned x) (Inside Work) sub st fin)"
    let ?g = "(p_threads ?s)(0 := Leaving (Run k))"
    have "\<not> sleeps p (?g u)" for p u using nt by (simp add: one_worker_def)
    then have "broadcast on_cond_work ?g = ?g" "signal_one on_cond_empty ?g ?g" by (auto simp: signal_one_def broadcast_def fun_eq_iff)
    then have "take_signals q' ?g ?g" by (simp add: take_signals_def Let_def)
    then show "pool_step ?s (?s\<lparr>the_pool := q', p_threads := ?g, started := started ?s @ [k]\<rparr>)"
      by (intro p_take) (use nt q q'(1) in simp_all)
  qed (use nt in \<open>auto simp: one_worker_def fun_eq_iff\<close>)
  note l = this
  have "?R (one_worker nt m q' None (Returned x) (Returned (Run k)) sub (st @ [k]) fin)"
    by (rule run_pool [OF l], rule p_unlock [where t = 0 and r = "Run k"]) (use nt in \<open>auto simp: one_worker_def fun_eq_iff\<close>)
  with q' q(3) show ?thesis by auto
qed

lemma run_finish:
  assumes "reachable (pool_test_init nt) (pool_test_step stop nt n) (one_worker nt m q None x (Returned (Run k)) sub st fin)" "0 < nt"
  shows "reachable (pool_test_init nt) (pool_test_step stop nt n) (one_worker nt m q None x (Calling Work) sub st (fin @ [k]))"
  by (rule run_pool [OF assms(1)], rule p_run [where t = 0 and task = k])
    (use assms(2) in \<open>auto simp: one_worker_def fun_eq_iff\<close>)

definition idle_pool :: "nat \<Rightarrow> (unit, nat) thread_pool" where
  "idle_pool nt = \<lparr>num_threads = int nt, pool_queue = replicate (nat (int nt * 10)) None, queue_capacity = int nt * 10,
     queue_size = 0, queue_front = 0, shutdown = False\<rparr>"

lemma start_workers_ok: "snd (start_workers (\<lambda>_. True) i k)"
  by (induction k arbitrary: i) (auto split: prod.splits, metis snd_conv)

lemma run_start:
  assumes "0 < nt" "nt \<le> 107374182"
  shows "reachable (pool_test_init nt) (pool_test_step stop nt n) (one_worker nt (To_Submit 0) (idle_pool nt) None Idle (Calling Work) [] [] [])"
proof (rule reach_init)
  let ?env = "\<lparr>malloc_pool = True, malloc_queue = True, malloc_threads = True, init_mutex = True, init_cond_work = True,
    init_cond_empty = True, create_thread = (\<lambda>_. True)\<rparr>"
  have "\<exists>es. thread_pool_create ?env (int nt) = Inr (es, Some (idle_pool nt))"
    using assms start_workers_ok [of 0 nt]
    by (auto simp: thread_pool_create_def idle_pool_def QUEUE_CAPACITY_MULTIPLIER_def c_int_def INT_MIN_def INT_MAX_def Let_def split: prod.splits)
  then show "pool_test_init nt (one_worker nt (To_Submit 0) (idle_pool nt) None Idle (Calling Work) [] [] [])"
    using assms unfolding pool_test_init_def pool_sys_init_def by (auto simp: one_worker_def fun_eq_iff)
qed

text \<open>After \<open>i\<close> tasks have been submitted and executed one by one.\<close>

lemma run_tasks:
  assumes nt: "0 < nt" "nt \<le> 107374182" and "i \<le> n"
  shows "\<exists>q x sub st fin. reachable (pool_test_init nt) (pool_test_step stop nt n) (one_worker nt (To_Submit i) q None x (Calling Work) sub st fin) \<and>
    length fin = i \<and> pool_inv q \<and> queue_size q = 0 \<and> \<not> shutdown q"
  using assms(3)
proof (induction i)
  case 0
  have "pool_inv (idle_pool nt)" using nt by (simp add: idle_pool_def pool_inv_def QUEUE_CAPACITY_MULTIPLIER_def)
  then show ?case using run_start [OF nt] by (fastforce simp: idle_pool_def)
next
  case (Suc i)
  then obtain q x sub st fin where r: "reachable (pool_test_init nt) (pool_test_step stop nt n) (one_worker nt (To_Submit i) q None x (Calling Work) sub st fin)"
    and q: "length fin = i" "pool_inv q" "queue_size q = 0" "\<not> shutdown q" by auto
  have "i < n" using Suc.prems by simp
  from run_submit [OF r nt(1) this q(2-4)] obtain q1 sub1 where "reachable (pool_test_init nt) (pool_test_step stop nt n)
      (one_worker nt (To_Submit (Suc i)) q1 None (Returned (Submitted 0)) (Calling Work) sub1 st fin)"
    and "pool_inv q1" "queue_size q1 = 1" "\<not> shutdown q1" by blast
  from run_take [OF this(1) nt(1) this(2-4)] obtain q2 k where "reachable (pool_test_init nt) (pool_test_step stop nt n)
      (one_worker nt (To_Submit (Suc i)) q2 None (Returned (Submitted 0)) (Returned (Run k)) sub1 (st @ [k]) fin)"
    and q2: "pool_inv q2" "queue_size q2 = 0" "\<not> shutdown q2" by blast
  moreover have "length (fin @ [k]) = Suc i" using q(1) by simp
  ultimately show ?case using run_finish [OF _ nt(1)] q2 by blast
qed

lemma run_wait:
  assumes r: "reachable (pool_test_init nt) (pool_test_step stop nt n) (one_worker nt (To_Submit n) q None x y sub st fin)"
    and nt: "0 < nt" and q: "queue_size q = 0"
  shows "reachable (pool_test_init nt) (pool_test_step stop nt n) (one_worker nt (To_Destroy (length fin)) q None (Returned Empty_Seen) y sub st fin)"
proof -
  let ?R = "reachable (pool_test_init nt) (pool_test_step stop nt n)"
  have r1: "?R (one_worker nt To_Wait q None x y sub st fin)"
    by (rule reach_via [OF r t_all_submitted [where i = n]]) (simp_all add: one_worker_def)
  have "?R (one_worker nt Waiting q None (Calling Wait_All) y sub st fin)"
    by (rule reach_via [OF r1 t_wait]) (use nt in \<open>auto simp: main_calls_def one_worker_def fun_eq_iff\<close>)
  from run_lock_main [OF this nt] have "?R (one_worker nt Waiting q (Some nt) (Inside Wait_All) y sub st fin)" by simp
  note l = this
  have "?R (one_worker nt Waiting q (Some nt) (Leaving Empty_Seen) y sub st fin)"
    by (rule run_pool [OF l], rule p_empty [where t = nt]) (use nt q in \<open>auto simp: one_worker_def fun_eq_iff\<close>)
  note u = run_unlock_main [OF this nt]
  show ?thesis
    by (rule reach_via [OF u t_print]) (use nt in \<open>auto simp: one_worker_def tasks_completed_def\<close>)
qed

section \<open>Properties\<close>

lemma test_done_counts:
  assumes "reachable (pool_test_init nt) (pool_test_step stop nt n) s" "pool_main s = Test_Done c d"
  shows "d = n"
proof -
  have "test_main_ok nt n (bench_pool s) (pool_main s)" using pool_test.reachable_inv [OF assms(1)] by (simp add: pool_test_inv_def)
  then show ?thesis using assms(2) by (simp add: test_main_ok_def Let_def)
qed

text \<open>
  C37: What a test prints. No submission fails; at most as many tasks as there are workers are missing
  from the number that is printed after \<open>thread_pool_wait_all\<close>; and when \<open>thread_pool_destroy\<close> has returned,
  all tasks have been completed, for every interleaving and whether the loop looks at failures or not.
\<close>

theorem pool_test_counts:
  assumes "reachable (pool_test_init nt) (pool_test_step stop nt n) s"
  shows "(\<forall>c d. pool_main s = Test_Done c d \<longrightarrow> d = n \<and> c \<le> n \<and> n \<le> c + nt) \<and>
    (\<forall>c. pool_main s = To_Destroy c \<longrightarrow> c \<le> n \<and> n \<le> c + nt) \<and>
    (\<forall>i r. pool_main s = Submitting i \<and> p_threads (bench_pool s) nt = Returned (Submitted r) \<longrightarrow> r = 0)"
proof -
  have "test_main_ok nt n (bench_pool s) (pool_main s)" using pool_test.reachable_inv [OF assms] by (simp add: pool_test_inv_def)
  then show ?thesis by (auto simp: test_main_ok_def Let_def in_call_def)
qed

text \<open>So in every run of the whole program each test completes all its tasks.\<close>

theorem pool_program_totals:
  assumes "list_all2 pool_test_ends pool_tests rs"
  shows "map snd rs = [100, 10000, 10000, 10000, 10000, 10000, 100000]"
proof -
  have "snd (snd x) = snd y" if "pool_test_ends x y" for x y
    using that by (auto simp: pool_test_ends_def dest: test_done_counts split: prod.splits)
  with assms have "list_all2 (\<lambda>x y. snd (snd x) = snd y) pool_tests rs" by (rule list_all2_mono)
  then have "map snd rs = map (snd \<circ> snd) pool_tests"
    by (induction rule: list_all2_induct) auto
  also have "scaling_threads 1 = [1, 2, 4, 8, 16]" by (simp add: scaling_threads.simps)
  then have "map (snd \<circ> snd) pool_tests = [100, 10000, 10000, 10000, 10000, 10000, 100000]" by (simp add: pool_tests_def)
  finally show ?thesis .
qed

text \<open>
  The correctness test can fail: with any number of workers and tasks there is a run in which the
  number that is printed, and compared with the number of submitted tasks, is one too small.
\<close>

theorem pool_test_can_fail:
  assumes "0 < nt" "nt \<le> 107374182" "0 < n"
  shows "\<exists>s. reachable (pool_test_init nt) (pool_test_step stop nt n) s \<and> pool_main s = To_Destroy (n - 1)"
proof -
  obtain i where i: "n = Suc i" using assms(3) by (cases n) auto
  from run_tasks [OF assms(1,2), of i n stop] obtain q x sub st fin where
    r: "reachable (pool_test_init nt) (pool_test_step stop nt n) (one_worker nt (To_Submit i) q None x (Calling Work) sub st fin)"
    and q: "length fin = i" "pool_inv q" "queue_size q = 0" "\<not> shutdown q" using i by auto
  from run_submit [OF r assms(1) _ q(2-4)] i obtain q1 sub1 where "reachable (pool_test_init nt) (pool_test_step stop nt n)
      (one_worker nt (To_Submit n) q1 None (Returned (Submitted 0)) (Calling Work) sub1 st fin)"
    and "pool_inv q1" "queue_size q1 = 1" "\<not> shutdown q1" by blast
  from run_take [OF this(1) assms(1) this(2-4)] obtain q2 k where "reachable (pool_test_init nt) (pool_test_step stop nt n)
      (one_worker nt (To_Submit n) q2 None (Returned (Submitted 0)) (Returned (Run k)) sub1 (st @ [k]) fin)" "queue_size q2 = 0" by blast
  from run_wait [OF this(1) assms(1) this(2)] q(1) i show ?thesis
    by - (rule exI, rule conjI, assumption, simp)
qed

text \<open>The test of the program: 4 workers, 100 tasks.\<close>

theorem pool_test_can_fail_witness:
  "\<exists>s. reachable (pool_test_init 4) (pool_test_step False 4 100) s \<and> pool_main s = To_Destroy (100 - 1)"
  by (rule pool_test_can_fail) simp_all

theorem pool_test_counts_witness:
  "\<exists>s c. reachable (pool_test_init 2) (pool_test_step True 2 3) s \<and> pool_main s = To_Destroy c \<and> c \<le> 3 \<and> 3 \<le> c + 2"
proof -
  from run_tasks [of 2 3 3 True] obtain q x sub st fin where
    r: "reachable (pool_test_init 2) (pool_test_step True 2 3) (one_worker 2 (To_Submit 3) q None x (Calling Work) sub st fin)"
    and q: "queue_size q = 0" by auto
  have "reachable (pool_test_init 2) (pool_test_step True 2 3)
      (one_worker 2 (To_Destroy (length fin)) q None (Returned Empty_Seen) (Calling Work) sub st fin)" (is "reachable _ _ ?s")
    by (rule run_wait [OF r _ q]) simp
  moreover have "pool_main ?s = To_Destroy (length fin)" by simp
  ultimately show ?thesis using pool_test_counts [of 2 True 3 ?s] by blast
qed

end
