(* ===== verification/Allocator.thy ===== *)
theory Allocator
  imports Prelude
begin

text \<open>
  The allocator of \<open>02_memory/custom_malloc/allocator.c\<close>: a heap obtained from \<open>malloc\<close>, cut into
  blocks that start with a \<open>BlockHeader\<close>, with the free blocks chained through their headers.

  Memory is a function from addresses to 64-bit cells. A header at address \<open>a\<close> occupies three
  cells: \<open>size\<close> at \<open>a\<close>, \<open>is_free\<close> in the low half of the cell at \<open>a + 8\<close> (the other half is
  padding), \<open>next\<close> at \<open>a + 16\<close>. Every access checks alignment and that it stays inside a region
  obtained from \<open>malloc\<close>, so that headers written over each other or past the end of the heap
  show up in the model. The values of type \<open>size_t\<close> are natural numbers below \<open>2 ^ 64\<close> with the
  wrap-around written out; the null pointer is \<open>0\<close>.

  The first part translates the code. The second relates it to an abstract heap: a sequence of
  free blocks and a sequence of blocks in use that together partition the memory, with first-fit
  allocation, release and merging as operations on the sequences. The third states what a client
  may rely on, and what happens outside these bounds.
\<close>

unbundle bit_operations_syntax

section \<open>The code\<close>

subsection \<open>Unsigned 64-bit arithmetic and memory access\<close>

definition add64 :: "nat \<Rightarrow> nat \<Rightarrow> nat" where
  "add64 x y = (x + y) mod 2 ^ 64"

definition sub64 :: "nat \<Rightarrow> nat \<Rightarrow> nat" where
  "sub64 x y = (x + (2 ^ 64 - y mod 2 ^ 64)) mod 2 ^ 64"

text \<open>The macros \<open>ALIGNMENT\<close>, \<open>ALIGN\<close> and \<open>HEADER_SIZE\<close>; \<open>sizeof (BlockHeader)\<close> is 24.\<close>

definition ALIGNMENT :: "64 word" where
  "ALIGNMENT = 8"

definition ALIGN :: "nat \<Rightarrow> nat" where
  "ALIGN n = unat ((word_of_nat n + ALIGNMENT - 1) AND NOT (ALIGNMENT - 1))"

definition HEADER_SIZE :: nat where
  "HEADER_SIZE = ALIGN 24"

text \<open>The global variables of the file, and the memory with its regions obtained from \<open>malloc\<close>.\<close>

record allocator =
  mem :: "nat \<Rightarrow> 64 word"
  arenas :: "(nat \<times> nat) list"
  heap_start :: nat
  heap_size :: nat
  free_list :: nat
  total_allocated :: nat
  total_freed :: nat
  num_allocations :: nat
  num_frees :: nat

definition in_arena :: "allocator \<Rightarrow> nat \<Rightarrow> nat \<Rightarrow> bool" where
  "in_arena st a w = list_ex (\<lambda>(b, n). b \<le> a \<and> a + w \<le> b + n) (arenas st)"

definition check_access :: "allocator \<Rightarrow> nat \<Rightarrow> nat \<Rightarrow> unit c_result" where
  "check_access st a w =
     (if a mod 8 \<noteq> 0 then Inl Misaligned
      else if in_arena st a w then Inr ()
      else Inl (if a < 24 then Null_Dereference else Out_Of_Bounds))"

definition load :: "allocator \<Rightarrow> nat \<Rightarrow> nat c_result" where
  "load st a = bind_r (check_access st a 8) (\<lambda>_. Inr (unat (mem st a)))"

definition store :: "allocator \<Rightarrow> nat \<Rightarrow> nat \<Rightarrow> allocator c_result" where
  "store st a v = bind_r (check_access st a 8) (\<lambda>_. Inr (st\<lparr>mem := (mem st)(a := word_of_nat v)\<rparr>))"

text \<open>A 32-bit \<open>int\<close> in the low half of a cell.\<close>

definition int_of_cell :: "64 word \<Rightarrow> int" where
  "int_of_cell w = sint (ucast w :: 32 word)"

definition cell_with_int :: "64 word \<Rightarrow> int \<Rightarrow> 64 word" where
  "cell_with_int w v = push_bit 32 (drop_bit 32 w) OR ucast (word_of_int v :: 32 word)"

definition load_int :: "allocator \<Rightarrow> nat \<Rightarrow> int c_result" where
  "load_int st a = bind_r (check_access st a 4) (\<lambda>_. Inr (int_of_cell (mem st a)))"

definition store_int :: "allocator \<Rightarrow> nat \<Rightarrow> int \<Rightarrow> allocator c_result" where
  "store_int st a v =
     bind_r (check_access st a 4) (\<lambda>_. Inr (st\<lparr>mem := (mem st)(a := cell_with_int (mem st a) v)\<rparr>))"

text \<open>The fields of the struct \<open>BlockHeader\<close> at address \<open>a\<close>.\<close>

definition get_size :: "allocator \<Rightarrow> nat \<Rightarrow> nat c_result" where
  "get_size st a = load st a"

definition get_is_free :: "allocator \<Rightarrow> nat \<Rightarrow> int c_result" where
  "get_is_free st a = load_int st (a + 8)"

definition get_next :: "allocator \<Rightarrow> nat \<Rightarrow> nat c_result" where
  "get_next st a = load st (a + 16)"

definition set_size :: "nat \<Rightarrow> nat \<Rightarrow> allocator \<Rightarrow> allocator c_result" where
  "set_size a v st = store st a v"

definition set_is_free :: "nat \<Rightarrow> int \<Rightarrow> allocator \<Rightarrow> allocator c_result" where
  "set_is_free a v st = store_int st (a + 8) v"

definition set_next :: "nat \<Rightarrow> nat \<Rightarrow> allocator \<Rightarrow> allocator c_result" where
  "set_next a v st = store st (a + 16) v"

subsection \<open>Operations\<close>

text \<open>\<open>p\<close> is what \<open>malloc (size)\<close> returns. The counters are not reset.\<close>

definition allocator_init :: "allocator \<Rightarrow> nat \<Rightarrow> nat \<Rightarrow> allocator c_result" where
  "allocator_init st size' p =
     (let st = st\<lparr>heap_size := size', heap_start := p,
                  arenas := (if p = 0 then arenas st else (p, size') # arenas st)\<rparr>
      in if p = 0 then Inr st
         else bind_r (set_size p size' st) (\<lambda>st.
              bind_r (set_is_free p 1 st) (\<lambda>st.
              bind_r (set_next p 0 st) (\<lambda>st.
              Inr (st\<lparr>free_list := p\<rparr>)))))"

text \<open>The test \<open>current->is_free && current->size >= size\<close> of the search loop.\<close>

definition block_fits :: "allocator \<Rightarrow> nat \<Rightarrow> nat \<Rightarrow> bool c_result" where
  "block_fits st size' current =
     bind_r (get_is_free st current) (\<lambda>f.
       if f = 0 then Inr False
       else bind_r (get_size st current) (\<lambda>n. Inr (size' \<le> n)))"

partial_function (option) find_loop ::
  "allocator \<Rightarrow> nat \<Rightarrow> nat \<Rightarrow> nat \<Rightarrow> (nat \<times> nat) c_result option" where
  "find_loop st size' current prev =
     (if current = 0 then Some (Inr (0, prev))
      else case block_fits st size' current of
        Inl e \<Rightarrow> Some (Inl e)
      | Inr fits \<Rightarrow>
          if fits then Some (Inr (current, prev))
          else (case get_next st current of
                  Inl e \<Rightarrow> Some (Inl e)
                | Inr nxt \<Rightarrow> find_loop st size' nxt current))"

text \<open>Returns the block, or \<open>0\<close>, and what \<open>*prev\<close> is set to.\<close>

definition find_free_block :: "allocator \<Rightarrow> nat \<Rightarrow> (nat \<times> nat) c_result option" where
  "find_free_block st size' = find_loop st size' (free_list st) 0"

text \<open>The test of \<open>coalesce\<close>: \<open>next\<close> starts where \<open>current\<close> ends, and both are free.\<close>

definition mergeable :: "allocator \<Rightarrow> nat \<Rightarrow> nat \<Rightarrow> bool c_result" where
  "mergeable st current nxt =
     bind_r (get_size st current) (\<lambda>n.
       if add64 current n \<noteq> nxt then Inr False
       else bind_r (get_is_free st current) (\<lambda>f.
              if f = 0 then Inr False
              else bind_r (get_is_free st nxt) (\<lambda>g. Inr (g \<noteq> 0))))"

text \<open>Its body: \<open>current->size += next->size; current->next = next->next\<close>.\<close>

definition merge_blocks :: "allocator \<Rightarrow> nat \<Rightarrow> nat \<Rightarrow> allocator c_result" where
  "merge_blocks st current nxt =
     bind_r (get_size st current) (\<lambda>n.
     bind_r (get_size st nxt) (\<lambda>m.
     bind_r (set_size current (add64 n m) st) (\<lambda>st.
     bind_r (get_next st nxt) (\<lambda>nn.
       set_next current nn st))))"

partial_function (option) coalesce_loop :: "allocator \<Rightarrow> nat \<Rightarrow> allocator c_result option" where
  "coalesce_loop st current =
     (if current = 0 then Some (Inr st)
      else case get_next st current of
        Inl e \<Rightarrow> Some (Inl e)
      | Inr nxt \<Rightarrow>
          if nxt = 0 then Some (Inr st)
          else (case mergeable st current nxt of
                  Inl e \<Rightarrow> Some (Inl e)
                | Inr mrg \<Rightarrow>
                    if mrg
                    then (case merge_blocks st current nxt of
                            Inl e \<Rightarrow> Some (Inl e)
                          | Inr st \<Rightarrow> coalesce_loop st current)
                    else coalesce_loop st nxt))"

definition coalesce :: "allocator \<Rightarrow> allocator c_result option" where
  "coalesce st = coalesce_loop st (free_list st)"

text \<open>The part of \<open>my_malloc\<close> that splits a block larger than needed.\<close>

definition split_block :: "nat \<Rightarrow> nat \<Rightarrow> allocator \<Rightarrow> allocator c_result" where
  "split_block block total_size st =
     (let new_block = add64 block total_size in
      bind_r (get_size st block) (\<lambda>n.
      bind_r (set_size new_block (sub64 n total_size) st) (\<lambda>st.
      bind_r (set_is_free new_block 1 st) (\<lambda>st.
      bind_r (get_next st block) (\<lambda>nxt.
      bind_r (set_next new_block nxt st) (\<lambda>st.
      bind_r (set_size block total_size st) (\<lambda>st.
        set_next block new_block st)))))))"

text \<open>The part that marks the block as allocated and unlinks it.\<close>

definition unlink_block :: "nat \<Rightarrow> nat \<Rightarrow> allocator \<Rightarrow> allocator c_result" where
  "unlink_block block prev st =
     bind_r (set_is_free block 0 st) (\<lambda>st.
     bind_r (get_next st block) (\<lambda>nxt.
     bind_r (if prev \<noteq> 0 then set_next prev nxt st else Inr (st\<lparr>free_list := nxt\<rparr>)) (\<lambda>st.
       set_next block 0 st)))"

definition my_malloc :: "allocator \<Rightarrow> nat \<Rightarrow> (nat \<times> allocator) c_result option" where
  "my_malloc st size' =
     (if size' = 0 \<or> heap_start st = 0 then Some (Inr (0, st))
      else let size' = ALIGN size'; total_size = add64 HEADER_SIZE size' in
        if heap_size st < total_size then Some (Inr (0, st))
        else case find_free_block st total_size of
          None \<Rightarrow> None
        | Some (Inl e) \<Rightarrow> Some (Inl e)
        | Some (Inr (block, prev)) \<Rightarrow>
            if block = 0 then Some (Inr (0, st))
            else Some (
              bind_r (get_size st block) (\<lambda>n.
              bind_r (if total_size < n then split_block block total_size st else Inr st) (\<lambda>st.
              bind_r (unlink_block block prev st) (\<lambda>st.
              Inr (add64 block HEADER_SIZE,
                   st\<lparr>total_allocated := add64 (total_allocated st) total_size,
                      num_allocations := add64 (num_allocations st) 1\<rparr>))))))"

text \<open>The part of \<open>my_free\<close> before \<open>coalesce\<close>; \<open>None\<close> stands for the early return.\<close>

definition release_block :: "nat \<Rightarrow> allocator \<Rightarrow> allocator option c_result" where
  "release_block block st =
     bind_r (get_size st block) (\<lambda>n.
       if n = 0 \<or> heap_size st < n then Inr None
       else
         bind_r (set_is_free block 1 st) (\<lambda>st.
         bind_r (set_next block (free_list st) st) (\<lambda>st.
         bind_r (get_size st block) (\<lambda>n.
         Inr (Some (st\<lparr>free_list := block,
                      total_freed := add64 (total_freed st) n,
                      num_frees := add64 (num_frees st) 1\<rparr>))))))"

definition my_free :: "allocator \<Rightarrow> nat \<Rightarrow> allocator c_result option" where
  "my_free st ptr =
     (if ptr = 0 then Some (Inr st)
      else case release_block (sub64 ptr HEADER_SIZE) st of
        Inl e \<Rightarrow> Some (Inl e)
      | Inr None \<Rightarrow> Some (Inr st)
      | Inr (Some st) \<Rightarrow> coalesce st)"

text \<open>
  The figures \<open>allocator_stats\<close> prints: the five counters, the net memory in use, and the number
  and total size of the blocks on the free list. The percentage that is computed from the number
  of free blocks for the last line is left out.
\<close>

record stats_report =
  r_heap_size :: nat
  r_allocated :: nat
  r_freed :: nat
  r_allocations :: nat
  r_frees :: nat
  r_net :: nat
  r_free_blocks :: int
  r_free_memory :: nat

partial_function (option) stats_loop ::
  "allocator \<Rightarrow> nat \<Rightarrow> int \<Rightarrow> nat \<Rightarrow> (int \<times> nat) c_result option" where
  "stats_loop st current num_free_blocks total_free_size =
     (if current = 0 then Some (Inr (num_free_blocks, total_free_size))
      else case bind_r (c_int (num_free_blocks + 1)) (\<lambda>k. bind_r (get_size st current) (\<lambda>n.
                  bind_r (get_next st current) (\<lambda>nxt. Inr (k, n, nxt)))) of
             Inl e \<Rightarrow> Some (Inl e)
           | Inr (k, n, nxt) \<Rightarrow> stats_loop st nxt k (add64 total_free_size n))"

definition allocator_stats :: "allocator \<Rightarrow> stats_report c_result option" where
  "allocator_stats st =
     (case stats_loop st (free_list st) 0 0 of
        None \<Rightarrow> None
      | Some (Inl e) \<Rightarrow> Some (Inl e)
      | Some (Inr (k, n)) \<Rightarrow> Some (Inr
          \<lparr>r_heap_size = heap_size st, r_allocated = total_allocated st, r_freed = total_freed st,
           r_allocations = num_allocations st, r_frees = num_frees st,
           r_net = sub64 (total_allocated st) (total_freed st),
           r_free_blocks = k, r_free_memory = n\<rparr>))"

text \<open>\<open>free_list\<close> keeps its value, so it dangles afterwards.\<close>

definition allocator_cleanup :: "allocator \<Rightarrow> allocator" where
  "allocator_cleanup st =
     (if heap_start st \<noteq> 0
      then st\<lparr>arenas := filter (\<lambda>r. fst r \<noteq> heap_start st) (arenas st), heap_start := 0\<rparr>
      else st)"


section \<open>Arithmetic and memory\<close>

lemma add64_small [simp]: "x + y < 2 ^ 64 \<Longrightarrow> add64 x y = x + y"
  by (simp add: add64_def)

lemma sub64_le [simp]: "y \<le> x \<Longrightarrow> x < 2 ^ 64 \<Longrightarrow> sub64 x y = x - y"
proof -
  assume a: "y \<le> x" "x < 2 ^ 64"
  then have "x + (2 ^ 64 - y mod 2 ^ 64) = (x - y) + 2 ^ 64" by simp
  with a show ?thesis unfolding sub64_def by (simp only: mod_add_self2) simp
qed

lemma word_and_not_mask: "NOT 7 AND (w :: 64 word) = w - take_bit 3 w"
proof -
  have "w = (w AND NOT 7) + (w AND 7)"
  proof -
    have "(w AND NOT 7) AND (w AND 7) = 0" by (simp add: ac_simps)
    then have "(w AND NOT 7) + (w AND 7) = (w AND NOT 7) OR (w AND 7)"
      by (rule disjunctive_add_eq_or)
    also have "\<dots> = w" by (rule bit_word_eqI) (auto simp: bit_simps)
    finally show ?thesis by simp
  qed
  moreover have "w AND 7 = take_bit 3 w" by (simp add: take_bit_eq_mask mask_eq_exp_minus_1)
  ultimately show ?thesis by (metis add_diff_cancel_right' and.commute)
qed

text \<open>\<open>ALIGN\<close> rounds up to a multiple of 8, except that the addition wraps around.\<close>

lemma ALIGN_nat: "ALIGN n = (n + 7) mod 2 ^ 64 div 8 * 8"
proof -
  let ?w = "word_of_nat (n + 7) :: 64 word"
  have "ALIGN n = unat (?w - take_bit 3 ?w)"
    using word_and_not_mask [of ?w] by (simp add: ALIGN_def ALIGNMENT_def ac_simps)
  also have "\<dots> = unat ?w - unat (take_bit 3 ?w)"
    by (rule unat_sub) (metis word_le_nat_alt unsigned_take_bit_eq take_bit_nat_less_eq_self)
  also have "\<dots> = unat ?w - unat ?w mod 8"
    unfolding unsigned_take_bit_eq by (simp add: take_bit_eq_mod)
  also have "\<dots> = unat ?w div 8 * 8" by (simp add: minus_mod_eq_div_mult)
  finally show ?thesis by (simp only: unsigned_of_nat take_bit_eq_mod len_bit0 len_num1) simp
qed

lemma HEADER_SIZE_eq [simp]: "HEADER_SIZE = 24"
  by (simp add: HEADER_SIZE_def ALIGN_nat)

lemma ALIGN_small: "n + 7 < 2 ^ 64 \<Longrightarrow> ALIGN n = (n + 7) div 8 * 8"
  by (simp add: ALIGN_nat)

lemma ALIGN_dvd [simp]: "8 dvd ALIGN n"
  by (simp add: ALIGN_nat)

lemma int_of_cell_with_int [simp]:
  "INT_MIN \<le> v \<Longrightarrow> v \<le> INT_MAX \<Longrightarrow> int_of_cell (cell_with_int w v) = v"
proof -
  assume v: "INT_MIN \<le> v" "v \<le> INT_MAX"
  have "(ucast (cell_with_int w v) :: 32 word) = word_of_int v"
    unfolding cell_with_int_def by (rule bit_word_eqI) (auto simp: bit_simps)
  with v show ?thesis
    by (simp add: int_of_cell_def sint_sbintrunc' signed_take_bit_int_eq_self INT_MIN_def INT_MAX_def)
qed

lemma flag_values [simp]: "int_of_cell (cell_with_int w 0) = 0" "int_of_cell (cell_with_int w 1) = 1"
  by (simp_all add: INT_MIN_def INT_MAX_def)

text \<open>Accesses that are inside the memory have a result.\<close>

definition addr_ok :: "allocator \<Rightarrow> nat \<Rightarrow> bool" where
  "addr_ok st a \<longleftrightarrow> a mod 8 = 0 \<and> in_arena st a 8"

lemma in_arena_cong: "arenas st' = arenas st \<Longrightarrow> in_arena st' a w = in_arena st a w"
  by (simp add: in_arena_def)

lemma addr_ok_mem [simp]:
  "addr_ok (st\<lparr>mem := m\<rparr>) a = addr_ok st a" "addr_ok (st\<lparr>free_list := f\<rparr>) a = addr_ok st a"
  by (simp_all add: addr_ok_def in_arena_def)

lemma in_arena_mono: "in_arena st a w \<Longrightarrow> w' \<le> w \<Longrightarrow> in_arena st a w'"
  unfolding in_arena_def list_ex_iff by (elim bexE, rule bexI) auto

lemma check_access_ok: "addr_ok st a \<Longrightarrow> w \<le> 8 \<Longrightarrow> check_access st a w = Inr ()"
  using in_arena_mono [of st a 8 w] by (simp add: addr_ok_def check_access_def)

lemma access_ok [simp]:
  assumes "addr_ok st a"
  shows "load st a = Inr (unat (mem st a))"
    and "store st a v = Inr (st\<lparr>mem := (mem st)(a := word_of_nat v)\<rparr>)"
    and "load_int st a = Inr (int_of_cell (mem st a))"
    and "store_int st a i = Inr (st\<lparr>mem := (mem st)(a := cell_with_int (mem st a) i)\<rparr>)"
  using assms by (simp_all add: load_def store_def load_int_def store_int_def check_access_ok)

lemmas field_defs = get_size_def get_is_free_def get_next_def set_size_def set_is_free_def set_next_def

lemma unat_cell [simp]: "v < 2 ^ 64 \<Longrightarrow> unat (word_of_nat v :: 64 word) = v"
  by (simp add: unat_of_nat)

text \<open>The header fields as they stand in memory.\<close>

definition hsize :: "allocator \<Rightarrow> nat \<Rightarrow> nat" where
  "hsize st a = unat (mem st a)"

definition hfree :: "allocator \<Rightarrow> nat \<Rightarrow> int" where
  "hfree st a = int_of_cell (mem st (a + 8))"

definition hnext :: "allocator \<Rightarrow> nat \<Rightarrow> nat" where
  "hnext st a = unat (mem st (a + 16))"

definition hdr_ok :: "allocator \<Rightarrow> nat \<Rightarrow> bool" where
  "hdr_ok st a \<longleftrightarrow> addr_ok st a \<and> addr_ok st (a + 8) \<and> addr_ok st (a + 16)"

lemma hdr_ok_mem [simp]:
  "hdr_ok (st\<lparr>mem := m\<rparr>) a = hdr_ok st a" "hdr_ok (st\<lparr>free_list := f\<rparr>) a = hdr_ok st a"
  by (simp_all add: hdr_ok_def)

lemma fields_ok [simp]:
  assumes "hdr_ok st a"
  shows "get_size st a = Inr (hsize st a)" "get_is_free st a = Inr (hfree st a)"
    "get_next st a = Inr (hnext st a)"
    "set_size a v st = Inr (st\<lparr>mem := (mem st)(a := word_of_nat v)\<rparr>)"
    "set_is_free a i st = Inr (st\<lparr>mem := (mem st)(a + 8 := cell_with_int (mem st (a + 8)) i)\<rparr>)"
    "set_next a v st = Inr (st\<lparr>mem := (mem st)(a + 16 := word_of_nat v)\<rparr>)"
  using assms by (simp_all add: hdr_ok_def field_defs hsize_def hfree_def hnext_def)


section \<open>The abstract heap\<close>

text \<open>
  A block is its address and its size, header included. \<open>laid_out base len bs\<close> says that the
  blocks of \<open>bs\<close> lie inside the memory of \<open>len\<close> bytes at \<open>base\<close>, do not overlap, are aligned and
  have room for a header.
\<close>

type_synonym block = "nat \<times> nat"

definition apart :: "block \<Rightarrow> block \<Rightarrow> bool" where
  "apart x y \<longleftrightarrow> fst x + snd x \<le> fst y \<or> fst y + snd y \<le> fst x"

definition block_in :: "nat \<Rightarrow> nat \<Rightarrow> block \<Rightarrow> bool" where
  "block_in base len x \<longleftrightarrow> base \<le> fst x \<and> fst x + snd x \<le> base + len \<and> 24 \<le> snd x \<and> fst x mod 8 = 0"

definition laid_out :: "nat \<Rightarrow> nat \<Rightarrow> block list \<Rightarrow> bool" where
  "laid_out base len bs \<longleftrightarrow> sorted_wrt apart bs \<and> (\<forall>x\<in>set bs. block_in base len x)"

abbreviation total :: "block list \<Rightarrow> nat" where
  "total bs \<equiv> sum_list (map snd bs)"

text \<open>Merging: a free block absorbs its successor on the free list when it starts where it ends.\<close>

fun coal :: "block list \<Rightarrow> block list" where
  "coal ((a, n) # (b, m) # bs) =
     (if a + n = b then coal ((a, n + m) # bs) else (a, n) # coal ((b, m) # bs))"
| "coal bs = bs"



definition remainder :: "block \<Rightarrow> nat \<Rightarrow> block list" where
  "remainder x t = (if snd x = t then [] else [(fst x + t, snd x - t)])"

named_theorems layout "facts about sequences of blocks that do not overlap"

lemma apart_sym: "apart x y \<longleftrightarrow> apart y x"
  by (auto simp: apart_def)

lemma laid_out_Cons [layout]:
  "laid_out base len (x # bs) \<longleftrightarrow> block_in base len x \<and> (\<forall>y\<in>set bs. apart x y) \<and> laid_out base len bs"
  by (auto simp: laid_out_def)

lemma laid_out_append [layout]:
  "laid_out base len (xs @ ys) \<longleftrightarrow>
     laid_out base len xs \<and> laid_out base len ys \<and> (\<forall>x\<in>set xs. \<forall>y\<in>set ys. apart x y)"
  by (auto simp: laid_out_def sorted_wrt_append)

lemma laid_out_Nil [layout, simp]: "laid_out base len []"
  by (simp add: laid_out_def)

lemma laid_out_block: "laid_out base len bs \<Longrightarrow> x \<in> set bs \<Longrightarrow> block_in base len x"
  by (simp add: laid_out_def)

lemma laid_out_move:
  "laid_out base len (xs @ x # ys) \<longleftrightarrow> laid_out base len (x # xs @ ys)"
  by (auto simp: layout apart_sym)

lemma apart_split:
  assumes "block_in base len z" "0 < t" "t < n"
  shows "apart (a, n) z \<longleftrightarrow> apart (a, t) z \<and> apart (a + t, n - t) z"
  using assms by (cases z) (auto simp: apart_def block_in_def)

text \<open>A block may be cut in two pieces large enough for a header, and adjacent blocks be joined.\<close>

lemma laid_out_split:
  assumes "24 \<le> t" "t + 24 \<le> n" "8 dvd t"
  shows "laid_out base len (xs @ (a, n) # ys) \<longleftrightarrow> laid_out base len (xs @ (a, t) # (a + t, n - t) # ys)"
proof -
  have "apart z (a, n) \<longleftrightarrow> apart z (a, t) \<and> apart z (a + t, n - t)" if "block_in base len z" for z
    using apart_split [OF that, of t n a] assms by (simp add: apart_sym)
  moreover have "block_in base len (a, n) \<longleftrightarrow> block_in base len (a, t) \<and> block_in base len (a + t, n - t)"
    using assms by (auto simp: block_in_def mod_add_eq elim!: dvdE)
  moreover have "apart (a, t) (a + t, n - t)" by (simp add: apart_def)
  moreover have "block_in base len z" if "laid_out base len zs" "z \<in> set zs" for z zs
    using that by (simp add: laid_out_def)
  ultimately show ?thesis
    using apart_split [of base len _ t n a] assms by (auto simp: layout)
qed

lemma laid_out_join:
  assumes "laid_out base len (xs @ (a, n) # (a + n, m) # ys)"
  shows "laid_out base len (xs @ (a, n + m) # ys)"
proof -
  have "block_in base len (a, n)" "block_in base len (a + n, m)" using assms by (simp_all add: layout)
  then have "24 \<le> n" "24 \<le> m" "8 dvd n" "n + m - n = m"
    by (auto simp: block_in_def mod_eq_0_iff_dvd dvd_add_right_iff)
  then show ?thesis
    using assms laid_out_split [of n "n + m" base len xs a ys] by simp
qed

lemma coal_laid_out:
  "laid_out base len (ys @ xs @ us) \<Longrightarrow> laid_out base len (ys @ coal xs @ us)"
proof (induction xs arbitrary: ys rule: coal.induct)
  case (1 a n b m bs)
  show ?case
  proof (cases "a + n = b")
    case True
    with 1(1) [OF True, of ys] laid_out_join [of base len ys a n m "bs @ us"] 1(3) show ?thesis by simp
  next
    case False
    with 1(2) [OF False, of "ys @ [(a, n)]"] 1(3) show ?thesis by simp
  qed
qed simp_all

lemma coal_total [simp]: "total (coal xs) = total xs"
  by (induction xs rule: coal.induct) auto

lemma coal_addresses: "fst ` set (coal xs) \<subseteq> fst ` set xs"
  by (induction xs rule: coal.induct) auto


lemma coal_head: "\<exists>k rest. coal ((a, n) # bs) = (a, k) # rest"
  by (induction "(a, n) # bs" arbitrary: n bs rule: coal.induct) auto

text \<open>Nothing that could be merged with its successor on the list is left.\<close>

lemma coal_merged: "successively (\<lambda>x y. fst x + snd x \<noteq> fst y) (coal xs)"
proof (induction xs rule: coal.induct)
  case (1 a n b m bs)
  then show ?case using coal_head [of b m bs] by (auto simp: successively_Cons)
qed simp_all

subsection \<open>Free lists in memory\<close>

text \<open>
  \<open>seg st c xs d\<close>: following the \<open>next\<close> fields from \<open>c\<close> leads through the headers of the free
  blocks \<open>xs\<close> to \<open>d\<close>.
\<close>

fun seg :: "allocator \<Rightarrow> nat \<Rightarrow> block list \<Rightarrow> nat \<Rightarrow> bool" where
  "seg st c [] d \<longleftrightarrow> c = d"
| "seg st c ((a, n) # xs) d \<longleftrightarrow> c = a \<and> hsize st a = n \<and> hfree st a \<noteq> 0 \<and> seg st (hnext st a) xs d"

lemma seg_append: "seg st c (xs @ ys) d \<longleftrightarrow> (\<exists>e. seg st c xs e \<and> seg st e ys d)"
  by (induction xs arbitrary: c) auto

definition same_header :: "allocator \<Rightarrow> allocator \<Rightarrow> nat \<Rightarrow> bool" where
  "same_header st st' a \<longleftrightarrow>
     mem st' a = mem st a \<and> mem st' (a + 8) = mem st (a + 8) \<and> mem st' (a + 16) = mem st (a + 16)"

lemma same_header_fields:
  "same_header st st' a \<Longrightarrow> hsize st' a = hsize st a \<and> hfree st' a = hfree st a \<and> hnext st' a = hnext st a"
  by (simp add: same_header_def hsize_def hfree_def hnext_def)

lemma seg_frame:
  "\<forall>x\<in>set xs. same_header st st' (fst x) \<Longrightarrow> seg st c xs d \<Longrightarrow> seg st' c xs d"
  by (induction xs arbitrary: c) (auto dest!: same_header_fields)

text \<open>The memory of the heap: a region obtained from \<open>malloc\<close> that holds blocks.\<close>

definition heap_at :: "allocator \<Rightarrow> nat \<Rightarrow> nat \<Rightarrow> bool" where
  "heap_at st base len \<longleftrightarrow>
     0 < base \<and> base mod 8 = 0 \<and> base + len < 2 ^ 64 \<and> (base, len) \<in> set (arenas st)"

lemma heap_at_mem [simp]:
  "heap_at (st\<lparr>mem := m\<rparr>) base len = heap_at st base len"
  "heap_at (st\<lparr>free_list := f\<rparr>) base len = heap_at st base len"
  by (simp_all add: heap_at_def)

lemma block_hdr_ok:
  assumes "heap_at st base len" "block_in base len (a, n)"
  shows "hdr_ok st a" "0 < a" "a + n < 2 ^ 64"
proof -
  from assms have a: "base \<le> a" "a + 24 \<le> base + len" "a mod 8 = 0" "(base, len) \<in> set (arenas st)"
    by (auto simp: heap_at_def block_in_def)
  then have "(a + 8) mod 8 = 0" "(a + 16) mod 8 = 0" by presburger+
  moreover have "in_arena st x 8" if "a \<le> x" "x \<le> a + 16" for x
    unfolding in_arena_def list_ex_iff by (rule bexI [OF _ a(4)]) (use a that in auto)
  ultimately show "hdr_ok st a" using a(3) by (simp add: hdr_ok_def addr_ok_def)
  show "0 < a" "a + n < 2 ^ 64" using assms by (auto simp: heap_at_def block_in_def)
qed

text \<open>Cells of the headers of blocks that are apart are different cells.\<close>

lemma apart_cells:
  assumes "apart (a, n) (b, m)" "24 \<le> n" "24 \<le> m"
  shows "b \<noteq> a" "b \<noteq> a + 8" "b \<noteq> a + 16" "b + 8 \<noteq> a" "b + 8 \<noteq> a + 16" "b + 16 \<noteq> a" "b + 16 \<noteq> a + 8"
  using assms by (auto simp: apart_def)

subsection \<open>The search loop is first fit\<close>

lemma find_loop_chain:
  assumes "heap_at st base len" "laid_out base len (xs @ ys)" "seg st c (xs @ ys) 0"
    "\<forall>x\<in>set xs. snd x < t" "\<forall>y ys'. ys = y # ys' \<longrightarrow> t \<le> snd y"
  shows "find_loop st t c prev = Some (Inr (if ys = [] then 0 else fst (hd ys),
            if xs = [] then prev else fst (last xs)))"
  using assms
proof (induction xs arbitrary: c prev)
  case Nil
  show ?case
  proof (cases ys)
    case Nil
    with Nil.prems show ?thesis by (simp add: find_loop.simps)
  next
    case (Cons y ys')
    obtain a n where y: "y = (a, n)" by (cases y)
    with Nil.prems Cons have b: "block_in base len (a, n)" by (simp add: layout)
    from Nil.prems Cons y block_hdr_ok [OF Nil.prems(1) b] show ?thesis
      by (simp add: find_loop.simps block_fits_def)
  qed
next
  case (Cons x xs)
  obtain a n where x: "x = (a, n)" by (cases x)
  with Cons.prems have b: "block_in base len (a, n)" by (simp add: layout)
  have "find_loop st t (hnext st a) a = Some (Inr (if ys = [] then 0 else fst (hd ys),
            if xs = [] then a else fst (last xs)))"
    by (rule Cons.IH) (use Cons.prems x in \<open>auto simp: laid_out_Cons\<close>)
  with Cons.prems x block_hdr_ok [OF Cons.prems(1) b] show ?case
    by (simp add: find_loop.simps [of st t a prev] block_fits_def)
qed


subsection \<open>Merging\<close>

text \<open>What a run of \<open>coalesce\<close> may change: the \<open>size\<close> and \<open>next\<close> cells of the free blocks.\<close>

definition touches :: "allocator \<Rightarrow> allocator \<Rightarrow> nat set \<Rightarrow> bool" where
  "touches st st' A \<longleftrightarrow> (\<exists>m. st' = st\<lparr>mem := m\<rparr> \<and> (\<forall>x. x \<notin> A \<longrightarrow> m x = mem st x))"

definition header_cells :: "block list \<Rightarrow> nat set" where
  "header_cells bs = (\<Union>x\<in>set bs. {fst x, fst x + 8, fst x + 16})"

lemma touches_refl: "touches st st A"
  by (simp add: touches_def exI [of _ "mem st"])

lemma touches_trans: "touches st st1 A \<Longrightarrow> touches st1 st2 A \<Longrightarrow> touches st st2 A"
  by (force simp: touches_def)

lemma touches_mono: "touches st st' A \<Longrightarrow> A \<subseteq> B \<Longrightarrow> touches st st' B"
  unfolding touches_def by blast

lemma touches_same: "touches st st' A \<Longrightarrow> x \<notin> A \<Longrightarrow> mem st' x = mem st x"
  by (auto simp: touches_def)

lemma header_cells_simps [simp]:
  "header_cells [] = {}"
  "header_cells (x # bs) = {fst x, fst x + 8, fst x + 16} \<union> header_cells bs"
  "header_cells (xs @ ys) = header_cells xs \<union> header_cells ys"
  by (auto simp: header_cells_def)

lemma apart_header_cells:
  assumes "laid_out base len (bs @ us)" "(a, n) \<in> set us" "a \<le> x" "x < a + n"
  shows "x \<notin> header_cells bs"
proof -
  have "x \<noteq> b \<and> x \<noteq> b + 8 \<and> x \<noteq> b + 16" if "(b, m) \<in> set bs" for b m
  proof -
    have "apart (b, m) (a, n)" "block_in base len (b, m)"
      using assms(1,2) that by (auto simp: laid_out_append intro: laid_out_block)
    with assms(3,4) show ?thesis by (auto simp: apart_def block_in_def)
  qed
  then show ?thesis unfolding header_cells_def by fastforce
qed

lemma touches_same_header:
  assumes "touches st st' (header_cells bs)" "laid_out base len (bs @ us)" "(a, n) \<in> set us"
  shows "same_header st st' a"
proof -
  have "24 \<le> n" using laid_out_block [OF assms(2), of "(a, n)"] assms(3) by (simp add: block_in_def)
  then show ?thesis
    unfolding same_header_def
    using apart_header_cells [OF assms(2,3)] touches_same [OF assms(1)] by simp
qed

lemma merge_blocks_run:
  assumes "heap_at st base len" "laid_out base len ((a, n) # (b, m) # xs)" "a + n = b"
    "seg st a ((a, n) # (b, m) # xs) 0"
  obtains st' where "merge_blocks st a b = Inr st'" "seg st' a ((a, n + m) # xs) 0"
    "touches st st' {a, a + 16}"
proof -
  have i: "block_in base len (a, n)" "block_in base len (b, m)" using assms(2) by (simp_all add: layout)
  note h = block_hdr_ok [OF assms(1) i(1)] block_hdr_ok [OF assms(1) i(2)]
  have n: "24 \<le> n" "24 \<le> m" using i by (simp_all add: block_in_def)
  have s: "hsize st a = n" "hsize st b = m" "hfree st a \<noteq> 0" "seg st (hnext st b) xs 0"
    using assms(4) by auto
  let ?st = "st\<lparr>mem := (mem st)(a := word_of_nat (n + m), a + 16 := mem st (b + 16))\<rparr>"
  have *: "hnext (st\<lparr>mem := (mem st)(a := w)\<rparr>) b = hnext st b" for w
    using assms(3) n by (simp add: hnext_def)
  have "merge_blocks st a b = Inr ?st"
    using h s assms(3) by (simp add: merge_blocks_def * ) (simp add: hnext_def)
  moreover have "seg ?st a ((a, n + m) # xs) 0"
  proof -
    have "same_header st ?st (fst x)" if "x \<in> set xs" for x
    proof -
      obtain c k where x: "x = (c, k)" by (cases x)
      with assms(2) that have "apart (a, n) (c, k)" "24 \<le> k" by (auto simp: laid_out_def block_in_def)
      with n apart_cells [of a n c k] x show ?thesis by (auto simp: same_header_def)
    qed
    then have "seg ?st (hnext st b) xs 0" using s(4) by (blast intro: seg_frame)
    then show ?thesis
      using s(3) h assms(3) by (simp add: hsize_def hfree_def hnext_def del: of_nat_add)
  qed
  moreover have "touches st ?st {a, a + 16}" by (auto simp: touches_def)
  ultimately show thesis by (rule that)
qed

lemma coalesce_loop_run:
  assumes "heap_at st base len" "laid_out base len xs" "seg st c xs 0"
  shows "\<exists>st'. coalesce_loop st c = Some (Inr st') \<and> seg st' c (coal xs) 0 \<and>
           touches st st' (header_cells xs)"
  using assms
proof (induction xs arbitrary: st c rule: coal.induct [case_names two none one])
  case (two a n b m xs)
  have i: "block_in base len (a, n)" "block_in base len (b, m)" using two(4) by (simp_all add: layout)
  note h = block_hdr_ok [OF two(3) i(1)] block_hdr_ok [OF two(3) i(2)]
  have s: "c = a" "hsize st a = n" "hfree st a \<noteq> 0" "hfree st b \<noteq> 0" "hnext st a = b"
    using two(5) by auto
  show ?case
  proof (cases "a + n = b")
    case True
    from merge_blocks_run [OF two(3,4) True] two(5) s(1) obtain st1 where
      st1: "merge_blocks st a b = Inr st1" "seg st1 a ((a, n + m) # xs) 0" "touches st st1 {a, a + 16}"
      by auto
    have "heap_at st1 base len" using st1(3) two(3) by (auto simp: touches_def)
    moreover have "laid_out base len ((a, n + m) # xs)"
      using laid_out_join [of base len "[]" a n m xs] two(4) True by simp
    ultimately obtain st2 where st2: "coalesce_loop st1 a = Some (Inr st2)"
      "seg st2 a (coal ((a, n + m) # xs)) 0" "touches st1 st2 (header_cells ((a, n + m) # xs))"
      using two(1) [OF True _ _ st1(2)] by blast
    have "touches st st2 (header_cells ((a, n) # (b, m) # xs))"
      by (rule touches_trans [OF touches_mono [OF st1(3)] touches_mono [OF st2(3)]]) auto
    with st2 show ?thesis
      using True s h st1(1) coalesce_loop.simps [of st a] by (simp add: mergeable_def)
  next
    case False
    have "laid_out base len ((b, m) # xs)" "seg st b ((b, m) # xs) 0"
      using two(4,5) by (auto simp: laid_out_Cons)
    then obtain st' where st': "coalesce_loop st b = Some (Inr st')" "seg st' b (coal ((b, m) # xs)) 0"
      "touches st st' (header_cells ((b, m) # xs))"
      using two(2) [OF False two(3)] by blast
    have "laid_out base len (((b, m) # xs) @ [(a, n)])"
      using two(4) laid_out_move [of base len "(b, m) # xs" "(a, n)" "[]"] by simp
    from touches_same_header [OF st'(3) this, of a n] have "same_header st st' a" by simp
    then have "hsize st' a = n" "hfree st' a \<noteq> 0" "hnext st' a = b"
      using s by (auto dest!: same_header_fields)
    moreover have "coalesce_loop st a = Some (Inr st')"
      using False s h st'(1) coalesce_loop.simps [of st a] by (simp add: mergeable_def)
    moreover have "touches st st' (header_cells ((a, n) # (b, m) # xs))"
      by (rule touches_mono [OF st'(3)]) auto
    ultimately show ?thesis using False s(1) st'(2) by simp
  qed
next
  case none
  then show ?case by (simp add: coalesce_loop.simps touches_refl)
next
  case (one v)
  obtain a n where v: "v = (a, n)" by (cases v)
  with one have b: "block_in base len (a, n)" by (simp add: layout)
  from block_hdr_ok [OF one(1) b] one v show ?case
    by (simp add: coalesce_loop.simps [of st a] touches_refl)
qed


subsection \<open>Splitting and unlinking\<close>

text \<open>Writes to header cells of other blocks leave a stretch of the free list alone.\<close>

lemma seg_untouched:
  assumes "seg st c xs d" "touches st st' (header_cells bs)" "laid_out base len (bs @ xs)"
  shows "seg st' c xs d"
  using assms touches_same_header [OF assms(2,3)] by (intro seg_frame [OF _ assms(1)]) auto

lemma split_block_run:
  assumes "heap_at st base len" "laid_out base len (pre @ (b, n) # post)"
    "seg st c (pre @ (b, n) # post) 0" "24 \<le> t" "t + 24 \<le> n" "8 dvd t"
  obtains st' where "split_block b t st = Inr st'" "seg st' c (pre @ (b, t) # (b + t, n - t) # post) 0"
    "touches st st' (header_cells [(b, t), (b + t, n - t)])"
proof -
  have l: "laid_out base len (pre @ (b, t) # (b + t, n - t) # post)"
    using assms laid_out_split [of t n base len pre b post] by simp
  then have i: "block_in base len (b, t)" "block_in base len (b + t, n - t)" by (simp_all add: layout)
  note h = block_hdr_ok [OF assms(1) i(1)] block_hdr_ok [OF assms(1) i(2)]
  have hn: "hsize st b = n" "hfree st b \<noteq> 0" "seg st c pre b" "seg st (hnext st b) post 0"
    using assms(3) by (auto simp: seg_append)
  have bn: "b + n < 2 ^ 64" using h(6) assms(4,5) by simp
  define m where "m = (mem st)(b + t := word_of_nat (n - t),
    b + t + 8 := cell_with_int (mem st (b + t + 8)) 1, b + t + 16 := mem st (b + 16),
    b := word_of_nat t, b + 16 := word_of_nat (b + t))"
  let ?st = "st\<lparr>mem := m\<rparr>"
  have nx: "hnext (st\<lparr>mem := (mem st)(b + t := v, b + t + 8 := w)\<rparr>) b = hnext st b" for v w
    using assms(4) by (simp add: hnext_def)
  have u: "word_of_nat (hnext st b) = mem st (b + 16)" by (simp add: hnext_def)
  have run: "split_block b t st = Inr ?st"
    using h hn(1) bn assms(4,5) by (simp add: split_block_def Let_def nx u m_def)
  have tch: "touches st ?st (header_cells [(b, t), (b + t, n - t)])"
    by (auto simp: touches_def m_def add.assoc)
  have "laid_out base len ([(b, t), (b + t, n - t)] @ pre)" "laid_out base len ([(b, t), (b + t, n - t)] @ post)"
    using l by (auto simp: layout apart_sym)
  then have "seg ?st c pre b" "seg ?st (hnext st b) post 0"
    using hn(3,4) seg_untouched [OF _ tch] by auto
  moreover have "hsize ?st b = t" "hfree ?st b \<noteq> 0" "hnext ?st b = b + t"
    "hsize ?st (b + t) = n - t" "hfree ?st (b + t) \<noteq> 0" "hnext ?st (b + t) = hnext st b"
    using hn(2) bn assms(4,5) by (simp_all add: m_def hsize_def hfree_def hnext_def del: of_nat_add of_nat_diff)
  ultimately have "seg ?st c (pre @ (b, t) # (b + t, n - t) # post) 0"
    by (auto simp: seg_append)
  with run tch show thesis by (intro that)
qed

lemma remainder_cases:
  assumes "n = t \<or> t + 24 \<le> n"
  obtains "n = t" "remainder (b, n) t = []" | "t + 24 \<le> n" "remainder (b, n) t = [(b + t, n - t)]"
  using assms by (auto simp: remainder_def)

lemma laid_out_remainder:
  assumes "24 \<le> t" "n = t \<or> t + 24 \<le> n" "8 dvd t" "laid_out base len (pre @ (b, n) # post)"
  shows "laid_out base len (pre @ (b, t) # remainder (b, n) t @ post)"
  using assms(2) laid_out_split [OF assms(1) _ assms(3), of n base len pre b post] assms(4)
  by (cases rule: remainder_cases [where b = b]) auto

lemma total_remainder: "t \<le> n \<Longrightarrow> t + total (remainder (b, n) t) = n"
  by (simp add: remainder_def)

lemma maybe_split_run:
  assumes "heap_at st base len" "laid_out base len (pre @ (b, n) # post)"
    "seg st c (pre @ (b, n) # post) 0" "24 \<le> t" "n = t \<or> t + 24 \<le> n" "8 dvd t"
  obtains st' where "(if t < n then split_block b t st else Inr st) = Inr st'"
    "seg st' c (pre @ (b, t) # remainder (b, n) t @ post) 0"
    "touches st st' (header_cells ((b, t) # remainder (b, n) t))"
  using assms(5)
proof (cases rule: remainder_cases [where b = b])
  case 1
  with assms(3) that touches_refl [of st] show thesis by simp
next
  case 2
  with split_block_run [OF assms(1-4) _ assms(6)] that show thesis by auto
qed

lemma unlink_block_run:
  assumes "heap_at st base len" "laid_out base len (pre @ (b, n) # post)"
    "seg st (free_list st) (pre @ (b, n) # post) 0"
  obtains st' f where "unlink_block b (if pre = [] then 0 else fst (last pre)) st = Inr (st'\<lparr>free_list := f\<rparr>)"
    "seg (st'\<lparr>free_list := f\<rparr>) f (pre @ post) 0" "hsize st' b = n"
    "touches st st' (header_cells (pre @ [(b, n)]))"
proof (cases pre rule: rev_cases)
  case Nil
  have i: "block_in base len (b, n)" using assms(2) by (simp add: layout)
  note h = block_hdr_ok [OF assms(1) i]
  let ?m = "(mem st)(b + 8 := cell_with_int (mem st (b + 8)) 0, b + 16 := 0)"
  let ?st = "st\<lparr>mem := ?m\<rparr>"
  have t: "touches st ?st (header_cells [(b, n)])" by (auto simp: touches_def)
  have "unlink_block b 0 st = Inr (?st\<lparr>free_list := hnext st b\<rparr>)"
    using h by (simp add: unlink_block_def hnext_def)
  moreover have "seg ?st (hnext st b) post 0"
    using assms(2,3) Nil seg_untouched [OF _ t, of _ post 0 base len] by auto
  then have "seg (?st\<lparr>free_list := hnext st b\<rparr>) (hnext st b) post 0"
    by (rule seg_frame [rotated]) (simp add: same_header_def)
  moreover have "hsize ?st b = n" using assms(3) Nil by (simp add: hsize_def)
  ultimately show thesis using that t Nil by fastforce
next
  case (snoc pre' p')
  obtain p k where p': "p' = (p, k)" by (cases p')
  have i: "block_in base len (b, n)" "block_in base len (p, k)" "apart (p, k) (b, n)"
    using assms(2) snoc p' by (auto simp: layout)
  note h = block_hdr_ok [OF assms(1) i(1)] block_hdr_ok [OF assms(1) i(2)]
  have c: "24 \<le> k" "24 \<le> n" using i by (simp_all add: block_in_def)
  note cells = apart_cells [OF i(3) c]
  let ?m = "(mem st)(b + 8 := cell_with_int (mem st (b + 8)) 0, p + 16 := mem st (b + 16), b + 16 := 0)"
  let ?st = "st\<lparr>mem := ?m\<rparr>"
  have t: "touches st ?st (header_cells [(p, k), (b, n)])" by (auto simp: touches_def)
  have "unlink_block b p st = Inr (?st\<lparr>free_list := free_list st\<rparr>)"
    using h by (simp add: unlink_block_def hnext_def)
  moreover have "seg ?st (free_list st) (pre' @ [(p, k)] @ post) 0"
  proof -
    have sg: "seg st (free_list st) pre' p" "seg st (hnext st b) post 0" "hsize st p = k" "hfree st p \<noteq> 0"
      using assms(3) snoc p' by (auto simp: seg_append)
    have "laid_out base len ([(p, k), (b, n)] @ pre')" "laid_out base len ([(p, k), (b, n)] @ post)"
      using assms(2) snoc p' by (auto simp: layout apart_sym)
    then have "seg ?st (free_list st) pre' p" "seg ?st (hnext st b) post 0"
      using sg seg_untouched [OF _ t] by auto
    moreover have "hsize ?st p = k" "hfree ?st p \<noteq> 0" "hnext ?st p = hnext st b"
      using sg cells by (auto simp: hsize_def hfree_def hnext_def)
    ultimately show ?thesis by (simp add: seg_append)
  qed
  then have "seg (?st\<lparr>free_list := free_list st\<rparr>) (free_list st) (pre' @ [(p, k)] @ post) 0"
    by simp
  moreover have "hsize ?st b = n" using assms(3) cells by (auto simp: hsize_def seg_append)
  moreover have "touches st ?st (header_cells (pre @ [(b, n)]))"
    by (rule touches_mono [OF t]) (auto simp: snoc p')
  ultimately show thesis using that [of "free_list st" ?st] snoc p' by simp
qed


subsection \<open>The invariant\<close>

text \<open>
  \<open>heap_ok st fl us\<close>: the heap consists exactly of the free blocks \<open>fl\<close>, chained in this order
  from \<open>free_list\<close>, and the blocks in use \<open>us\<close>, whose headers hold their sizes; the counters
  account for the blocks in use up to the wrap-around of \<open>size_t\<close>.
\<close>

definition heap_ok :: "allocator \<Rightarrow> block list \<Rightarrow> block list \<Rightarrow> bool" where
  "heap_ok st fl us \<longleftrightarrow>
     heap_at st (heap_start st) (heap_size st) \<and>
     laid_out (heap_start st) (heap_size st) (fl @ us) \<and>
     total (fl @ us) = heap_size st \<and>
     seg st (free_list st) fl 0 \<and>
     (\<forall>x\<in>set us. hsize st (fst x) = snd x) \<and>
     total_allocated st = (total_freed st + total us) mod 2 ^ 64 \<and>
     num_allocations st = (num_frees st + length us) mod 2 ^ 64 \<and>
     total_freed st < 2 ^ 64 \<and> num_frees st < 2 ^ 64"

text \<open>What the operations leave alone: the memory of the blocks in \<open>us\<close>, and the bounds of the heap.\<close>

definition keeps :: "allocator \<Rightarrow> allocator \<Rightarrow> block list \<Rightarrow> bool" where
  "keeps st st' us \<longleftrightarrow>
     heap_start st' = heap_start st \<and> heap_size st' = heap_size st \<and>
     (\<forall>x\<in>set us. \<forall>y. fst x \<le> y \<and> y < fst x + snd x \<longrightarrow> mem st' y = mem st y)"

lemma touches_keeps:
  assumes "touches st st' (header_cells bs)" "laid_out base len (bs @ us)"
  shows "keeps st st' us"
  unfolding keeps_def
  using assms apart_header_cells [OF assms(2)] touches_same [OF assms(1)]
  by (auto simp: touches_def split_paired_all)

lemma keeps_hsize:
  assumes "keeps st st' us" "laid_out base len us" "x \<in> set us"
  shows "hsize st' (fst x) = hsize st (fst x)"
  using assms laid_out_block [OF assms(2,3)]
  by (cases x) (force simp: keeps_def hsize_def block_in_def)

text \<open>The request as the code rounds it.\<close>

definition request :: "nat \<Rightarrow> nat" where
  "request n = add64 HEADER_SIZE (ALIGN n)"

lemma request_small: "n < 2 ^ 63 \<Longrightarrow> request n = 24 + (n + 7) div 8 * 8"
  by (simp add: request_def ALIGN_small)

lemma request_dvd: "8 dvd request n"
proof -
  have "8 dvd (24 + ALIGN n) mod 2 ^ 64"
    by (rule dvd_mod) (simp_all add: dvd_add)
  then show ?thesis by (simp add: request_def add64_def)
qed

lemma my_malloc_search:
  assumes ok: "heap_ok st (pre @ (b, n) # post) us" and "n0 \<noteq> 0"
    and t: "\<forall>x\<in>set pre. snd x < request n0" "request n0 \<le> n"
  shows "my_malloc st n0 = Some (
      bind_r (if request n0 < n then split_block b (request n0) st else Inr st) (\<lambda>st.
      bind_r (unlink_block b (if pre = [] then 0 else fst (last pre)) st) (\<lambda>st.
      Inr (b + 24, st\<lparr>total_allocated := add64 (total_allocated st) (request n0),
                      num_allocations := add64 (num_allocations st) 1\<rparr>))))"
proof -
  let ?base = "heap_start st" and ?len = "heap_size st"
  have H: "heap_at st ?base ?len" "seg st (free_list st) (pre @ (b, n) # post) 0"
    "laid_out ?base ?len (pre @ (b, n) # post)"
    using ok by (simp_all add: heap_ok_def layout)
  have i: "block_in ?base ?len (b, n)" using H(3) by (simp add: layout)
  note h = block_hdr_ok [OF H(1) i]
  have "hsize st b = n" using H(2) by (auto simp: seg_append)
  moreover have "find_free_block st (request n0) = Some (Inr (b, if pre = [] then 0 else fst (last pre)))"
    unfolding find_free_block_def
    using find_loop_chain [OF H(1,3,2), of "request n0" 0] t by simp
  moreover have "\<not> ?len < request n0" using i t(2) by (auto simp: block_in_def)
  moreover have "add64 b HEADER_SIZE = b + 24" using h i by (simp add: block_in_def)
  ultimately show ?thesis
    using h assms(2) H(1) unfolding my_malloc_def
    by (simp add: heap_at_def Let_def request_def [symmetric] del: HEADER_SIZE_eq)
qed

text \<open>Splitting and unlinking together, on the memory and the chain.\<close>

lemma take_block_run:
  assumes "heap_at st base len" "laid_out base len (pre @ (b, n) # post)"
    "seg st (free_list st) (pre @ (b, n) # post) 0" "24 \<le> t" "n = t \<or> t + 24 \<le> n" "8 dvd t"
  obtains st1 st2 f where "(if t < n then split_block b t st else Inr st) = Inr st1"
    "unlink_block b (if pre = [] then 0 else fst (last pre)) st1 = Inr (st2\<lparr>free_list := f\<rparr>)"
    "seg (st2\<lparr>free_list := f\<rparr>) f (pre @ remainder (b, n) t @ post) 0" "hsize st2 b = t"
    "touches st st2 (header_cells (pre @ (b, t) # remainder (b, n) t))"
proof -
  let ?rem = "remainder (b, n) t"
  obtain st1 where st1: "(if t < n then split_block b t st else Inr st) = Inr st1"
    "seg st1 (free_list st) (pre @ (b, t) # ?rem @ post) 0" "touches st st1 (header_cells ((b, t) # ?rem))"
    using maybe_split_run [OF assms] by blast
  have f1: "free_list st1 = free_list st" "heap_at st1 base len"
    using st1(3) assms(1) by (auto simp: touches_def)
  have l1: "laid_out base len (pre @ (b, t) # ?rem @ post)"
    by (rule laid_out_remainder [OF assms(4,5,6,2)])
  have "seg st1 (free_list st1) (pre @ (b, t) # ?rem @ post) 0" using st1(2) f1(1) by simp
  from unlink_block_run [OF f1(2) l1 this] obtain st2 f where
    st2: "unlink_block b (if pre = [] then 0 else fst (last pre)) st1 = Inr (st2\<lparr>free_list := f\<rparr>)"
      "seg (st2\<lparr>free_list := f\<rparr>) f (pre @ ?rem @ post) 0" "hsize st2 b = t"
      "touches st1 st2 (header_cells (pre @ [(b, t)]))"
    by metis
  have "touches st st2 (header_cells (pre @ (b, t) # ?rem))"
    by (rule touches_trans [OF touches_mono [OF st1(3)] touches_mono [OF st2(4)]]) auto
  with st1(1) st2(1,2,3) show thesis by (intro that)
qed

lemma my_malloc_found:
  assumes ok: "heap_ok st (pre @ (b, n) # post) us" and "n0 \<noteq> 0"
    and t: "24 \<le> request n0" "\<forall>x\<in>set pre. snd x < request n0" "request n0 \<le> n"
      "n = request n0 \<or> request n0 + 24 \<le> n"
  shows "\<exists>st'. my_malloc st n0 = Some (Inr (b + 24, st')) \<and>
           heap_ok st' (pre @ remainder (b, n) (request n0) @ post) ((b, request n0) # us) \<and>
           keeps st st' us"
proof -
  let ?t = "request n0" and ?rem = "remainder (b, n) (request n0)"
  let ?base = "heap_start st" and ?len = "heap_size st"
  have H: "heap_at st ?base ?len" "seg st (free_list st) (pre @ (b, n) # post) 0"
    "laid_out ?base ?len (pre @ (b, n) # post @ us)" "total (pre @ (b, n) # post @ us) = ?len"
    using ok by (simp_all add: heap_ok_def)
  have L: "laid_out ?base ?len (pre @ (b, n) # post)" using H(3) by (simp add: layout)
  have L1: "laid_out ?base ?len (pre @ (b, ?t) # ?rem @ post @ us)"
    using laid_out_remainder [OF t(1,4) request_dvd H(3)] by simp
  obtain st1 st2 f where run: "(if ?t < n then split_block b ?t st else Inr st) = Inr st1"
    "unlink_block b (if pre = [] then 0 else fst (last pre)) st1 = Inr (st2\<lparr>free_list := f\<rparr>)"
    and st2: "seg (st2\<lparr>free_list := f\<rparr>) f (pre @ ?rem @ post) 0" "hsize st2 b = ?t"
    and tch: "touches st st2 (header_cells (pre @ (b, ?t) # ?rem))"
    using take_block_run [OF H(1) L H(2) t(1,4) request_dvd] by metis
  let ?st = "st2\<lparr>free_list := f, total_allocated := add64 (total_allocated st) ?t,
                num_allocations := add64 (num_allocations st) 1\<rparr>"
  have st2': "total_allocated st2 = total_allocated st" "num_allocations st2 = num_allocations st"
    "total_freed st2 = total_freed st" "num_frees st2 = num_frees st" "heap_at st2 ?base ?len"
    "heap_start st2 = ?base" "heap_size st2 = ?len"
    using tch H(1) by (auto simp: touches_def)
  have Lus: "laid_out ?base ?len ((pre @ (b, ?t) # ?rem) @ us)" using L1 by (auto simp: layout)
  have k: "keeps st st2 us" by (rule touches_keeps [OF tch Lus])
  have "hsize st2 (fst x) = snd x" if "x \<in> set us" for x
    using keeps_hsize [OF k _ that, of ?base ?len] Lus ok that by (simp add: layout heap_ok_def)
  moreover have "laid_out ?base ?len ((pre @ ?rem @ post) @ (b, ?t) # us)"
    using L1 by (auto simp: layout apart_sym)
  moreover have "seg ?st f (pre @ ?rem @ post) 0"
    by (rule seg_frame [OF _ st2(1)]) (simp add: same_header_def)
  moreover have "heap_at ?st ?base ?len" using st2'(5) by (simp add: heap_at_def)
  moreover have "total ((pre @ ?rem @ post) @ (b, ?t) # us) = ?len"
    using H(4) total_remainder [OF t(3), of b] by simp
  ultimately have "heap_ok ?st (pre @ ?rem @ post) ((b, ?t) # us)"
    using ok st2(2) unfolding heap_ok_def
    by (simp add: st2' add64_def mod_simps add.commute add.left_commute hsize_def)
  moreover have "keeps st ?st us" using k by (simp add: keeps_def)
  ultimately show ?thesis
    using my_malloc_search [OF ok assms(2) t(2,3)] run st2' by simp
qed

text \<open>A request that no free block can hold is refused, and nothing changes.\<close>

lemma my_malloc_none:
  assumes ok: "heap_ok st fl us" and t: "\<forall>x\<in>set fl. snd x < request n0"
  shows "my_malloc st n0 = Some (Inr (0, st))"
proof -
  have H: "heap_at st (heap_start st) (heap_size st)" "laid_out (heap_start st) (heap_size st) (fl @ [])"
    "seg st (free_list st) (fl @ []) 0"
    using ok by (simp_all add: heap_ok_def layout)
  from find_loop_chain [OF H, of "request n0" 0] t show ?thesis
    by (simp add: my_malloc_def Let_def request_def [symmetric] find_free_block_def del: HEADER_SIZE_eq)
qed

subsection \<open>Releasing\<close>

lemma release_block_run:
  assumes ok: "heap_ok st fl us" and "(b, n) \<in> set us"
  obtains st' where "release_block b st = Inr (Some (st'\<lparr>free_list := b,
      total_freed := add64 (total_freed st) n, num_frees := add64 (num_frees st) 1\<rparr>))"
    "seg st' b ((b, n) # fl) 0" "touches st st' (header_cells [(b, n)])"
proof -
  let ?base = "heap_start st" and ?len = "heap_size st"
  have H: "heap_at st ?base ?len" "laid_out ?base ?len (fl @ us)" "seg st (free_list st) fl 0"
    "hsize st b = n"
    using ok assms(2) by (auto simp: heap_ok_def)
  have i: "block_in ?base ?len (b, n)" using laid_out_block [OF H(2)] assms(2) by simp
  note h = block_hdr_ok [OF H(1) i]
  have n: "24 \<le> n" "n \<le> ?len" using i by (auto simp: block_in_def)
  have fr: "free_list st < 2 ^ 64"
  proof (cases fl)
    case (Cons x fl')
    then have "block_in ?base ?len x" "fst x = free_list st"
      using H(2,3) by (cases x; simp add: layout)+
    with block_hdr_ok(3) [OF H(1), of "fst x" "snd x"] show ?thesis by (simp add: block_in_def)
  qed (use H(3) in simp)
  let ?st = "st\<lparr>mem := (mem st)(b + 8 := cell_with_int (mem st (b + 8)) 1,
                b + 16 := word_of_nat (free_list st))\<rparr>"
  have tch: "touches st ?st (header_cells [(b, n)])" by (auto simp: touches_def)
  have "release_block b st = Inr (Some (?st\<lparr>free_list := b,
      total_freed := add64 (total_freed st) n, num_frees := add64 (num_frees st) 1\<rparr>))"
    using h n H(4) by (simp add: release_block_def) (simp add: hsize_def)
  moreover have "laid_out ?base ?len ([(b, n)] @ fl)"
    using H(2) assms(2) i by (auto simp: layout apart_sym)
  then have "seg ?st (free_list st) fl 0" by (rule seg_untouched [OF H(3) tch])
  then have "seg ?st b ((b, n) # fl) 0"
    using H(4) fr by (simp add: hsize_def hfree_def hnext_def)
  ultimately show thesis using that tch by blast
qed


lemma my_free_run:
  assumes ok: "heap_ok st fl (us1 @ (b, n) # us2)"
  shows "\<exists>st'. my_free st (b + 24) = Some (Inr st') \<and>
           heap_ok st' (coal ((b, n) # fl)) (us1 @ us2) \<and> keeps st st' (us1 @ us2)"
proof -
  let ?base = "heap_start st" and ?len = "heap_size st" and ?us = "us1 @ us2"
  have H: "heap_at st ?base ?len" "laid_out ?base ?len (fl @ us1 @ (b, n) # us2)"
    "total (fl @ us1 @ (b, n) # us2) = ?len"
    using ok by (simp_all add: heap_ok_def)
  have L: "laid_out ?base ?len (((b, n) # fl) @ ?us)"
    using H(2) laid_out_move [of ?base ?len "fl @ us1" "(b, n)" us2] by simp
  have i: "block_in ?base ?len (b, n)" using L by (simp add: layout)
  obtain st1 where st1: "release_block b st = Inr (Some (st1\<lparr>free_list := b,
      total_freed := add64 (total_freed st) n, num_frees := add64 (num_frees st) 1\<rparr>))"
    "seg st1 b ((b, n) # fl) 0" "touches st st1 (header_cells [(b, n)])"
    using release_block_run [OF ok] by (metis in_set_conv_decomp)
  let ?st1 = "st1\<lparr>free_list := b, total_freed := add64 (total_freed st) n, num_frees := add64 (num_frees st) 1\<rparr>"
  have "heap_at ?st1 ?base ?len" using H(1) st1(3) by (auto simp: touches_def heap_at_def)
  moreover have "laid_out ?base ?len ((b, n) # fl)" using L by (simp add: layout)
  moreover have "seg ?st1 b ((b, n) # fl) 0"
    by (rule seg_frame [OF _ st1(2)]) (simp add: same_header_def)
  ultimately obtain st2 where st2: "coalesce_loop ?st1 b = Some (Inr st2)"
    "seg st2 b (coal ((b, n) # fl)) 0" "touches ?st1 st2 (header_cells ((b, n) # fl))"
    using coalesce_loop_run by blast
  have f: "heap_at st2 ?base ?len" "heap_start st2 = ?base" "heap_size st2 = ?len" "free_list st2 = b"
    "total_allocated st2 = total_allocated st" "num_allocations st2 = num_allocations st"
    "total_freed st2 = add64 (total_freed st) n" "num_frees st2 = add64 (num_frees st) 1"
    using H(1) st1(3) st2(3) by (auto simp: touches_def heap_at_def)
  have "keeps st st1 ?us"
    by (rule touches_keeps [OF touches_mono [OF st1(3)] L]) simp
  then have k: "keeps st st2 ?us"
    using touches_keeps [OF st2(3) L] by (auto simp: keeps_def)
  have "hsize st2 (fst x) = snd x" if "x \<in> set ?us" for x
    using keeps_hsize [OF k _ that, of ?base ?len] L ok that by (auto simp: layout heap_ok_def)
  moreover have "laid_out ?base ?len (coal ((b, n) # fl) @ ?us)"
    using coal_laid_out [of ?base ?len "[]"] L by simp
  moreover have "total (coal ((b, n) # fl) @ ?us) = ?len" using H(3) by simp
  ultimately have "heap_ok st2 (coal ((b, n) # fl)) ?us"
    using ok st2(2) unfolding heap_ok_def
    by (simp add: f add64_def mod_simps add.commute add.left_commute) (simp add: ac_simps)
  with k st1(1) st2(1) show ?thesis
    using i block_hdr_ok [OF H(1) i] by (auto simp: my_free_def coalesce_def block_in_def)
qed


subsection \<open>Initialisation and statistics\<close>

text \<open>
  What the allocator needs of \<open>malloc\<close>: the region it returns is not at the null address, is
  aligned, and does not reach beyond the address space.
\<close>

definition malloc_region :: "nat \<Rightarrow> nat \<Rightarrow> bool" where
  "malloc_region p len \<longleftrightarrow> 0 < p \<and> p mod 8 = 0 \<and> p + len < 2 ^ 64"

lemma allocator_init_mem:
  assumes "malloc_region p len" "24 \<le> len"
  shows "allocator_init st len p = Inr (st\<lparr>heap_size := len, heap_start := p, arenas := (p, len) # arenas st,
     mem := (mem st)(p := word_of_nat len, p + 8 := cell_with_int (mem st (p + 8)) 1, p + 16 := 0),
     free_list := p\<rparr>)"
proof -
  let ?st = "st\<lparr>heap_size := len, heap_start := p, arenas := (p, len) # arenas st\<rparr>"
  have "hdr_ok ?st p"
    using assms by (intro block_hdr_ok(1) [of _ p len]) (auto simp: heap_at_def malloc_region_def block_in_def)
  then show ?thesis using assms(1) by (simp add: allocator_init_def malloc_region_def)
qed

lemma allocator_init_run:
  assumes "malloc_region p len" "24 \<le> len"
    and "total_allocated st = total_freed st" "num_allocations st = num_frees st"
      "total_freed st < 2 ^ 64" "num_frees st < 2 ^ 64"
  shows "\<exists>st'. allocator_init st len p = Inr st' \<and> heap_ok st' [(p, len)] [] \<and>
           heap_start st' = p \<and> heap_size st' = len \<and> arenas st' = (p, len) # arenas st"
proof -
  let ?st = "st\<lparr>heap_size := len, heap_start := p, arenas := (p, len) # arenas st\<rparr>"
  have "heap_at ?st p len" using assms(1) by (simp add: heap_at_def malloc_region_def)
  moreover have i: "block_in p len (p, len)"
    using assms(1,2) by (simp add: block_in_def malloc_region_def)
  ultimately have h: "0 < p" "len < 2 ^ 64" "heap_at ?st p len"
    using block_hdr_ok [of ?st p len p len] by simp_all
  let ?m = "(mem st)(p := word_of_nat len, p + 8 := cell_with_int (mem st (p + 8)) 1, p + 16 := 0)"
  have "allocator_init st len p = Inr (?st\<lparr>mem := ?m, free_list := p\<rparr>)"
    by (rule allocator_init_mem [OF assms(1,2)])
  moreover have "heap_ok (?st\<lparr>mem := ?m, free_list := p\<rparr>) [(p, len)] []"
    unfolding heap_ok_def using h assms i
    by (simp add: heap_at_def layout hsize_def hfree_def hnext_def)
  ultimately show ?thesis by simp
qed

lemma stats_loop_chain:
  assumes "heap_at st base len" "laid_out base len xs" "seg st c xs 0"
    "0 \<le> k" "k + int (length xs) \<le> INT_MAX" "t + total xs < 2 ^ 64"
  shows "stats_loop st c k t = Some (Inr (k + int (length xs), t + total xs))"
  using assms
proof (induction xs arbitrary: c k t)
  case Nil
  then show ?case by (simp add: stats_loop.simps)
next
  case (Cons x xs)
  obtain a n where x: "x = (a, n)" by (cases x)
  with Cons.prems have b: "block_in base len (a, n)" by (simp add: layout)
  have "stats_loop st (hnext st a) (k + 1) (t + n) = Some (Inr (k + 1 + int (length xs), t + n + total xs))"
    by (rule Cons.IH) (use Cons.prems x in \<open>auto simp: laid_out_Cons\<close>)
  with Cons.prems x block_hdr_ok [OF Cons.prems(1) b] show ?case
    by (simp add: stats_loop.simps [of st a k t] INT_MIN_def ac_simps)
qed

lemma total_ge: "\<forall>x\<in>set bs. 24 \<le> snd x \<Longrightarrow> 24 * length bs \<le> total bs"
  by (induction bs) auto

lemma heap_ok_sizes: "heap_ok st fl us \<Longrightarrow> x \<in> set (fl @ us) \<Longrightarrow> 24 \<le> snd x"
  by (auto simp: heap_ok_def block_in_def dest: laid_out_block)

lemma net_in_use:
  assumes "heap_ok st fl us"
  shows "sub64 (total_allocated st) (total_freed st) = total us"
proof -
  have f: "total_freed st < 2 ^ 64" "total us < 2 ^ 64"
    "total_allocated st = (total_freed st + total us) mod 2 ^ 64"
    using assms by (auto simp: heap_ok_def heap_at_def)
  have "sub64 ((f + u) mod m') f = u" if "m' = 2 ^ 64" "f < m'" "u < m'" for f u m' :: nat
  proof -
    have "(f + u) mod m' + (m' - f) = (if f + u < m' then u + m' else u)"
      using that(2,3) by (auto simp: mod_if)
    then show ?thesis using that(2,3) unfolding sub64_def that(1) [symmetric] by (simp split: if_splits)
  qed
  from this [OF refl f(1,2)] show ?thesis unfolding f(3) .
qed


section \<open>What a client may rely on\<close>

text \<open>
  A client of the allocator holds pointers with the number of bytes it asked for, and remembers
  the values it has stored in its memory. Its steps are the calls of \<open>my_malloc\<close> and \<open>my_free\<close> and
  stores inside its own blocks. All requests are for sizes whose blocks are multiples of a
  quantum \<open>q\<close>; with a quantum of at least the size of a header, splitting never leaves a piece
  too small for one.
\<close>

record client =
  c_heap :: allocator
  c_owned :: "(nat \<times> nat) list"
  c_data :: "nat \<Rightarrow> 64 word option"

definition client_init :: "nat \<Rightarrow> client \<Rightarrow> bool" where
  "client_init q c \<longleftrightarrow>
     24 \<le> q \<and> c_owned c = [] \<and> c_data c = Map.empty \<and>
     (\<exists>st len p. malloc_region p len \<and> q \<le> len \<and> q dvd len \<and>
        total_allocated st = 0 \<and> total_freed st = 0 \<and> num_allocations st = 0 \<and> num_frees st = 0 \<and>
        allocator_init st len p = Inr (c_heap c))"

definition forget :: "(nat \<Rightarrow> 64 word option) \<Rightarrow> nat \<Rightarrow> nat \<Rightarrow> nat \<Rightarrow> 64 word option" where
  "forget d p n = (\<lambda>x. if p \<le> x \<and> x < p + n then None else d x)"

inductive client_step :: "nat \<Rightarrow> client \<Rightarrow> client \<Rightarrow> bool" for q :: nat where
  client_malloc: "n < 2 ^ 63 \<Longrightarrow> q dvd request n \<Longrightarrow> my_malloc (c_heap c) n = Some (Inr (p, st)) \<Longrightarrow>
    client_step q c (c\<lparr>c_heap := st, c_owned := (if p = 0 then c_owned c else (p, n) # c_owned c)\<rparr>)"
| client_free: "(p, n) \<in> set (c_owned c) \<Longrightarrow> my_free (c_heap c) p = Some (Inr st) \<Longrightarrow>
    client_step q c (c\<lparr>c_heap := st, c_owned := remove1 (p, n) (c_owned c),
                       c_data := forget (c_data c) p n\<rparr>)"
| client_store: "(p, n) \<in> set (c_owned c) \<Longrightarrow> p \<le> x \<Longrightarrow> x + 8 \<le> p + n \<Longrightarrow> x mod 8 = 0 \<Longrightarrow>
    client_step q c (c\<lparr>c_heap := (c_heap c)\<lparr>mem := (mem (c_heap c))(x := w)\<rparr>,
                       c_data := (c_data c)(x \<mapsto> w)\<rparr>)"

text \<open>
  The invariant: the blocks in use are those the client owns, every block is a multiple of the
  quantum, and what the client has stored is still there.
\<close>

definition owned_block :: "nat \<times> nat \<Rightarrow> block" where
  "owned_block x = (fst x - 24, request (snd x))"

definition client_inv :: "nat \<Rightarrow> client \<Rightarrow> bool" where
  "client_inv q c \<longleftrightarrow> 24 \<le> q \<and>
     (\<exists>fl. heap_ok (c_heap c) fl (map owned_block (c_owned c)) \<and>
        (\<forall>x\<in>set (fl @ map owned_block (c_owned c)). q dvd snd x)) \<and>
     (\<forall>x\<in>set (c_owned c). 24 \<le> fst x \<and> 0 < snd x \<and> snd x < 2 ^ 63) \<and>
     (\<forall>x w. c_data c x = Some w \<longrightarrow> mem (c_heap c) x = w \<and>
        (\<exists>(p, n)\<in>set (c_owned c). p \<le> x \<and> x < p + n))"

lemma request_covers: "n < 2 ^ 63 \<Longrightarrow> n + 24 \<le> request n"
proof -
  have "n \<le> (n + 7) div 8 * 8" by presburger
  then show "n < 2 ^ 63 \<Longrightarrow> n + 24 \<le> request n" by (simp add: request_small)
qed

lemma multiples_apart: "(q::nat) dvd n \<Longrightarrow> q dvd t \<Longrightarrow> t \<le> n \<Longrightarrow> n = t \<or> t + q \<le> n"
  by (metis dvd_diff_nat dvd_imp_le le_add_diff_inverse nat_add_left_cancel_le zero_less_diff le_neq_implies_less)

lemma coal_dvd: "\<forall>x\<in>set xs. q dvd snd x \<Longrightarrow> \<forall>x\<in>set (coal xs). (q::nat) dvd snd x"
  by (induction xs rule: coal.induct) auto

lemma first_fit_split:
  fixes fl :: "block list"
  obtains "\<forall>x\<in>set fl. snd x < t"
  | pre b n post where "fl = pre @ (b, n) # post" "\<forall>x\<in>set pre. snd x < t" "t \<le> n"
proof (cases "\<exists>x\<in>set fl. t \<le> snd x")
  case True
  then obtain pre x post where *: "fl = pre @ x # post" "t \<le> snd x" "\<forall>y\<in>set pre. \<not> t \<le> snd y"
    using split_list_first_prop [OF True] by blast
  then have "\<forall>y\<in>set pre. snd y < t" by (meson linorder_not_le)
  with * show thesis by (intro that(2) [of pre "fst x" "snd x" post]) simp_all
qed (use that(1) in \<open>auto simp: linorder_not_le\<close>)


lemma client_invI:
  assumes "24 \<le> q" "heap_ok (c_heap c) fl (map owned_block (c_owned c))"
    and "\<forall>x\<in>set (fl @ map owned_block (c_owned c)). q dvd snd x"
    and "\<forall>x\<in>set (c_owned c). 24 \<le> fst x \<and> 0 < snd x \<and> snd x < 2 ^ 63"
    and "\<And>x w. c_data c x = Some w \<Longrightarrow> mem (c_heap c) x = w \<and> (\<exists>(p, n)\<in>set (c_owned c). p \<le> x \<and> x < p + n)"
  shows "client_inv q c"
  unfolding client_inv_def using assms by blast

lemma client_inv_data:
  assumes "client_inv q c" "c_data c x = Some w"
  obtains p n where "(p, n) \<in> set (c_owned c)" "p \<le> x" "x < p + n" "mem (c_heap c) x = w"
    "24 \<le> p" "n < 2 ^ 63"
  using assms unfolding client_inv_def by fastforce

lemma client_inv_init: "client_init q c \<Longrightarrow> client_inv q c"
proof -
  assume c: "client_init q c"
  then obtain st len p where i: "malloc_region p len" "q \<le> len" "24 \<le> q" "q dvd len"
    "total_allocated st = 0" "total_freed st = 0" "num_allocations st = 0" "num_frees st = 0"
    "allocator_init st len p = Inr (c_heap c)"
    unfolding client_init_def by blast
  then have "heap_ok (c_heap c) [(p, len)] []"
    using allocator_init_run [OF i(1), of st] by auto
  moreover have "\<forall>x\<in>set ([(p, len)] @ map owned_block (c_owned c)). q dvd snd x" "c_owned c = []"
    using c i(4) by (simp_all add: client_init_def)
  ultimately show "client_inv q c"
    using c unfolding client_inv_def by (intro conjI exI [of _ "[(p, len)]"]) (auto simp: client_init_def)
qed

text \<open>What one call of \<open>my_malloc\<close> does to a client's heap.\<close>

lemma my_malloc_client:
  assumes ok: "heap_ok st fl us" "\<forall>x\<in>set fl. q dvd snd x" "24 \<le> q"
    and n: "n < 2 ^ 63" "q dvd request n"
  obtains (refused) "my_malloc st n = Some (Inr (0, st))"
  | (granted) b st' fl' where "0 < n" "my_malloc st n = Some (Inr (b + 24, st'))"
      "heap_ok st' fl' ((b, request n) # us)" "\<forall>x\<in>set fl'. q dvd snd x" "keeps st st' us"
proof (cases "n = 0")
  case True
  then show thesis using refused by (simp add: my_malloc_def)
next
  case False
  show thesis
  proof (cases rule: first_fit_split [of fl "request n"])
    case 1
    with refused my_malloc_none [OF ok(1) 1] show thesis by blast
  next
    case (2 pre b k post)
    have d: "q dvd k" using 2(1) ok(2) by auto
    have "k = request n \<or> request n + 24 \<le> k"
      using multiples_apart [OF d n(2) 2(3)] ok(3) by auto
    moreover have "24 \<le> request n" using request_covers [OF n(1)] by simp
    ultimately obtain st' where "my_malloc st n = Some (Inr (b + 24, st'))"
      "heap_ok st' (pre @ remainder (b, k) (request n) @ post) ((b, request n) # us)" "keeps st st' us"
      using my_malloc_found [of st pre b k post us n] ok(1) 2 False by blast
    moreover have "\<forall>x\<in>set (pre @ remainder (b, k) (request n) @ post). q dvd snd x"
      using ok(2) 2(1,3) d n(2) by (auto simp: remainder_def)
    ultimately show thesis using granted False by blast
  qed
qed

lemma owned_region:
  assumes "24 \<le> p" "n < 2 ^ 63" "p \<le> x" "x < p + n"
  shows "fst (owned_block (p, n)) + 24 \<le> x" "x < fst (owned_block (p, n)) + snd (owned_block (p, n))"
  using assms request_covers [OF assms(2)] by (auto simp: owned_block_def)

lemma keeps_owned:
  assumes "keeps st st' (map owned_block os)" "(p, n) \<in> set os" "24 \<le> p" "n < 2 ^ 63" "p \<le> x" "x < p + n"
  shows "mem st' x = mem st x"
proof -
  have "owned_block (p, n) \<in> set (map owned_block os)" using assms(2) by (simp add: image_iff) blast
  with assms(1) owned_region [OF assms(3-6)] show ?thesis unfolding keeps_def by auto
qed

lemma client_inv_malloc:
  assumes "client_inv q c" "n < 2 ^ 63" "q dvd request n" "my_malloc (c_heap c) n = Some (Inr (p, st))"
  shows "client_inv q (c\<lparr>c_heap := st, c_owned := (if p = 0 then c_owned c else (p, n) # c_owned c)\<rparr>)"
proof -
  from assms(1) obtain fl where I: "24 \<le> q" "heap_ok (c_heap c) fl (map owned_block (c_owned c))"
    "\<forall>x\<in>set (fl @ map owned_block (c_owned c)). q dvd snd x"
    by (auto simp: client_inv_def)
  then have q: "\<forall>x\<in>set fl. q dvd snd x" by simp
  show ?thesis
  proof (cases rule: my_malloc_client [OF I(2) q I(1) assms(2,3), case_names refused granted])
    case refused
    with assms(1,4) show ?thesis by (auto simp: client_inv_def)
  next
    case (granted b st' fl')
    then have p: "p = b + 24" "st' = st" using assms(4) by simp_all
    have "mem st x = w \<and> (\<exists>(p, n)\<in>set (c_owned c). p \<le> x \<and> x < p + n)" if "c_data c x = Some w" for x w
    proof -
      from client_inv_data [OF assms(1) that] obtain p' n' where o: "(p', n') \<in> set (c_owned c)"
        "p' \<le> x" "x < p' + n'" "mem (c_heap c) x = w" "24 \<le> p'" "n' < 2 ^ 63" .
      from keeps_owned [OF granted(5) o(1,5,6,2,3)] p(2) have "mem st x = mem (c_heap c) x" by simp
      with o show ?thesis by auto
    qed
    moreover have ob: "owned_block (p, n) = (b, request n)" using p(1) by (simp add: owned_block_def)
    moreover have "\<forall>x\<in>set (c_owned c). 24 \<le> fst x \<and> 0 < snd x \<and> snd x < 2 ^ 63"
      using assms(1) by (simp add: client_inv_def)
    ultimately show ?thesis
      using I granted assms(2,3) p by (intro client_invI [where fl = fl']) (simp_all, blast)
  qed
qed


lemma client_inv_free:
  assumes "client_inv q c" "(p, n) \<in> set (c_owned c)" "my_free (c_heap c) p = Some (Inr st)"
  shows "client_inv q (c\<lparr>c_heap := st, c_owned := remove1 (p, n) (c_owned c), c_data := forget (c_data c) p n\<rparr>)"
proof -
  let ?own = "c_owned c"
  from assms(1) obtain fl where I: "24 \<le> q" "heap_ok (c_heap c) fl (map owned_block ?own)"
    "\<forall>x\<in>set (fl @ map owned_block ?own). q dvd snd x" "24 \<le> p" "n < 2 ^ 63"
    using assms(2) by (fastforce simp: client_inv_def)
  obtain xs ys where o: "?own = xs @ (p, n) # ys" "(p, n) \<notin> set xs"
    using split_list_first [OF assms(2)] by blast
  then have rem: "remove1 (p, n) ?own = xs @ ys" by (simp add: remove1_append)
  let ?us = "map owned_block (xs @ ys)" and ?b = "p - 24"
  have ob: "owned_block (p, n) = (?b, request n)" "?b + 24 = p" using I(4) by (simp_all add: owned_block_def)
  have "heap_ok (c_heap c) fl (map owned_block xs @ (?b, request n) # map owned_block ys)"
    using I(2) by (simp add: o(1) ob)
  from my_free_run [OF this] assms(3) ob(2) have r:
    "heap_ok st (coal ((?b, request n) # fl)) ?us" "keeps (c_heap c) st ?us"
    by auto
  have "mem st x = w \<and> (\<exists>(p, n)\<in>set (xs @ ys). p \<le> x \<and> x < p + n)" if "forget (c_data c) p n x = Some w" for x w
  proof -
    from that have "c_data c x = Some w" "\<not> (p \<le> x \<and> x < p + n)" by (auto simp: forget_def split: if_splits)
    with client_inv_data [OF assms(1) this(1)] o(1) obtain p' n' where o': "(p', n') \<in> set (xs @ ys)"
      "p' \<le> x" "x < p' + n'" "mem (c_heap c) x = w" "24 \<le> p'" "n' < 2 ^ 63"
      by (metis Un_iff fst_conv insert_iff list.simps(15) set_append snd_conv)
    from keeps_owned [OF r(2) o'(1,5,6,2,3)] have "mem st x = mem (c_heap c) x" .
    with o' show ?thesis by auto
  qed
  moreover have "\<forall>x\<in>set ((?b, request n) # fl). q dvd snd x" using I(3) by (simp add: o(1) ob)
  from coal_dvd [OF this] have "\<forall>x\<in>set (coal ((?b, request n) # fl) @ ?us). q dvd snd x"
    using I(3) o(1) by (simp add: ball_Un)
  moreover have "\<forall>x\<in>set (xs @ ys). 24 \<le> fst x \<and> 0 < snd x \<and> snd x < 2 ^ 63"
    using assms(1) o(1) by (simp add: client_inv_def)
  ultimately show ?thesis
    using I(1) r(1) unfolding rem
    by (intro client_invI [where fl = "coal ((?b, request n) # fl)"]) (simp_all del: set_append coal.simps)
qed

text \<open>A client that stays inside its blocks does not disturb the allocator.\<close>

lemma heap_ok_user_store:
  assumes ok: "heap_ok st fl us" and b: "(b, k) \<in> set us" "b + 24 \<le> x" "x < b + k"
  shows "heap_ok (st\<lparr>mem := (mem st)(x := w)\<rparr>) fl us"
proof -
  let ?base = "heap_start st" and ?len = "heap_size st"
  have L: "laid_out ?base ?len (fl @ us)" using ok by (simp add: heap_ok_def)
  then have "laid_out ?base ?len (fl @ [(b, k)])" using b(1) by (auto simp: layout intro: laid_out_block)
  then have "x \<notin> header_cells fl" by (rule apart_header_cells) (use b in auto)
  then have "\<forall>y\<in>set fl. same_header st (st\<lparr>mem := (mem st)(x := w)\<rparr>) (fst y)"
    by (auto simp: same_header_def header_cells_def)
  moreover have "x \<noteq> fst y" if "y \<in> set us" for y
  proof (cases "y = (b, k)")
    case False
    have "apart y (b, k)"
    proof -
      have "sorted_wrt apart us" using L by (simp add: laid_out_def sorted_wrt_append)
      then show ?thesis using False that b(1) apart_sym
        by (metis (no_types, lifting) in_set_conv_nth linorder_neqE_nat sorted_wrt_nth_less)
    qed
    moreover have "24 \<le> snd y" using heap_ok_sizes [OF ok] that by simp
    ultimately show ?thesis using b by (auto simp: apart_def)
  qed (use b in auto)
  ultimately show ?thesis
    using ok unfolding heap_ok_def
    by (auto simp: hsize_def heap_at_def intro: seg_frame)
qed

lemma client_inv_store:
  assumes "client_inv q c" "(p, n) \<in> set (c_owned c)" "p \<le> x" "x + 8 \<le> p + n"
  shows "client_inv q (c\<lparr>c_heap := (c_heap c)\<lparr>mem := (mem (c_heap c))(x := w)\<rparr>, c_data := (c_data c)(x \<mapsto> w)\<rparr>)"
proof -
  from assms(1) obtain fl where I: "heap_ok (c_heap c) fl (map owned_block (c_owned c))"
    "\<forall>x\<in>set (fl @ map owned_block (c_owned c)). q dvd snd x" "24 \<le> p" "n < 2 ^ 63"
    using assms(2) by (fastforce simp: client_inv_def)
  have r: "fst (owned_block (p, n)) + 24 \<le> x" "x < fst (owned_block (p, n)) + snd (owned_block (p, n))"
    using owned_region [OF I(3,4) assms(3)] assms(4) by auto
  have "(fst (owned_block (p, n)), snd (owned_block (p, n))) \<in> set (map owned_block (c_owned c))"
    using assms(2) by (simp del: set_map add: set_map image_iff) blast
  note ok = heap_ok_user_store [OF I(1) this r, of w]
  have "\<exists>(p, n)\<in>set (c_owned c). p \<le> y \<and> y < p + n" if "((c_data c)(x \<mapsto> w)) y = Some v" for y v
  proof (cases "y = x")
    case True
    with assms(2-4) show ?thesis by (intro bexI [of _ "(p, n)"]) auto
  next
    case False
    with that have "c_data c y = Some v" by simp
    from client_inv_data [OF assms(1) this] obtain p' n' where
      "(p', n') \<in> set (c_owned c)" "p' \<le> y" "y < p' + n'" .
    then show ?thesis by (intro bexI [of _ "(p', n')"]) auto
  qed
  moreover have "\<forall>y\<in>set (c_owned c). 24 \<le> fst y \<and> 0 < snd y \<and> snd y < 2 ^ 63" "24 \<le> q"
    using assms(1) by (auto simp: client_inv_def)
  moreover have "mem (c_heap c) y = v" if "c_data c y = Some v" for y v
    using client_inv_data [OF assms(1) that] by blast
  ultimately show ?thesis
    using ok I(2) by (intro client_invI [where fl = fl]) (simp_all split: if_splits)
qed

interpretation client: invariant_of "client_init q" "client_step q" "client_inv q" for q
proof
  show "client_inv q t" if "client_step q s t" "client_inv q s" for s t
    using that by cases (simp_all only: client_inv_malloc client_inv_free client_inv_store)
qed (rule client_inv_init)


section \<open>Properties\<close>

text \<open>A heap of 240 bytes at address 64, freshly initialised; the memory held zeros.\<close>

definition demo_state :: allocator where
  "demo_state = \<lparr>mem = (\<lambda>_. 0), arenas = [], heap_start = 0, heap_size = 0, free_list = 0,
     total_allocated = 0, total_freed = 0, num_allocations = 0, num_frees = 0\<rparr>"

definition demo_heap :: "nat \<Rightarrow> allocator" where
  "demo_heap len = demo_state\<lparr>heap_size := len, heap_start := 64, arenas := [(64, len)], free_list := 64,
     mem := (\<lambda>_. 0)(64 := word_of_nat len, 72 := 1)\<rparr>"

lemma demo_heap_init:
  assumes "24 \<le> len" "len < 2 ^ 60"
  shows "allocator_init demo_state len 64 = Inr (demo_heap len)"
  using assms
  by (subst allocator_init_mem) (auto simp: malloc_region_def demo_heap_def demo_state_def cell_with_int_def)

lemma demo_heap_ok: "24 \<le> len \<Longrightarrow> len < 2 ^ 60 \<Longrightarrow> heap_ok (demo_heap len) [(64, len)] []"
  using allocator_init_run [of 64 len demo_state] demo_heap_init [of len]
  by (simp add: malloc_region_def demo_state_def)



text \<open>
  C10: \<open>my_free\<close> of a block in use returns, puts the block at the head of the free list and merges
  every free block with its successor on the list that starts where it ends; the other blocks in
  use are not written to.
\<close>

theorem my_free_refines:
  assumes "heap_ok st fl us" "(b, n) \<in> set us"
  shows "\<exists>st'. my_free st (b + 24) = Some (Inr st') \<and>
           heap_ok st' (coal ((b, n) # fl)) (remove1 (b, n) us) \<and> keeps st st' (remove1 (b, n) us)"
proof -
  obtain us1 us2 where us: "us = us1 @ (b, n) # us2" "(b, n) \<notin> set us1"
    using split_list_first [OF assms(2)] by blast
  then have "remove1 (b, n) us = us1 @ us2" by (simp add: remove1_append)
  with my_free_run [of st fl us1 b n us2] assms(1) us(1) show ?thesis by simp
qed

lemma demo_full:
  obtains st where "heap_ok st [] [(112, 48), (64, 48)]" "heap_size st = 96"
proof -
  obtain st1 where st1: "heap_ok st1 [(112, 48)] [(64, 48)]" "heap_size st1 = 96"
    using my_malloc_found [of "demo_heap 96" "[]" 64 96 "[]" "[]" 24] demo_heap_ok [of 96]
    by (auto simp: request_small remainder_def keeps_def demo_heap_def)
  obtain st2 where "heap_ok st2 [] [(112, 48), (64, 48)]" "heap_size st2 = 96"
    using my_malloc_found [of st1 "[]" 112 48 "[]" "[(64, 48)]" 24] st1
    by (auto simp: request_small remainder_def keeps_def)
  then show thesis by (rule that)
qed

theorem my_free_refines_witness:
  "\<exists>st st'. heap_ok st [] [(112, 48), (64, 48)] \<and> my_free st 88 = Some (Inr st') \<and>
     heap_ok st' [(64, 48)] [(112, 48)]"
proof -
  obtain st where st: "heap_ok st [] [(112, 48), (64, 48)]" by (rule demo_full)
  with my_free_refines [OF st, of 64 48] show ?thesis by auto
qed

text \<open>
  Allocating and releasing is neutral: when the free list is merged and its first block
  serves the request, releasing the new block right away restores the free list and the blocks
  in use exactly.
\<close>

theorem malloc_free_roundtrip:
  assumes "heap_ok st ((b, k) # fl) us" "0 < n" "n < 2 ^ 63" "request n \<le> k"
    and "k = request n \<or> request n + 24 \<le> k"
    and "coal ((b, k) # fl) = (b, k) # fl"
  shows "\<exists>st1 st2. my_malloc st n = Some (Inr (b + 24, st1)) \<and> my_free st1 (b + 24) = Some (Inr st2) \<and>
           heap_ok st2 ((b, k) # fl) us"
proof -
  have "24 \<le> request n" using request_covers [OF assms(3)] by simp
  then obtain st1 where st1: "my_malloc st n = Some (Inr (b + 24, st1))"
    "heap_ok st1 (remainder (b, k) (request n) @ fl) ((b, request n) # us)"
    using my_malloc_found [of st "[]" b k fl us n] assms by auto
  have c: "coal ((b, request n) # remainder (b, k) (request n) @ fl) = (b, k) # fl"
    using assms(4,5,6) by (auto simp: remainder_def)
  from my_free_run [of st1 _ "[]" b "request n" us] st1(2) obtain st2 where
    "my_free st1 (b + 24) = Some (Inr st2)" "heap_ok st2 ((b, k) # fl) us"
    unfolding append_Nil using c by metis
  with st1(1) show ?thesis by blast
qed

theorem malloc_free_roundtrip_witness:
  "\<exists>st1 st2. my_malloc (demo_heap 240) 20 = Some (Inr (88, st1)) \<and> my_free st1 88 = Some (Inr st2) \<and>
     heap_ok st2 [(64, 240)] []"
  using malloc_free_roundtrip [OF demo_heap_ok [of 240], of 20] by (simp add: request_small)

text \<open>
  The figures \<open>allocator_stats\<close> prints are exact: the net memory in use is the total size of
  the blocks in use, free memory is the rest of the heap, and the number of free blocks is the
  length of the free list.
\<close>

theorem allocator_stats_exact:
  assumes "heap_ok st fl us" "heap_size st \<le> 24 * 2147483647"
  shows "\<exists>r. allocator_stats st = Some (Inr r) \<and> r_net r = total us \<and> r_free_memory r = total fl \<and>
           r_net r + r_free_memory r = heap_size st \<and> r_free_blocks r = int (length fl)"
proof -
  have H: "heap_at st (heap_start st) (heap_size st)" "laid_out (heap_start st) (heap_size st) fl"
    "seg st (free_list st) fl 0" "total fl + total us = heap_size st" "heap_size st < 2 ^ 64"
    using assms(1) by (auto simp: heap_ok_def layout heap_at_def)
  have "24 * length fl \<le> total fl"
    using heap_ok_sizes [OF assms(1)] by (intro total_ge) auto
  then have "int (length fl) \<le> INT_MAX" using assms(2) H(4) by (simp add: INT_MAX_def)
  then have "stats_loop st (free_list st) 0 0 = Some (Inr (int (length fl), total fl))"
    using stats_loop_chain [OF H(1-3), of 0 0] H(4,5) by simp
  then show ?thesis
    using net_in_use [OF assms(1)] H(4) by (simp add: allocator_stats_def)
qed

theorem allocator_stats_exact_witness:
  "\<exists>r. allocator_stats (demo_heap 240) = Some (Inr r) \<and> r_net r = 0 \<and> r_free_memory r = 240"
  using allocator_stats_exact [OF demo_heap_ok [of 240]] by (auto simp: demo_heap_def)


definition demo_client :: client where
  "demo_client = \<lparr>c_heap = demo_heap 240, c_owned = [], c_data = Map.empty\<rparr>"

lemma demo_client_init: "client_init 24 demo_client"
proof -
  have "malloc_region 64 240" by (simp add: malloc_region_def)
  moreover have "allocator_init demo_state 240 64 = Inr (c_heap demo_client)"
    using demo_heap_init [of 240] by (simp add: demo_client_def)
  moreover have "24 dvd (240::nat)" by simp
  ultimately show ?thesis unfolding client_init_def
    by (intro conjI exI [of _ demo_state] exI [of _ 240] exI [of _ 64]) (simp_all add: demo_state_def demo_client_def)
qed

lemma demo_client_malloc:
  obtains st where "reachable (client_init 24) (client_step 24) (demo_client\<lparr>c_heap := st, c_owned := [(88, 24)]\<rparr>)"
proof -
  obtain st where st: "my_malloc (demo_heap 240) 24 = Some (Inr (88, st))"
    using my_malloc_found [of "demo_heap 240" "[]" 64 240 "[]" "[]" 24] demo_heap_ok [of 240]
    by (auto simp: request_small)
  have r: "reachable (client_init 24) (client_step 24) demo_client"
    by (rule reach_init) (rule demo_client_init)
  have "reachable (client_init 24) (client_step 24) (demo_client\<lparr>c_heap := st, c_owned := [(88, 24)]\<rparr>)"
    by (rule reach_via [OF r], rule client_malloc [where n = 24 and p = 88 and st = st])
       (simp_all add: request_small demo_client_def st)
  then show thesis by (rule that)
qed


text \<open>
  C11: The allocator stays usable: in every reachable state of such a client each request of a
  multiple of the quantum and each release of an owned pointer returns, without undefined
  behaviour, and a request is refused only when no free block can hold it.
\<close>

theorem client_calls_return:
  assumes "reachable (client_init q) (client_step q) c"
  shows "(\<forall>n. n < 2 ^ 63 \<and> q dvd request n \<longrightarrow> (\<exists>p st. my_malloc (c_heap c) n = Some (Inr (p, st)))) \<and>
         (\<forall>(p, n)\<in>set (c_owned c). \<exists>st. my_free (c_heap c) p = Some (Inr st)) \<and>
         (\<exists>fl us. heap_ok (c_heap c) fl us \<and>
            (\<forall>n. 0 < n \<and> n < 2 ^ 63 \<and> q dvd request n \<and> (\<exists>x\<in>set fl. request n \<le> snd x) \<longrightarrow>
              (\<exists>p st. my_malloc (c_heap c) n = Some (Inr (p, st)) \<and> p \<noteq> 0)))"
proof -
  have inv: "client_inv q c" using assms by (rule client.reachable_inv)
  then obtain fl where ok: "24 \<le> q" "heap_ok (c_heap c) fl (map owned_block (c_owned c))"
    "\<forall>x\<in>set fl. q dvd snd x"
    by (auto simp: client_inv_def)
  have "\<exists>p st. my_malloc (c_heap c) n = Some (Inr (p, st))" if "n < 2 ^ 63" "q dvd request n" for n
    by (rule my_malloc_client [OF ok(2,3,1) that]) auto
  moreover have "\<exists>st. my_free (c_heap c) p = Some (Inr st)" if own: "(p, n) \<in> set (c_owned c)" for p n
  proof -
    obtain xs ys where o: "c_owned c = xs @ (p, n) # ys" using split_list [OF own] by blast
    have "24 \<le> p" using inv own by (auto simp: client_inv_def)
    then have "owned_block (p, n) = (p - 24, request n)" "p - 24 + 24 = p" by (simp_all add: owned_block_def)
    with my_free_run [of "c_heap c" fl "map owned_block xs" "p - 24" "request n" "map owned_block ys"] ok(2) o
    show ?thesis by auto
  qed
  moreover have "\<exists>p st. my_malloc (c_heap c) n = Some (Inr (p, st)) \<and> p \<noteq> 0"
    if "0 < n" "n < 2 ^ 63" "q dvd request n" "\<exists>x\<in>set fl. request n \<le> snd x" for n
  proof (cases rule: first_fit_split [of fl "request n"])
    case (2 pre b k post)
    then have "q dvd k" using ok(3) by auto
    from multiples_apart [OF this that(3) 2(3)] ok(1) have "k = request n \<or> request n + 24 \<le> k" by auto
    with my_malloc_found [of "c_heap c" pre b k post "map owned_block (c_owned c)" n] ok(2) 2 that(1)
      request_covers [OF that(2)]
    show ?thesis by auto
  qed (use that(4) in auto)
  ultimately show ?thesis using ok(2) by blast
qed

theorem client_calls_return_witness:
  "\<exists>c. reachable (client_init 24) (client_step 24) c \<and> c_owned c = [(88, 24)] \<and>
     (\<exists>st. my_free (c_heap c) 88 = Some (Inr st)) \<and> (\<exists>p st. my_malloc (c_heap c) 72 = Some (Inr (p, st)))"
proof -
  obtain st where r: "reachable (client_init 24) (client_step 24) (demo_client\<lparr>c_heap := st, c_owned := [(88, 24)]\<rparr>)"
    by (rule demo_client_malloc)
  from client_calls_return [OF r] show ?thesis
    by (intro exI [of _ "demo_client\<lparr>c_heap := st, c_owned := [(88, 24)]\<rparr>"] conjI r)
       (simp_all add: request_small)
qed

subsection \<open>Outside these bounds\<close>

text \<open>
  A split that leaves fewer than 24 bytes writes a header where there is no room for one: on a
  freshly initialised heap, a request that leaves between 1 and 23 bytes makes \<open>my_malloc\<close> write
  beyond the end of the memory it got from \<open>malloc\<close>.
\<close>

theorem my_malloc_small_remainder:
  assumes "malloc_region p len" "arenas st0 = []" "allocator_init st0 len p = Inr st"
    and "0 < n" "n < 2 ^ 63" "request n < len" "len < request n + 24"
  shows "my_malloc st n = Some (Inl Out_Of_Bounds)"
proof -
  have r: "24 < request n" using request_covers [OF assms(5)] assms(4) by simp
  have al: "p mod 8 = 0" "0 < p" "p + len < 2 ^ 64" using assms(1) by (auto simp: malloc_region_def)
  have st: "st = st0\<lparr>heap_size := len, heap_start := p, arenas := [(p, len)],
     mem := (mem st0)(p := word_of_nat len, p + 8 := cell_with_int (mem st0 (p + 8)) 1, p + 16 := 0),
     free_list := p\<rparr>"
    using allocator_init_mem [OF assms(1), of st0] assms(2,3,6) r by simp
  have h: "hdr_ok st p"
    using block_hdr_ok(1) [of st p len p len] assms(1,6) r
    by (simp add: st heap_at_def malloc_region_def block_in_def)
  have f: "hsize st p = len" "hfree st p = 1" "free_list st = p" "heap_start st = p" "heap_size st = len"
    using al(3) by (simp_all add: st hsize_def hfree_def)
  have "find_free_block st (request n) = Some (Inr (p, 0))"
    using h f al(2) assms(6) find_loop.simps [of st "request n" p 0]
    by (simp add: find_free_block_def block_fits_def)
  moreover have "split_block p (request n) st = Inl Out_Of_Bounds"
  proof -
    let ?nb = "p + request n"
    have m: "?nb mod 8 = 0" "(?nb + 8) mod 8 = 0" "(?nb + 16) mod 8 = 0"
      using al(1) request_dvd [of n] by (auto elim!: dvdE)
    have ia: "in_arena (st\<lparr>mem := m\<rparr>) x w \<longleftrightarrow> p \<le> x \<and> x + w \<le> p + len" for m x w
      by (simp add: st in_arena_def)
    have ia': "in_arena st x w \<longleftrightarrow> p \<le> x \<and> x + w \<le> p + len" for x w
      by (simp add: st in_arena_def)
    have h': "get_next (st\<lparr>mem := m\<rparr>) p = Inr (hnext (st\<lparr>mem := m\<rparr>) p)" for m
      using h by simp
    show ?thesis
      using h f(1) r assms(6,7) al(3)
      by (auto simp: split_block_def Let_def set_size_def set_is_free_def set_next_def store_def store_int_def
          check_access_def ia ia' m h' bind_r_Inl)
  qed
  ultimately show ?thesis
    using h f al(2) assms(4,6)
    by (simp add: my_malloc_def Let_def request_def [symmetric] del: HEADER_SIZE_eq)
qed

theorem my_malloc_small_remainder_witness:
  "allocator_init demo_state 56 64 = Inr (demo_heap 56) \<and>
   my_malloc (demo_heap 56) 20 = Some (Inl Out_Of_Bounds)"
proof -
  have "allocator_init demo_state 56 64 = Inr (demo_heap 56)" using demo_heap_init [of 56] by simp
  with my_malloc_small_remainder [of 64 56 demo_state "demo_heap 56" 20] show ?thesis
    by (simp add: malloc_region_def demo_state_def request_small)
qed

text \<open>
  \<open>ALIGN\<close> wraps around for the largest requests: \<open>my_malloc (SIZE_MAX)\<close> does not fail but
  returns a block of 24 bytes, which is its header alone, so the caller owns no byte of memory
  behind the pointer.
\<close>

theorem my_malloc_size_max:
  assumes "heap_ok st ((b, k) # fl) us" "k = 24 \<or> 48 \<le> k"
  shows "\<exists>st'. my_malloc st (2 ^ 64 - 1) = Some (Inr (b + 24, st')) \<and>
           heap_ok st' (remainder (b, k) 24 @ fl) ((b, 24) # us)"
proof -
  have r: "request (2 ^ 64 - 1) = 24" by (simp add: request_def ALIGN_nat)
  have "24 \<le> request (2 ^ 64 - 1)" "request (2 ^ 64 - 1) \<le> k"
    "k = request (2 ^ 64 - 1) \<or> request (2 ^ 64 - 1) + 24 \<le> k" "2 ^ 64 - 1 \<noteq> (0 :: nat)"
    unfolding r using assms(2) by auto
  with my_malloc_found [of st "[]" b k fl us "2 ^ 64 - 1"] assms(1) show ?thesis
    unfolding r by auto
qed

theorem my_malloc_size_max_witness:
  "\<exists>st'. my_malloc (demo_heap 240) 18446744073709551615 = Some (Inr (88, st'))"
  using my_malloc_size_max [OF demo_heap_ok [of 240]] by auto

text \<open>
  \<open>coalesce\<close> only sees neighbours that follow each other on the free list in address order.
  Releasing two adjacent blocks in ascending order leaves them apart, and a request that their
  joint space could hold is refused although all memory is free.
\<close>

theorem coalesce_misses_neighbours:
  assumes "heap_ok st [] [(a + n, m), (a, n)]"
    and "max n m < request k"
  shows "\<exists>st1 st2. my_free st (a + 24) = Some (Inr st1) \<and> my_free st1 (a + n + 24) = Some (Inr st2) \<and>
           heap_ok st2 [(a + n, m), (a, n)] [] \<and> my_malloc st2 k = Some (Inr (0, st2))"
proof -
  obtain st1 where 1: "my_free st (a + 24) = Some (Inr st1)" "heap_ok st1 [(a, n)] [(a + n, m)]"
    using my_free_run [of st "[]" "[(a + n, m)]" a n "[]"] assms(1) by auto
  have "0 < n" using heap_ok_sizes [OF assms(1), of "(a, n)"] by simp
  then have c: "coal [(a + n, m), (a, n)] = [(a + n, m), (a, n)]" by simp
  obtain st2 where 2: "my_free st1 (a + n + 24) = Some (Inr st2)" "heap_ok st2 [(a + n, m), (a, n)] []"
    using my_free_run [of st1 "[(a, n)]" "[]" "a + n" m "[]"] 1(2) c by auto
  have "my_malloc st2 k = Some (Inr (0, st2))"
    by (rule my_malloc_none [OF 2(2)]) (use assms(2) in auto)
  with 1 2 show ?thesis by blast
qed

theorem coalesce_misses_neighbours_witness:
  "\<exists>st st1 st2. heap_size st = 96 \<and> my_free st 88 = Some (Inr st1) \<and> my_free st1 136 = Some (Inr st2) \<and>
     heap_ok st2 [(112, 48), (64, 48)] [] \<and> my_malloc st2 72 = Some (Inr (0, st2))"
proof -
  obtain st where st: "heap_ok st [] [(112, 48), (64, 48)]" "heap_size st = 96" by (rule demo_full)
  from coalesce_misses_neighbours [of st 64 48 48 72] st show ?thesis by (auto simp: request_small)
qed

text \<open>A free list that loops keeps \<open>coalesce\<close> in its loop.\<close>

lemma coalesce_self_loop:
  assumes "coalesce_loop st c = Some r"
  shows "\<not> (c \<noteq> 0 \<and> hdr_ok st c \<and> hnext st c = c \<and> 0 < hsize st c \<and> c + hsize st c < 2 ^ 64)"
proof (rule coalesce_loop.raw_induct [OF _ assms])
  fix f :: "allocator \<Rightarrow> nat \<Rightarrow> allocator c_result option" and st c r
  let ?P = "\<lambda>st c. c \<noteq> 0 \<and> hdr_ok st c \<and> hnext st c = c \<and> 0 < hsize st c \<and> c + hsize st c < 2 ^ 64"
  assume IH: "\<And>st c r. f st c = Some r \<Longrightarrow> \<not> ?P st c"
    and body: "(if c = 0 then Some (Inr st) else case get_next st c of Inl e \<Rightarrow> Some (Inl e)
      | Inr nxt \<Rightarrow> if nxt = 0 then Some (Inr st) else (case mergeable st c nxt of Inl e \<Rightarrow> Some (Inl e)
        | Inr mrg \<Rightarrow> if mrg then (case merge_blocks st c nxt of Inl e \<Rightarrow> Some (Inl e) | Inr st \<Rightarrow> f st c)
            else f st nxt)) = Some r"
  have "f st c = Some r" if "?P st c" using that body by (simp add: mergeable_def)
  with IH show "\<not> ?P st c" by blast
qed

text \<open>
  Releasing a pointer twice is not noticed: when its block is still at the head of the free
  list, as it is right after the first release, the second \<open>my_free\<close> never returns.
\<close>

theorem double_free_diverges:
  assumes "heap_ok st ((b, n) # fl) us"
  shows "my_free st (b + 24) = None"
proof -
  let ?base = "heap_start st" and ?len = "heap_size st"
  have H: "heap_at st ?base ?len" "block_in ?base ?len (b, n)" "hsize st b = n" "free_list st = b"
    using assms by (auto simp: heap_ok_def layout)
  note h = block_hdr_ok [OF H(1,2)]
  have n: "0 < n" "n \<le> ?len" using H(2) by (auto simp: block_in_def)
  let ?m = "(mem st)(b + 8 := cell_with_int (mem st (b + 8)) 1, b + 16 := word_of_nat b)"
  let ?st = "st\<lparr>mem := ?m, free_list := b, total_freed := add64 (total_freed st) n,
                num_frees := add64 (num_frees st) 1\<rparr>"
  have rel: "release_block b st = Inr (Some ?st)"
    using h n H(3,4) by (simp add: release_block_def) (simp add: hsize_def)
  have "hdr_ok ?st b" using h(1) by (simp add: hdr_ok_def addr_ok_def in_arena_def)
  moreover have "hsize ?st b = n" "hnext ?st b = b" using H(3) h(3) by (simp_all add: hsize_def hnext_def)
  ultimately have "\<nexists>r. coalesce_loop ?st b = Some r"
    using coalesce_self_loop [of ?st b] h(2,3) n(1) by (metis (no_types, lifting) less_numeral_extra(3))
  then have "coalesce ?st = None" unfolding coalesce_def by simp
  moreover have "sub64 (b + 24) HEADER_SIZE = b" using h(3) H(2) by (simp add: block_in_def)
  ultimately show ?thesis using rel by (simp add: my_free_def)
qed

theorem double_free_diverges_witness:
  "\<exists>st st1. my_free st 88 = Some (Inr st1) \<and> my_free st1 88 = None"
proof -
  obtain st where st: "heap_ok st [] [(112, 48), (64, 48)]" by (rule demo_full)
  then obtain st1 where st1: "my_free st 88 = Some (Inr st1)" "heap_ok st1 [(64, 48)] [(112, 48)]"
    using my_free_run [of st "[]" "[(112, 48)]" 64 48 "[]"] by auto
  from double_free_diverges [OF st1(2)] have "my_free st1 88 = None" by simp
  with st1(1) show ?thesis by blast
qed

end
