(* ===== verification/Allocator_Benchmark.thy ===== *)
theory Allocator_Benchmark
  imports Allocator
begin

text \<open>
  The benchmark of the allocator, \<open>02_memory/custom_malloc/benchmark.c\<close>: its three tests and \<open>main\<close>,
  which runs them one after the other on the same global state. The numbers that \<open>rand\<close> returns, the
  addresses that \<open>malloc\<close> returns for the heaps and which other calls of \<open>malloc\<close> succeed are
  arguments; time measurement and output are left out.

  The tests are run on the model of the allocator, and the results follow from its refinement: all
  requests are served, nothing leaks, and what the statistics print about fragmentation.
\<close>

section \<open>The code\<close>

text \<open>\<open>(rand () % 256) + 16\<close>\<close>

definition random_size :: "nat \<Rightarrow> nat" where
  "random_size r = r mod 256 + 16"

text \<open>The loops \<open>ptrs[i] = my_malloc (size)\<close> and \<open>my_free (ptrs[i])\<close>.\<close>

definition alloc_all :: "allocator \<Rightarrow> nat list \<Rightarrow> (nat list \<times> allocator) c_result option" where
  "alloc_all st sizes = run_ops my_malloc st sizes"

fun free_all :: "allocator \<Rightarrow> nat list \<Rightarrow> allocator c_result option" where
  "free_all st [] = Some (Inr st)"
| "free_all st (p # ps) = bind_o (my_free st p) (\<lambda>st. free_all st ps)"

text \<open>
  The arrays of pointers come from the system's \<open>malloc\<close> and are used without a test for the null
  pointer.
\<close>

definition array_at :: "bool \<Rightarrow> nat \<Rightarrow> unit c_result option" where
  "array_at allocated len = Some (if allocated \<or> len = 0 then Inr () else Inl Null_Dereference)"

text \<open>
  The second half of \<open>test_random_pattern\<close> and of \<open>test_streaming_pattern\<close>, which are the same; \<open>p\<close> is
  the address of the heap, \<open>a\<close> says whether the array is allocated. The result is the pointers, the statistics and the state at the end.
\<close>

definition pattern_test ::
  "allocator \<Rightarrow> nat \<Rightarrow> bool \<Rightarrow> nat list \<Rightarrow> (nat list \<times> stats_report \<times> allocator) c_result option" where
  "pattern_test st p a rands =
     bind_o (Some (allocator_init st (10 * 1024 * 1024) p)) (\<lambda>st.
     bind_o (array_at a (length rands)) (\<lambda>_.
     bind_o (alloc_all st (map random_size rands)) (\<lambda>(ptrs, st).
     bind_o (free_all st ptrs) (\<lambda>st.
     bind_o (allocator_stats st) (\<lambda>r.
       Some (Inr (ptrs, r, allocator_cleanup st)))))))"

text \<open>
  The first half runs on the \<open>malloc\<close> of the system. A null pointer in the array is passed to \<open>free\<close>,
  which ignores it. \<open>ok i n\<close> says whether the \<open>i\<close>-th request, of \<open>n\<close> bytes, is served.
\<close>

datatype system_block = Ptrs | Element nat

definition served :: "(nat \<Rightarrow> nat \<Rightarrow> bool) \<Rightarrow> nat list \<Rightarrow> nat list" where
  "served ok sizes = filter (\<lambda>i. ok i (sizes ! i)) [0..<length sizes]"

definition system_half ::
  "bool \<Rightarrow> (nat \<Rightarrow> nat \<Rightarrow> bool) \<Rightarrow> nat list \<Rightarrow> system_block resource_event list c_result option" where
  "system_half allocated ok rands =
     bind_o (array_at allocated (length rands)) (\<lambda>_.
     (let is = served ok (map random_size rands)
      in Some (Inr ((if allocated then [Acquire Ptrs] else []) @ map (\<lambda>i. Acquire (Element i)) is @
           map (\<lambda>i. Release (Element i)) is @ (if allocated then [Release Ptrs] else [])))))"

text \<open>
  What a test meets: whether its two arrays are allocated, which requests the system serves, the
  numbers of the two halves and the address of the heap.
\<close>

record pattern_input =
  array1 :: bool
  array2 :: bool
  serves :: "nat \<Rightarrow> nat \<Rightarrow> bool"
  rands1 :: "nat list"
  rands2 :: "nat list"
  heap_address :: nat

text \<open>The two functions differ in what they print.\<close>

definition test_random_pattern ::
  "allocator \<Rightarrow> pattern_input \<Rightarrow> (system_block resource_event list \<times> stats_report \<times> allocator) c_result option" where
  "test_random_pattern st t =
     bind_o (system_half (array1 t) (serves t) (rands1 t)) (\<lambda>es.
     bind_o (pattern_test st (heap_address t) (array2 t) (rands2 t)) (\<lambda>(ptrs, r, st).
       Some (Inr (es @ (if array2 t then [Acquire Ptrs, Release Ptrs] else []), r, st))))"

definition test_streaming_pattern ::
  "allocator \<Rightarrow> pattern_input \<Rightarrow> (system_block resource_event list \<times> stats_report \<times> allocator) c_result option" where
  "test_streaming_pattern st t =
     bind_o (system_half (array1 t) (serves t) (rands1 t)) (\<lambda>es.
     bind_o (pattern_test st (heap_address t) (array2 t) (rands2 t)) (\<lambda>(ptrs, r, st).
       Some (Inr (es @ (if array2 t then [Acquire Ptrs, Release Ptrs] else []), r, st))))"

text \<open>
  \<open>test_fragmentation\<close>: the pointers, the new pointers, the three statistics, the state at the end.
  \<open>a\<close> and \<open>b\<close> say whether the two arrays are allocated.
\<close>

definition test_fragmentation ::
  "allocator \<Rightarrow> nat \<Rightarrow> bool \<Rightarrow> bool \<Rightarrow>
     (nat list \<times> nat list \<times> stats_report \<times> stats_report \<times> stats_report \<times> allocator) c_result option" where
  "test_fragmentation st p a b =
     bind_o (Some (allocator_init st (1024 * 1024) p)) (\<lambda>st.
     bind_o (array_at a 100) (\<lambda>_.
     bind_o (alloc_all st (replicate 100 5120)) (\<lambda>(ptrs, st).
     bind_o (allocator_stats st) (\<lambda>r1.
     bind_o (free_all st (map (\<lambda>i. ptrs ! (2 * i)) [0..<50])) (\<lambda>st.
     bind_o (allocator_stats st) (\<lambda>r2.
     bind_o (array_at b 50) (\<lambda>_.
     bind_o (alloc_all st (replicate 50 5120)) (\<lambda>(new_ptrs, st).
     bind_o (allocator_stats st) (\<lambda>r3.
     bind_o (free_all st (map (\<lambda>i. ptrs ! (2 * i + 1)) [0..<50])) (\<lambda>st.
     bind_o (free_all st new_ptrs) (\<lambda>st.
       Some (Inr (ptrs, new_ptrs, r1, r2, r3, allocator_cleanup st)))))))))))))"

text \<open>
  \<open>main\<close>: the statistics that are printed, in order, the system's blocks, the state at the end. The
  addresses of the heaps may be the same, since each test gives its heap back.
\<close>

definition static_state :: "(nat \<Rightarrow> 64 word) \<Rightarrow> allocator" where
  "static_state m = \<lparr>mem = m, arenas = [], heap_start = 0, heap_size = 0, free_list = 0,
     total_allocated = 0, total_freed = 0, num_allocations = 0, num_frees = 0\<rparr>"

definition benchmark_program ::
  "(nat \<Rightarrow> 64 word) \<Rightarrow> pattern_input \<Rightarrow> pattern_input \<Rightarrow> nat \<Rightarrow> bool \<Rightarrow> bool \<Rightarrow>
     (stats_report list \<times> system_block resource_event list \<times> allocator) c_result option" where
  "benchmark_program m t1 t2 p a b =
     bind_o (test_random_pattern (static_state m) t1) (\<lambda>(es1, r1, st).
     bind_o (test_streaming_pattern st t2) (\<lambda>(es2, r2, st).
     bind_o (test_fragmentation st p a b) (\<lambda>(ptrs, new_ptrs, r3, r4, r5, st).
       Some (Inr ([r1, r2, r3, r4, r5],
         es1 @ es2 @ [Acquire Ptrs, Acquire Ptrs, Release Ptrs, Release Ptrs], st)))))"

section \<open>Runs of requests and releases\<close>

text \<open>Blocks one after the other from an address on.\<close>

fun lay :: "nat \<Rightarrow> nat list \<Rightarrow> block list" where
  "lay b [] = []"
| "lay b (t # ts) = (b, t) # lay (b + t) ts"

abbreviation user_ptr :: "block \<Rightarrow> nat" where
  "user_ptr x \<equiv> fst x + 24"

lemma length_lay [simp]: "length (lay b ts) = length ts"
  by (induction b ts rule: lay.induct) auto

lemma total_lay [simp]: "total (lay b ts) = sum_list ts"
  by (induction b ts rule: lay.induct) auto

lemma lay_above: "x \<in> set (lay b ts) \<Longrightarrow> b \<le> fst x"
  by (induction b ts rule: lay.induct) auto

text \<open>Requests served from the one free block are laid out in order.\<close>

lemma alloc_all_fresh:
  assumes "heap_ok st [(b, k)] us" "\<forall>n\<in>set sizes. 0 < n \<and> n < 2 ^ 63" "sum_list (map request sizes) + 24 \<le> k"
  shows "\<exists>st'. alloc_all st sizes = Some (Inr (map user_ptr (lay b (map request sizes)), st')) \<and>
    heap_ok st' [(b + sum_list (map request sizes), k - sum_list (map request sizes))]
      (rev (lay b (map request sizes)) @ us)"
  using assms
proof (induction sizes arbitrary: st b k us)
  case (Cons n sizes)
  let ?t = "request n"
  have t: "24 \<le> ?t" "?t + 24 \<le> k" using Cons.prems(2,3) by (simp_all add: request_small)
  obtain st1 where st1: "my_malloc st n = Some (Inr (b + 24, st1))"
    "heap_ok st1 [(b + ?t, k - ?t)] ((b, ?t) # us)"
    using my_malloc_found [of st "[]" b k "[]" us n] Cons.prems(1,2) t by (auto simp: remainder_def)
  have "sum_list (map request sizes) + 24 \<le> k - ?t" using Cons.prems(3) by simp
  from Cons.IH [OF st1(2) _ this] Cons.prems(2) obtain st2 where
    "alloc_all st1 sizes = Some (Inr (map user_ptr (lay (b + ?t) (map request sizes)), st2))"
    "heap_ok st2 [(b + ?t + sum_list (map request sizes), k - ?t - sum_list (map request sizes))]
      (rev (lay (b + ?t) (map request sizes)) @ (b, ?t) # us)" by auto
  then show ?case using st1(1) by (simp add: alloc_all_def add.assoc)
qed (simp add: alloc_all_def)

text \<open>Requests that fit free blocks exactly take them in the order of the free list.\<close>

lemma alloc_all_exact:
  assumes "heap_ok st (bs @ fl) us" "\<forall>x\<in>set bs. snd x = request n" "0 < n" "n < 2 ^ 63"
  shows "\<exists>st'. alloc_all st (replicate (length bs) n) = Some (Inr (map user_ptr bs, st')) \<and>
    heap_ok st' fl (rev bs @ us)"
  using assms(1,2)
proof (induction bs arbitrary: st us)
  case (Cons x bs)
  obtain b k where x: "x = (b, k)" by (cases x)
  have k: "k = request n" "24 \<le> request n" using Cons.prems(2) x assms(3,4) by (simp_all add: request_small)
  obtain st1 where st1: "my_malloc st n = Some (Inr (b + 24, st1))" "heap_ok st1 (bs @ fl) ((b, k) # us)"
    using my_malloc_found [of st "[]" b k "bs @ fl" us n] Cons.prems(1) k assms(3) x by (auto simp: remainder_def)
  from Cons.IH [OF st1(2)] Cons.prems(2) obtain st2 where
    "alloc_all st1 (replicate (length bs) n) = Some (Inr (map user_ptr bs, st2))" "heap_ok st2 fl (rev bs @ (b, k) # us)"
    by auto
  then show ?case using st1(1) x by (simp add: alloc_all_def)
qed (simp add: alloc_all_def)

text \<open>Releases push the blocks onto the free list, merging as the allocator does.\<close>

lemma free_all_run:
  assumes "heap_ok st fl us" "mset bs \<subseteq># mset us"
  shows "\<exists>st'. free_all st (map user_ptr bs) = Some (Inr st') \<and>
    heap_ok st' (fold (\<lambda>x fl. coal (x # fl)) bs fl) (fold remove1 bs us)"
  using assms
proof (induction bs arbitrary: st fl us)
  case (Cons x bs)
  obtain b n where x: "x = (b, n)" by (cases x)
  have "x \<in># mset us" using Cons.prems(2) by (auto dest: mset_subset_eq_insertD)
  then obtain us1 us2 where us: "us = us1 @ (b, n) # us2" "(b, n) \<notin> set us1"
    using x split_list_first [of x us] by auto
  then have r: "remove1 (b, n) us = us1 @ us2" by (simp add: remove1_append)
  obtain st1 where st1: "my_free st (b + 24) = Some (Inr st1)" "heap_ok st1 (coal ((b, n) # fl)) (remove1 (b, n) us)"
    using my_free_run [of st fl us1 b n us2] Cons.prems(1) us(1) r by auto
  have "mset bs \<subseteq># mset (remove1 (b, n) us)"
    using Cons.prems(2) x by (simp add: insert_subset_eq_iff)
  from Cons.IH [OF st1(2) this] st1(1) x show ?case by simp
qed simp

lemma fold_remove1_mset: "mset (fold remove1 bs us) = mset us - mset bs"
proof (induction bs arbitrary: us)
  case (Cons x bs)
  have "mset us - {#x#} - mset bs = mset us - ({#x#} + mset bs)" by (rule diff_diff_add)
  with Cons show ?case by simp
qed simp

text \<open>Blocks that are released in ascending order are never merged.\<close>

fun no_merge :: "block list \<Rightarrow> block list \<Rightarrow> bool" where
  "no_merge [] fl = True"
| "no_merge (x # bs) fl = ((fl \<noteq> [] \<longrightarrow> fst x + snd x \<noteq> fst (hd fl)) \<and> no_merge bs (x # fl))"

lemma coal_push:
  "coal fl = fl \<Longrightarrow> fl \<noteq> [] \<longrightarrow> fst x + snd x \<noteq> fst (hd fl) \<Longrightarrow> coal (x # fl) = x # fl"
  by (cases x; cases fl) auto

lemma fold_no_merge:
  "no_merge bs fl \<Longrightarrow> coal fl = fl \<Longrightarrow>
     fold (\<lambda>x fl. coal (x # fl)) bs fl = rev bs @ fl \<and> coal (rev bs @ fl) = rev bs @ fl"
proof (induction bs arbitrary: fl)
  case (Cons x bs)
  then have "coal (x # fl) = x # fl" by (intro coal_push) auto
  with Cons.IH [of "x # fl"] Cons.prems show ?case by simp
qed simp

lemma ascending_no_merge:
  assumes "sorted_wrt (\<lambda>x y. fst x < fst y) bs" "fl \<noteq> []" "bs \<noteq> [] \<longrightarrow> fst (hd bs) + snd (hd bs) \<noteq> fst (hd fl)"
  shows "no_merge bs fl"
  using assms
proof (induction bs arbitrary: fl)
  case (Cons x bs)
  have "bs \<noteq> [] \<longrightarrow> fst (hd bs) + snd (hd bs) \<noteq> fst x" using Cons.prems(1) by (cases bs) auto
  then have "no_merge bs (x # fl)" using Cons.prems(1) by (intro Cons.IH) simp_all
  with Cons.prems(3) show ?case by simp
qed simp

lemma lay_ascending: "\<forall>t\<in>set ts. 0 < t \<Longrightarrow> sorted_wrt (\<lambda>x y. fst x < fst y) (lay b ts)"
  by (induction b ts rule: lay.induct) (auto dest: lay_above)

section \<open>Even and odd positions\<close>

lemma mset_halves:
  "mset (map f [0..<2 * m]) = mset (map (\<lambda>i. f (2 * i)) [0..<m]) + mset (map (\<lambda>i. f (2 * i + 1)) [0..<m])"
  by (induction m) simp_all

lemma lay_replicate: "lay b (replicate n t) = map (\<lambda>i. (b + i * t, t)) [0..<n]"
proof (induction n arbitrary: b)
  case (Suc n)
  have "[0..<Suc n] = 0 # map Suc [0..<n]" by (simp add: upt_conv_Cons map_Suc_upt)
  then show ?case using Suc.IH [of "b + t"] by (simp add: comp_def add.assoc)
qed simp

lemma sorted_wrt_upt_map: "(\<And>i j. i < j \<Longrightarrow> fst (f i) < fst (f j)) \<Longrightarrow> sorted_wrt (\<lambda>x y. fst x < fst y) (map f [0..<n])"
  by (simp add: sorted_wrt_map) (rule sorted_wrt_mono_rel [OF _ sorted_wrt_upt], auto)

lemma sum_list_le_mult: "\<forall>t\<in>set ts. t \<le> (m::nat) \<Longrightarrow> sum_list ts \<le> m * length ts"
  by (induction ts) auto

lemma total_mset: "mset xs = mset ys \<Longrightarrow> total xs = total ys"
  by (metis mset_map sum_mset_sum_list)

lemma stats_of:
  assumes "heap_ok st fl us" "total fl + total us \<le> 24 * 2147483647"
  obtains r where "allocator_stats st = Some (Inr r)" "r_net r = total us" "r_free_memory r = total fl"
    "r_free_blocks r = int (length fl)"
proof -
  have "heap_size st = total fl + total us" using assms(1) by (simp add: heap_ok_def)
  then show thesis using allocator_stats_exact [OF assms(1)] assms(2) that by auto
qed

text \<open>
  The blocks of the third test: the heap is at \<open>p\<close>, a request of 5120 bytes takes 5144, \<open>rest\<close> is what
  remains after a hundred of them.
\<close>

definition nth_block :: "nat \<Rightarrow> nat \<Rightarrow> block" where
  "nth_block p i = (p + i * 5144, 5144)"

definition even_blocks :: "nat \<Rightarrow> block list" where
  "even_blocks p = map (\<lambda>i. nth_block p (2 * i)) [0..<50]"

definition odd_blocks :: "nat \<Rightarrow> block list" where
  "odd_blocks p = map (\<lambda>i. nth_block p (2 * i + 1)) [0..<50]"

definition all_blocks :: "nat \<Rightarrow> block list" where
  "all_blocks p = map (nth_block p) [0..<100]"

definition rest :: "nat \<Rightarrow> block" where
  "rest p = (p + 514400, 534176)"

lemma request_5120: "request 5120 = 5144"
  by (simp add: request_small)

lemma halves: "mset (all_blocks p) = mset (even_blocks p) + mset (odd_blocks p)"
  using mset_halves [of "nth_block p" 50] by (simp add: all_blocks_def even_blocks_def odd_blocks_def)

lemma block_totals [simp]:
  "total (all_blocks p) = 514400" "total (even_blocks p) = 257200" "total (odd_blocks p) = 257200"
  by (simp_all add: all_blocks_def even_blocks_def odd_blocks_def nth_block_def comp_def sum_list_triv)

lemma pick_blocks:
  "map (\<lambda>i. map user_ptr (all_blocks p) ! (2 * i)) [0..<50] = map user_ptr (even_blocks p)"
  "map (\<lambda>i. map user_ptr (all_blocks p) ! (2 * i + 1)) [0..<50] = map user_ptr (odd_blocks p)"
  by (simp_all add: all_blocks_def even_blocks_def odd_blocks_def)

lemma even_blocks_stay: "fold (\<lambda>x fl. coal (x # fl)) (even_blocks p) [rest p] = rev (even_blocks p) @ [rest p]"
proof -
  have "no_merge (even_blocks p) [rest p]"
    by (rule ascending_no_merge)
      (simp_all add: even_blocks_def nth_block_def rest_def sorted_wrt_upt_map upt_conv_Cons)
  from fold_no_merge [OF this] show ?thesis by simp
qed

lemma alloc_100:
  assumes "heap_ok st [(p, 1048576)] []"
  obtains st' where "alloc_all st (replicate 100 5120) = Some (Inr (map user_ptr (all_blocks p), st'))"
    "heap_ok st' [rest p] (rev (all_blocks p))"
proof -
  have l: "lay p (map request (replicate 100 5120)) = all_blocks p"
    unfolding map_replicate request_5120 lay_replicate all_blocks_def nth_block_def ..
  have s: "sum_list (map request (replicate 100 5120)) = 514400" by (simp add: request_5120 sum_list_replicate)
  obtain st' where "alloc_all st (replicate 100 5120) = Some (Inr (map user_ptr (all_blocks p), st'))"
    "heap_ok st' [(p + 514400, 1048576 - 514400)] (rev (all_blocks p) @ [])"
    using alloc_all_fresh [OF assms, of "replicate 100 5120"] unfolding l s by auto
  then show thesis by (intro that) (simp_all add: rest_def)
qed

section \<open>The tests\<close>

text \<open>What one test needs of the counters and leaves behind.\<close>

definition balanced :: "allocator \<Rightarrow> bool" where
  "balanced st \<longleftrightarrow> total_allocated st = total_freed st \<and> num_allocations st = num_frees st \<and>
     total_freed st < 2 ^ 64 \<and> num_frees st < 2 ^ 64"

lemma heap_ok_balanced: "heap_ok st fl [] \<Longrightarrow> balanced st"
  by (simp add: heap_ok_def balanced_def)

lemma cleanup_balanced [simp]: "balanced (allocator_cleanup st) = balanced st"
  by (simp add: balanced_def allocator_cleanup_def)

lemma cleanup_no_heap [simp]: "heap_start (allocator_cleanup st) = 0"
  by (simp add: allocator_cleanup_def)

lemma static_balanced [simp]: "balanced (static_state m)"
  by (simp add: balanced_def static_state_def)

lemma pattern_test_run:
  assumes "malloc_region p (10 * 1024 * 1024)" "2 \<le> length rands" "length rands \<le> 10000" "balanced st"
  shows "\<exists>ptrs r st'. pattern_test st p True rands = Some (Inr (ptrs, r, st')) \<and> length ptrs = length rands \<and>
     0 \<notin> set ptrs \<and> r_net r = 0 \<and> r_free_memory r = 10 * 1024 * 1024 \<and> r_free_blocks r = int (length rands) + 1 \<and>
     balanced st' \<and> heap_start st' = 0"
proof -
  let ?len = "10 * 1024 * 1024 :: nat" and ?sizes = "map random_size rands"
  let ?ts = "map request ?sizes" and ?bs = "lay p (map request ?sizes)"
  let ?R = "(p + sum_list ?ts, ?len - sum_list ?ts)"
  obtain st1 where st1: "allocator_init st ?len p = Inr st1" "heap_ok st1 [(p, ?len)] []" "heap_size st1 = ?len"
    using allocator_init_run [OF assms(1), of st] assms(4) by (auto simp: balanced_def)
  have size: "0 < n \<and> n < 2 ^ 63 \<and> 24 < request n \<and> request n \<le> 303" if n: "n \<in> set ?sizes" for n
  proof -
    have "0 < n" "n < 272" using n by (auto simp: random_size_def)
    moreover have "1 \<le> (n + 7) div 8" using \<open>0 < n\<close> by (simp add: less_eq_div_iff_mult_less_eq)
    moreover have "(n + 7) div 8 * 8 \<le> n + 7" by (rule div_times_less_eq_dividend)
    moreover have "request n = 24 + (n + 7) div 8 * 8" using \<open>n < 272\<close> by (simp add: request_small)
    moreover have "(272::nat) < 2 ^ 63" by simp
    ultimately show ?thesis by linarith
  qed
  have "sum_list ?ts \<le> 303 * length ?ts" using size by (intro sum_list_le_mult) auto
  then have room: "sum_list ?ts + 24 \<le> ?len" using assms(3) by simp
  obtain st2 where st2: "alloc_all st1 ?sizes = Some (Inr (map user_ptr ?bs, st2))" "heap_ok st2 [?R] (rev ?bs @ [])"
    using alloc_all_fresh [OF st1(2) _ room] size by blast
  have nm: "no_merge ?bs [?R]"
  proof (rule ascending_no_merge)
    show "sorted_wrt (\<lambda>x y. fst x < fst y) ?bs" using size by (intro lay_ascending) fastforce
    obtain a b rs where r: "rands = a # b # rs"
      using assms(2) by (cases rands; cases "tl rands") auto
    then have "request (random_size b) > 24" using size by simp
    with r show "?bs \<noteq> [] \<longrightarrow> fst (hd ?bs) + snd (hd ?bs) \<noteq> fst (hd [?R])" by simp
  qed simp
  obtain st3 where st3: "free_all st2 (map user_ptr ?bs) = Some (Inr st3)"
    "heap_ok st3 (fold (\<lambda>x fl. coal (x # fl)) ?bs [?R]) (fold remove1 ?bs (rev ?bs))"
    using free_all_run [OF st2(2), of ?bs] by auto
  have "fold remove1 ?bs (rev ?bs) = []" using fold_remove1_mset [of ?bs "rev ?bs"] by simp
  then have ok3: "heap_ok st3 (rev ?bs @ [?R]) []" using st3(2) fold_no_merge [OF nm] by simp
  have tot: "total (rev ?bs @ [?R]) = heap_size st3" using ok3 by (simp add: heap_ok_def)
  have "total ?bs = sum_list ?ts" by (rule total_lay)
  then have hs: "heap_size st3 = ?len" using tot room by (simp add: rev_map [symmetric])
  obtain r where "allocator_stats st3 = Some (Inr r)" "r_net r = 0" "r_free_memory r = ?len"
    "r_free_blocks r = int (length rands) + 1"
    using allocator_stats_exact [OF ok3] hs tot by auto
  moreover have "0 \<notin> user_ptr ` set ?bs" by auto
  moreover have "balanced st3" by (rule heap_ok_balanced [OF ok3])
  ultimately show ?thesis using st1(1) st2(1) st3(1) by (simp add: pattern_test_def array_at_def)
qed

lemma fragmentation_run:
  assumes "malloc_region p (1024 * 1024)" "balanced st"
  shows "\<exists>ptrs new_ptrs r1 r2 r3 st'. test_fragmentation st p True True = Some (Inr (ptrs, new_ptrs, r1, r2, r3, st')) \<and>
     length ptrs = 100 \<and> 0 \<notin> set ptrs \<and> new_ptrs = rev (map (\<lambda>i. ptrs ! (2 * i)) [0..<50]) \<and>
     r_free_blocks r1 = 1 \<and> r_free_blocks r2 = 51 \<and> r_free_blocks r3 = 1 \<and>
     r_free_memory r3 = r_free_memory r1 \<and> r_net r2 = r_net r1 - 50 * 5144 \<and> balanced st' \<and> heap_start st' = 0"
proof -
  let ?ev = "even_blocks p" and ?od = "odd_blocks p"
  obtain st1 where st1: "allocator_init st (1024 * 1024) p = Inr st1" "heap_ok st1 [(p, 1048576)] []"
    using allocator_init_run [OF assms(1), of st] assms(2) by (auto simp: balanced_def)
  obtain st2 where st2: "alloc_all st1 (replicate 100 5120) = Some (Inr (map user_ptr (all_blocks p), st2))"
    "heap_ok st2 [rest p] (rev (all_blocks p))" by (rule alloc_100 [OF st1(2)])
  define us3 where "us3 = fold remove1 ?ev (rev (all_blocks p))"
  have us3: "mset us3 = mset ?od" using halves by (simp add: us3_def fold_remove1_mset)
  obtain st3 where st3: "free_all st2 (map user_ptr ?ev) = Some (Inr st3)" "heap_ok st3 (rev ?ev @ [rest p]) us3"
    using free_all_run [OF st2(2), of ?ev] halves [of p] even_blocks_stay [of p] by (auto simp: us3_def)
  have l: "length (rev ?ev) = 50" "\<forall>x\<in>set (rev ?ev). snd x = request 5120"
    by (auto simp: request_5120 even_blocks_def nth_block_def)
  obtain st4 where st4: "alloc_all st3 (replicate 50 5120) = Some (Inr (map user_ptr (rev ?ev), st4))"
    "heap_ok st4 [rest p] (?ev @ us3)"
    using alloc_all_exact [OF st3(2) l(2)] l(1) by auto
  obtain st5 fl5 us5 where st5: "free_all st4 (map user_ptr ?od) = Some (Inr st5)" "heap_ok st5 fl5 us5"
      "mset us5 = mset ?ev"
    using free_all_run [OF st4(2), of ?od] us3 fold_remove1_mset [of ?od "?ev @ us3"] by auto
  obtain st6 fl6 us6 where st6: "free_all st5 (map user_ptr (rev ?ev)) = Some (Inr st6)" "heap_ok st6 fl6 us6" "mset us6 = {#}"
    using free_all_run [OF st5(2), of "rev ?ev"] st5(3) fold_remove1_mset [of "rev ?ev" us5] by auto
  have b6: "balanced (allocator_cleanup st6)" using heap_ok_balanced st6(2,3) by simp
  have t3: "total us3 = 257200" using total_mset [OF us3] by simp
  have tr: "total (rev xs) = total xs" for xs :: "block list" by (rule total_mset) simp
  obtain r1 where r1: "allocator_stats st2 = Some (Inr r1)" "r_net r1 = 514400" "r_free_memory r1 = 534176"
      "r_free_blocks r1 = 1"
    by (rule stats_of [OF st2(2)]) (simp_all add: tr rest_def)
  obtain r2 where r2: "allocator_stats st3 = Some (Inr r2)" "r_net r2 = 257200" "r_free_blocks r2 = 51"
    by (rule stats_of [OF st3(2)]) (use l(1) in \<open>simp_all add: tr t3 rest_def\<close>)
  obtain r3 where r3: "allocator_stats st4 = Some (Inr r3)" "r_free_memory r3 = 534176" "r_free_blocks r3 = 1"
    by (rule stats_of [OF st4(2)]) (simp_all add: t3 rest_def)
  have "test_fragmentation st p True True = Some (Inr (map user_ptr (all_blocks p), map user_ptr (rev ?ev), r1, r2, r3,
      allocator_cleanup st6))"
    using st1(1) st2(1) st3(1) st4(1) st5(1) st6(1) r1(1) r2(1) r3(1)
    by (simp add: test_fragmentation_def array_at_def pick_blocks pick_blocks(2) [simplified])
  moreover have "map user_ptr (rev ?ev) = rev (map (\<lambda>i. map user_ptr (all_blocks p) ! (2 * i)) [0..<50])"
    unfolding pick_blocks by (rule rev_map [symmetric])
  moreover have "length (map user_ptr (all_blocks p)) = 100" "0 \<notin> set (map user_ptr (all_blocks p))"
    by (auto simp: all_blocks_def)
  moreover have "r_free_memory r3 = r_free_memory r1" "r_net r2 = r_net r1 - 50 * 5144"
    using r1(2,3) r2(2) r3(2) by simp_all
  ultimately show ?thesis using r1(4) r2(3) r3(3) b6 cleanup_no_heap by blast
qed

text \<open>The system's blocks.\<close>

lemma net_acquire_all: "net (map (\<lambda>i. Acquire (f i)) xs @ es) h = net es (h + mset (map f xs))"
  by (induction xs arbitrary: h) simp_all

lemma net_release_all: "net (map (\<lambda>i. Release (f i)) xs @ es) (h + mset (map f xs)) = net es h"
  by (induction xs arbitrary: h) simp_all

lemma system_half_run:
  assumes "allocated"
  shows "\<exists>es. system_half allocated ok rands = Some (Inr es) \<and> live es [] = Some []"
proof -
  have "net (map (\<lambda>i. Acquire (Element i)) is @ map (\<lambda>i. Release (Element i)) is @ [Release Ptrs]) {#Ptrs#} = Some {#}" for "is"
    using net_release_all [of Element "is" "[Release Ptrs]" "{#Ptrs#}"] by (simp add: net_acquire_all)
  then show ?thesis using assms by (simp add: system_half_def array_at_def live_empty Let_def)
qed

lemma pattern_program_run:
  assumes "array1 t" "array2 t" "length (rands2 t) = 10000" "malloc_region (heap_address t) (10 * 1024 * 1024)" "balanced st"
  obtains es r st' where "test_random_pattern st t = Some (Inr (es, r, st'))"
    "test_streaming_pattern st t = Some (Inr (es, r, st'))" "live es [] = Some []" "r_net r = 0" "r_free_blocks r = 10001"
    "balanced st'"
proof -
  obtain es where es: "system_half True (serves t) (rands1 t) = Some (Inr es)" "live es [] = Some []"
    using system_half_run [OF TrueI, of "serves t" "rands1 t"] by blast
  have n: "2 \<le> length (rands2 t)" "length (rands2 t) \<le> 10000" "int (length (rands2 t)) + 1 = 10001"
    using assms(3) by simp_all
  obtain ptrs r st' where "pattern_test st (heap_address t) True (rands2 t) = Some (Inr (ptrs, r, st'))"
    "r_net r = 0" "r_free_blocks r = 10001" "balanced st'"
    using pattern_test_run [OF assms(4) n(1,2) assms(5)] unfolding n(3) by blast
  then show thesis using assms(1,2) es
    by (intro that [of "es @ [Acquire Ptrs, Release Ptrs]" r st'])
      (simp_all add: test_random_pattern_def test_streaming_pattern_def live_append)
qed

section \<open>Properties\<close>

text \<open>
  C32: The benchmark runs to its end whatever \<open>rand\<close> returns, when \<open>malloc\<close> provides the heaps and the
  arrays: the three tests run one after the other on the same counters, and each leaves them balanced
  for the next. The statistics show what the allocator does: after each of the first two tests all
  memory is free but no two blocks have been merged, one free block for each of the 10000 requests
  and one for the part of the heap that was never used, because the blocks are released in the order
  in which they were allocated; in the third test the new requests use the released blocks again.
  Everything that was allocated from the system is given back.
\<close>

theorem benchmark_program_completes:
  assumes "array1 t1" "array2 t1" "length (rands2 t1) = 10000" "malloc_region (heap_address t1) (10 * 1024 * 1024)"
    and "array1 t2" "array2 t2" "length (rands2 t2) = 10000" "malloc_region (heap_address t2) (10 * 1024 * 1024)"
    and "malloc_region p (1024 * 1024)"
  shows "\<exists>r1 r2 r3 r4 r5 es st. benchmark_program m t1 t2 p True True = Some (Inr ([r1, r2, r3, r4, r5], es, st)) \<and>
     map r_free_blocks [r1, r2, r3, r4, r5] = [10001, 10001, 1, 51, 1] \<and>
     r_net r1 = 0 \<and> r_net r2 = 0 \<and> r_net r4 = r_net r3 - 50 * 5144 \<and> r_free_memory r5 = r_free_memory r3 \<and>
     live es [] = Some [] \<and> total_allocated st = total_freed st \<and> num_allocations st = num_frees st \<and> heap_start st = 0"
proof -
  obtain es1 r1 st1 where 1: "test_random_pattern (static_state m) t1 = Some (Inr (es1, r1, st1))"
    "live es1 [] = Some []" "r_net r1 = 0" "r_free_blocks r1 = 10001" "balanced st1"
    by (rule pattern_program_run [OF assms(1-4) static_balanced])
  obtain es2 r2 st2 where 2: "test_streaming_pattern st1 t2 = Some (Inr (es2, r2, st2))"
    "live es2 [] = Some []" "r_net r2 = 0" "r_free_blocks r2 = 10001" "balanced st2"
    by (rule pattern_program_run [OF assms(5-8) 1(5)])
  obtain ptrs new_ptrs r3 r4 r5 st3 where 3:
    "test_fragmentation st2 p True True = Some (Inr (ptrs, new_ptrs, r3, r4, r5, st3))"
    "r_free_blocks r3 = 1" "r_free_blocks r4 = 51" "r_free_blocks r5 = 1"
    "r_free_memory r5 = r_free_memory r3" "r_net r4 = r_net r3 - 50 * 5144" "balanced st3" "heap_start st3 = 0"
    using fragmentation_run [OF assms(9) 2(5)] by blast
  then have "benchmark_program m t1 t2 p True True = Some (Inr ([r1, r2, r3, r4, r5],
      es1 @ es2 @ [Acquire Ptrs, Acquire Ptrs, Release Ptrs, Release Ptrs], st3))"
    using 1(1) 2(1) by (simp add: benchmark_program_def)
  moreover have "live (es1 @ es2 @ [Acquire Ptrs, Acquire Ptrs, Release Ptrs, Release Ptrs]) [] = Some []"
    using 1(2) 2(2) by (simp add: live_append)
  moreover have "map r_free_blocks [r1, r2, r3, r4, r5] = [10001, 10001, 1, 51, 1]" using 1(4) 2(4) 3(2-4) by simp
  ultimately show ?thesis using 1(3) 2(3) 3(5-8) unfolding balanced_def
    by (intro exI conjI) (assumption | simp)+
qed

theorem benchmark_program_completes_witness:
  "\<exists>r1 r2 r3 r4 r5 es st. benchmark_program (\<lambda>_. 0)
      \<lparr>array1 = True, array2 = True, serves = (\<lambda>i n. even i), rands1 = [1, 2, 3], rands2 = replicate 10000 7, heap_address = 64\<rparr>
      \<lparr>array1 = True, array2 = True, serves = (\<lambda>i n. n < 100), rands1 = [4], rands2 = replicate 10000 0, heap_address = 64\<rparr>
      64 True True = Some (Inr ([r1, r2, r3, r4, r5], es, st)) \<and> r_free_blocks r1 = 10001 \<and> r_free_blocks r4 = 51"
  using benchmark_program_completes [of
      "\<lparr>array1 = True, array2 = True, serves = (\<lambda>i n. even i), rands1 = [1, 2, 3], rands2 = replicate 10000 7, heap_address = 64\<rparr>"
      "\<lparr>array1 = True, array2 = True, serves = (\<lambda>i n. n < 100), rands1 = [4], rands2 = replicate 10000 0, heap_address = 64\<rparr>"
      64 "\<lambda>_. 0"]
  by (auto simp: malloc_region_def)

text \<open>
  One of the first two tests alone, with up to 10000 requests: every one is served, all memory is
  given back, and no two blocks are merged.
\<close>

theorem pattern_test_fragments:
  assumes "malloc_region p (10 * 1024 * 1024)" "2 \<le> length rands" "length rands \<le> 10000"
    and "total_allocated st = total_freed st" "num_allocations st = num_frees st"
      "total_freed st < 2 ^ 64" "num_frees st < 2 ^ 64"
  shows "\<exists>ptrs r st'. pattern_test st p True rands = Some (Inr (ptrs, r, st')) \<and> length ptrs = length rands \<and>
     0 \<notin> set ptrs \<and> r_net r = 0 \<and> r_free_memory r = 10 * 1024 * 1024 \<and> r_free_blocks r = int (length rands) + 1"
proof -
  have "balanced st" using assms(4-7) by (simp add: balanced_def)
  from pattern_test_run [OF assms(1-3) this] show ?thesis by blast
qed

theorem pattern_test_fragments_witness:
  "\<exists>ptrs r st'. pattern_test demo_state 64 True [0, 300, 7] = Some (Inr (ptrs, r, st')) \<and> r_free_blocks r = 4"
  using pattern_test_fragments [of 64 "[0, 300, 7]" demo_state]
  by (auto simp: malloc_region_def demo_state_def)

text \<open>
  The third test finds what its text expects. The fifty blocks that are released between blocks in
  use stay separate, and the fifty new requests take exactly them, in the opposite order, so that no
  other memory is used; and the test gives everything back.
\<close>

theorem fragmentation_reuses:
  assumes "malloc_region p (1024 * 1024)"
    and "total_allocated st = total_freed st" "num_allocations st = num_frees st"
      "total_freed st < 2 ^ 64" "num_frees st < 2 ^ 64"
  shows "\<exists>ptrs new_ptrs r1 r2 r3 st'. test_fragmentation st p True True = Some (Inr (ptrs, new_ptrs, r1, r2, r3, st')) \<and>
     length ptrs = 100 \<and> 0 \<notin> set ptrs \<and> new_ptrs = rev (map (\<lambda>i. ptrs ! (2 * i)) [0..<50]) \<and>
     r_free_blocks r1 = 1 \<and> r_free_blocks r2 = 51 \<and> r_free_blocks r3 = 1 \<and>
     r_free_memory r3 = r_free_memory r1 \<and> r_net r2 = r_net r1 - 50 * 5144"
proof -
  have "balanced st" using assms by (simp add: balanced_def)
  from fragmentation_run [OF assms(1) this] show ?thesis by blast
qed

theorem fragmentation_reuses_witness:
  "\<exists>ptrs new_ptrs r1 r2 r3 st'. test_fragmentation demo_state 64 True True = Some (Inr (ptrs, new_ptrs, r1, r2, r3, st')) \<and>
     new_ptrs = rev (map (\<lambda>i. ptrs ! (2 * i)) [0..<50]) \<and> r_free_blocks r2 = 51"
  using fragmentation_reuses [of 64 demo_state] by (auto simp: malloc_region_def demo_state_def)

text \<open>
  The arrays are used without a test: without memory for the first one the benchmark writes through
  a null pointer, even in the half that is to measure the system's \<open>malloc\<close>.
\<close>

lemma benchmark_null_array:
  assumes "\<not> array1 t1" "rands1 t1 \<noteq> []"
  shows "benchmark_program m t1 t2 p a b = Some (Inl Null_Dereference)"
  using assms by (simp add: benchmark_program_def test_random_pattern_def system_half_def array_at_def)

end
