(* ===== verification/LRU_Cache.thy ===== *)
theory LRU_Cache
  imports Prelude
begin

text \<open>
  The cache of \<open>06_storage/lru_cache/lru_cache.c\<close>. Nodes live in a heap that maps pointers to
  nodes; a pointer that is not in the heap is either null or dangling, and using it is an error
  of the model. Every public function holds the mutex from its first to its last access on every
  path, so the functions are modelled as atomic operations. Loops along the \<open>next\<close> fields are
  partial functions: \<open>None\<close> means that the loop does not end.

  The field \<open>next\<close> is used for two lists at once, the recency list and the hash chain. The second
  part of the theory shows how far the code nevertheless implements a least-recently-used cache,
  the third what goes wrong beyond that.
\<close>

section \<open>The code\<close>

definition HASH_TABLE_SIZE :: int where
  "HASH_TABLE_SIZE = 1024"

text \<open>The struct \<open>node_t\<close>; a value is a pointer of the client, \<open>None\<close> when it is null.\<close>

record 'v node =
  nkey :: int
  nvalue :: "'v option"
  nprev :: nat
  nnext :: nat

record 'v lru_cache =
  heap :: "nat \<Rightarrow> 'v node option"
  head :: nat
  tail :: nat
  max_size :: int
  current_size :: int
  table :: "int \<Rightarrow> nat"
  hits :: int
  misses :: int
  evictions :: int

definition deref :: "'v lru_cache \<Rightarrow> nat \<Rightarrow> 'v node c_result" where
  "deref c p = (case heap c p of
      Some n \<Rightarrow> Inr n
    | None \<Rightarrow> Inl (if p = 0 then Null_Dereference else Use_After_Free))"

definition upd_node :: "nat \<Rightarrow> ('v node \<Rightarrow> 'v node) \<Rightarrow> 'v lru_cache \<Rightarrow> 'v lru_cache c_result" where
  "upd_node p f c = bind_r (deref c p) (\<lambda>n. Inr (c\<lparr>heap := (heap c)(p \<mapsto> f n)\<rparr>))"

definition set_nprev :: "nat \<Rightarrow> nat \<Rightarrow> 'v lru_cache \<Rightarrow> 'v lru_cache c_result" where
  "set_nprev p v = upd_node p (nprev_update (\<lambda>_. v))"

definition set_nnext :: "nat \<Rightarrow> nat \<Rightarrow> 'v lru_cache \<Rightarrow> 'v lru_cache c_result" where
  "set_nnext p v = upd_node p (nnext_update (\<lambda>_. v))"

text \<open>\<open>key % HASH_TABLE_SIZE\<close>, which is negative for a negative key.\<close>

definition hash_key :: "int \<Rightarrow> int" where
  "hash_key key = key smod HASH_TABLE_SIZE"

definition get_table :: "'v lru_cache \<Rightarrow> int \<Rightarrow> nat c_result" where
  "get_table c h = (if 0 \<le> h \<and> h < HASH_TABLE_SIZE then Inr (table c h) else Inl Out_Of_Bounds)"

definition set_table :: "int \<Rightarrow> nat \<Rightarrow> 'v lru_cache \<Rightarrow> 'v lru_cache c_result" where
  "set_table h p c =
     (if 0 \<le> h \<and> h < HASH_TABLE_SIZE then Inr (c\<lparr>table := (table c)(h := p)\<rparr>) else Inl Out_Of_Bounds)"

partial_function (option) lookup_loop :: "'v lru_cache \<Rightarrow> int \<Rightarrow> nat \<Rightarrow> nat c_result option" where
  "lookup_loop c key node =
     (if node = 0 then Some (Inr 0)
      else case deref c node of
        Inl e \<Rightarrow> Some (Inl e)
      | Inr n \<Rightarrow> if nkey n = key then Some (Inr node) else lookup_loop c key (nnext n))"

definition find_node :: "'v lru_cache \<Rightarrow> int \<Rightarrow> nat c_result option" where
  "find_node c key =
     (case get_table c (hash_key key) of
        Inl e \<Rightarrow> Some (Inl e)
      | Inr node \<Rightarrow> lookup_loop c key node)"

definition move_to_front :: "nat \<Rightarrow> 'v lru_cache \<Rightarrow> 'v lru_cache c_result" where
  "move_to_front node c =
     bind_r (deref c node) (\<lambda>n.
       if nprev n = 0 then Inr c
       else
         bind_r (set_nnext (nprev n) (nnext n) c) (\<lambda>c.
         bind_r (deref c node) (\<lambda>n.
         bind_r (if nnext n \<noteq> 0 then set_nprev (nnext n) (nprev n) c
                 else Inr (c\<lparr>tail := nprev n\<rparr>)) (\<lambda>c.
         bind_r (set_nprev node 0 c) (\<lambda>c.
         bind_r (set_nnext node (head c) c) (\<lambda>c.
         bind_r (if head c \<noteq> 0 then set_nprev (head c) node c else Inr c) (\<lambda>c.
           let c = c\<lparr>head := node\<rparr> in
           Inr (if tail c = 0 then c\<lparr>tail := node\<rparr> else c))))))))"

text \<open>\<open>while (node && node->next != victim) node = node->next\<close>.\<close>

partial_function (option) chain_loop :: "'v lru_cache \<Rightarrow> nat \<Rightarrow> nat \<Rightarrow> nat c_result option" where
  "chain_loop c victim node =
     (if node = 0 then Some (Inr 0)
      else case deref c node of
        Inl e \<Rightarrow> Some (Inl e)
      | Inr n \<Rightarrow> if nnext n = victim then Some (Inr node) else chain_loop c victim (nnext n))"

text \<open>The part of \<open>evict_lru\<close> that takes the victim off the recency list.\<close>

definition unlink_tail :: "'v lru_cache \<Rightarrow> 'v lru_cache c_result" where
  "unlink_tail c =
     bind_r (deref c (tail c)) (\<lambda>v.
     bind_r (if nprev v \<noteq> 0 then set_nnext (nprev v) 0 c else Inr (c\<lparr>head := 0\<rparr>)) (\<lambda>c.
     bind_r (deref c (tail c)) (\<lambda>v.
       Inr (c\<lparr>tail := nprev v\<rparr>))))"

text \<open>The part that takes it out of the hash table.\<close>

definition unlink_chain :: "nat \<Rightarrow> 'v lru_cache \<Rightarrow> 'v lru_cache c_result option" where
  "unlink_chain victim c =
     (case bind_r (deref c victim) (\<lambda>v. bind_r (get_table c (hash_key (nkey v))) (\<lambda>node. Inr (v, node))) of
        Inl e \<Rightarrow> Some (Inl e)
      | Inr (v, node) \<Rightarrow>
          if node = victim then Some (set_table (hash_key (nkey v)) (nnext v) c)
          else (case chain_loop c victim node of
                  None \<Rightarrow> None
                | Some (Inl e) \<Rightarrow> Some (Inl e)
                | Some (Inr node) \<Rightarrow> Some (if node \<noteq> 0 then set_nnext node (nnext v) c else Inr c)))"

definition evict_lru :: "'v lru_cache \<Rightarrow> 'v lru_cache c_result option" where
  "evict_lru c =
     (if tail c = 0 then Some (Inr c)
      else let victim = tail c in
        case unlink_tail c of
          Inl e \<Rightarrow> Some (Inl e)
        | Inr c \<Rightarrow>
            (case unlink_chain victim c of
               None \<Rightarrow> None
             | Some (Inl e) \<Rightarrow> Some (Inl e)
             | Some (Inr c) \<Rightarrow> Some (
                 bind_r (c_int (current_size c - 1)) (\<lambda>n.
                 bind_r (c_int (evictions c + 1)) (\<lambda>e.
                 bind_r (deref c victim) (\<lambda>_.
                   Inr (c\<lparr>current_size := n, evictions := e, heap := (heap c)(victim := None)\<rparr>)))))))"

text \<open>
  The constructor: \<open>m_cache\<close>, \<open>m_table\<close> and \<open>m_lock\<close> say whether the two allocations and the
  initialisation of the mutex succeed. It returns the cache, or \<open>None\<close>, and what it acquired and
  released on the way.
\<close>

datatype lru_resource = Cache_Struct | Hash_Table | Cache_Mutex

definition empty_cache :: "int \<Rightarrow> 'v lru_cache" where
  "empty_cache n = \<lparr>heap = Map.empty, head = 0, tail = 0, max_size = n, current_size = 0,
     table = (\<lambda>_. 0), hits = 0, misses = 0, evictions = 0\<rparr>"

definition lru_cache_create ::
  "int \<Rightarrow> bool \<Rightarrow> bool \<Rightarrow> bool \<Rightarrow> 'v lru_cache option \<times> lru_resource resource_event list" where
  "lru_cache_create n m_cache m_table m_lock =
     (if n \<le> 0 then (None, [])
      else if \<not> m_cache then (None, [])
      else if \<not> m_table then (None, [Acquire Cache_Struct, Release Cache_Struct])
      else if \<not> m_lock then (None, [Acquire Cache_Struct, Acquire Hash_Table, Release Hash_Table, Release Cache_Struct])
      else (Some (empty_cache n), [Acquire Cache_Struct, Acquire Hash_Table, Acquire Cache_Mutex]))"

definition lru_cache_get :: "'v lru_cache \<Rightarrow> int \<Rightarrow> ('v option \<times> 'v lru_cache) c_result option" where
  "lru_cache_get c key =
     (case find_node c key of
        None \<Rightarrow> None
      | Some (Inl e) \<Rightarrow> Some (Inl e)
      | Some (Inr node) \<Rightarrow> Some (
          if node = 0 then bind_r (c_int (misses c + 1)) (\<lambda>m. Inr (None, c\<lparr>misses := m\<rparr>))
          else bind_r (move_to_front node c) (\<lambda>c.
               bind_r (c_int (hits c + 1)) (\<lambda>h.
               bind_r (deref c node) (\<lambda>n.
                 Inr (nvalue n, c\<lparr>hits := h\<rparr>))))))"

text \<open>The part of \<open>lru_cache_put\<close> that links the new node \<open>p\<close>, which \<open>malloc\<close> has returned.\<close>

definition insert_node :: "nat \<Rightarrow> int \<Rightarrow> 'v option \<Rightarrow> 'v lru_cache \<Rightarrow> 'v lru_cache c_result" where
  "insert_node p key value c =
     bind_r (Inr (c\<lparr>heap := (heap c)(p \<mapsto> \<lparr>nkey = key, nvalue = value, nprev = 0, nnext = head c\<rparr>)\<rparr>)) (\<lambda>c.
     bind_r (if head c \<noteq> 0 then set_nprev (head c) p c else Inr c) (\<lambda>c.
     let c = c\<lparr>head := p\<rparr>; c = (if tail c = 0 then c\<lparr>tail := p\<rparr> else c); hash = hash_key key in
     bind_r (get_table c hash) (\<lambda>t.
     bind_r (set_nnext p t c) (\<lambda>c.
     bind_r (set_table hash p c) (\<lambda>c.
     bind_r (c_int (current_size c + 1)) (\<lambda>n.
       Inr (c\<lparr>current_size := n\<rparr>)))))))"

text \<open>\<open>p\<close> is what \<open>malloc\<close> returns for a new node; the result is the return value of the function.\<close>

definition lru_cache_put ::
  "'v lru_cache \<Rightarrow> int \<Rightarrow> 'v option \<Rightarrow> nat \<Rightarrow> (int \<times> 'v lru_cache) c_result option" where
  "lru_cache_put c key value p =
     (case find_node c key of
        None \<Rightarrow> None
      | Some (Inl e) \<Rightarrow> Some (Inl e)
      | Some (Inr existing) \<Rightarrow>
          if existing \<noteq> 0
          then Some (bind_r (upd_node existing (nvalue_update (\<lambda>_. value)) c) (\<lambda>c.
                     bind_r (move_to_front existing c) (\<lambda>c. Inr (0, c))))
          else if p = 0 then Some (Inr (- 1, c))
          else (case insert_node p key value c of
                  Inl e \<Rightarrow> Some (Inl e)
                | Inr c \<Rightarrow>
                    if current_size c > max_size c
                    then (case evict_lru c of
                            None \<Rightarrow> None
                          | Some (Inl e) \<Rightarrow> Some (Inl e)
                          | Some (Inr c) \<Rightarrow> Some (Inr (0, c)))
                    else Some (Inr (0, c))))"

text \<open>The loop of \<open>lru_cache_clear\<close>, which frees the nodes along \<open>next\<close> from the head.\<close>

partial_function (option) clear_loop :: "'v lru_cache \<Rightarrow> nat \<Rightarrow> 'v lru_cache c_result option" where
  "clear_loop c node =
     (if node = 0 then Some (Inr c)
      else case deref c node of
        Inl e \<Rightarrow> Some (Inl e)
      | Inr n \<Rightarrow> clear_loop (c\<lparr>heap := (heap c)(node := None)\<rparr>) (nnext n))"

definition lru_cache_clear :: "'v lru_cache \<Rightarrow> 'v lru_cache c_result option" where
  "lru_cache_clear c =
     (case clear_loop c (head c) of
        None \<Rightarrow> None
      | Some (Inl e) \<Rightarrow> Some (Inl e)
      | Some (Inr c) \<Rightarrow> Some (Inr (c\<lparr>table := (\<lambda>_. 0), head := 0, tail := 0, current_size := 0\<rparr>)))"

definition lru_cache_stats :: "'v lru_cache \<Rightarrow> int \<times> int \<times> int" where
  "lru_cache_stats c = (hits c, misses c, evictions c)"

text \<open>\<open>lru_cache_destroy\<close> clears the cache and then releases the mutex, the table and the struct.\<close>

definition lru_cache_destroy :: "'v lru_cache \<Rightarrow> ('v lru_cache \<times> lru_resource resource_event list) c_result option" where
  "lru_cache_destroy c =
     (case lru_cache_clear c of
        None \<Rightarrow> None
      | Some (Inl e) \<Rightarrow> Some (Inl e)
      | Some (Inr c) \<Rightarrow> Some (Inr (c, [Release Cache_Mutex, Release Hash_Table, Release Cache_Struct])))"

section \<open>The recency list\<close>

text \<open>
  \<open>dseg c pv ps nx\<close>: the nodes \<open>ps\<close> are in the heap, their \<open>prev\<close> fields lead back through the
  sequence to \<open>pv\<close>, and every \<open>next\<close> field is null or leads to the successor (\<open>nx\<close> for the last).
  That a \<open>next\<close> field may be null is what the code leaves of the forward links: a node that enters
  through \<open>lru_cache_put\<close> gets its \<open>next\<close> from the hash table.
\<close>

fun dseg :: "'v lru_cache \<Rightarrow> nat \<Rightarrow> nat list \<Rightarrow> nat \<Rightarrow> bool" where
  "dseg c pv [] nx \<longleftrightarrow> True"
| "dseg c pv (p # ps) nx \<longleftrightarrow>
     (\<exists>n. heap c p = Some n \<and> nprev n = pv \<and> (nnext n = 0 \<or> nnext n = hd (ps @ [nx]))) \<and> dseg c p ps nx"

definition entry :: "'v lru_cache \<Rightarrow> nat \<Rightarrow> int \<times> 'v option" where
  "entry c p = (nkey (the (heap c p)), nvalue (the (heap c p)))"

text \<open>The list as a whole, most recently used first.\<close>

definition dlist :: "'v lru_cache \<Rightarrow> nat list \<Rightarrow> bool" where
  "dlist c ps \<longleftrightarrow>
     distinct ps \<and> 0 \<notin> set ps \<and> dseg c 0 ps 0 \<and> head c = hd (ps @ [0]) \<and> tail c = last (0 # ps)"

text \<open>The hash table: every node is alone in its bucket, and there is nothing else in the table.\<close>

definition buckets :: "'v lru_cache \<Rightarrow> nat list \<Rightarrow> bool" where
  "buckets c ps \<longleftrightarrow>
     (\<forall>p\<in>set ps. 0 \<le> fst (entry c p) \<and> table c (hash_key (fst (entry c p))) = p) \<and>
     (\<forall>h. table c h \<noteq> 0 \<longrightarrow> table c h \<in> set ps \<and> hash_key (fst (entry c (table c h))) = h)"

text \<open>A hit is harmless for the list when the node is its first or last or knows its successor.\<close>

definition linked :: "'v lru_cache \<Rightarrow> nat \<Rightarrow> bool" where
  "linked c p \<longleftrightarrow> p = head c \<or> p = tail c \<or> nnext (the (heap c p)) \<noteq> 0"

named_theorems dl "facts about the doubly linked list"

lemma last_pos: "(0::nat) \<notin> set xs \<Longrightarrow> xs \<noteq> [] \<Longrightarrow> 0 < last xs"
  by (metis gr_zeroI last_in_set)

lemma dseg_append [dl]:
  "dseg c pv (xs @ ys) nx \<longleftrightarrow> dseg c pv xs (hd (ys @ [nx])) \<and> dseg c (last (pv # xs)) ys nx"
  by (induction xs arbitrary: pv) auto

lemma dseg_frame: "\<forall>p\<in>set ps. heap c' p = heap c p \<Longrightarrow> dseg c' pv ps nx = dseg c pv ps nx"
  by (induction ps arbitrary: pv) auto

lemma upd_node_ok [simp]: "heap c p = Some n \<Longrightarrow> upd_node p f c = Inr (c\<lparr>heap := (heap c)(p \<mapsto> f n)\<rparr>)"
  by (simp add: upd_node_def deref_def)

lemma deref_ok [simp]: "heap c p = Some n \<Longrightarrow> deref c p = Inr n"
  by (simp add: deref_def)

lemma dseg_live: "dseg c pv ps nx \<Longrightarrow> p \<in> set ps \<Longrightarrow> \<exists>n. heap c p = Some n"
  by (induction ps arbitrary: pv) auto

lemma dseg_off [dl]:
  "p \<notin> set ps \<Longrightarrow> dseg (c\<lparr>heap := (h)(p := v)\<rparr>) pv ps nx = dseg (c\<lparr>heap := h\<rparr>) pv ps nx"
  by (rule dseg_frame) auto

lemma dseg_same_heap [simp]: "dseg (c\<lparr>heap := heap c\<rparr>) pv ps nx = dseg c pv ps nx"
  by (rule dseg_frame) auto

text \<open>
  Unhooking the node behind \<open>q\<close> and putting it in front: the pieces of the list before \<open>q\<close> and
  behind the node are changed at their ends only.
\<close>

lemma dseg_new_last:
  assumes "dseg c pv (xs @ [q]) nx" "q \<notin> set xs" "heap c q = Some m"
  shows "dseg (c\<lparr>heap := (heap c)(q \<mapsto> m\<lparr>nnext := 0\<rparr>)\<rparr>) pv (xs @ [q]) nx'"
    "dseg (c\<lparr>heap := (heap c)(q \<mapsto> m\<lparr>nnext := v\<rparr>)\<rparr>) pv (xs @ [q]) v"
  using assms by (auto simp: dl)

lemma dseg_new_first:
  assumes "dseg c pv (x # xs) nx" "x \<notin> set xs" "heap c x = Some m"
  shows "dseg (c\<lparr>heap := (heap c)(x \<mapsto> m\<lparr>nprev := pv'\<rparr>)\<rparr>) pv' (x # xs) nx"
  using assms by (auto simp: dl)

lemma dseg_fields [simp]:
  "dseg (c\<lparr>head := h\<rparr>) pv ps nx = dseg c pv ps nx" "dseg (c\<lparr>tail := h\<rparr>) pv ps nx = dseg c pv ps nx"
  "dseg (c\<lparr>table := t\<rparr>) pv ps nx = dseg c pv ps nx" "dseg (c\<lparr>current_size := k\<rparr>) pv ps nx = dseg c pv ps nx"
  "dseg (c\<lparr>hits := k\<rparr>) pv ps nx = dseg c pv ps nx" "dseg (c\<lparr>misses := k\<rparr>) pv ps nx = dseg c pv ps nx"
  "dseg (c\<lparr>evictions := k\<rparr>) pv ps nx = dseg c pv ps nx"
  by (simp_all add: dseg_frame)

text \<open>What \<open>move_to_front\<close> leaves alone.\<close>

definition same_entries :: "'v lru_cache \<Rightarrow> 'v lru_cache \<Rightarrow> bool" where
  "same_entries c c' \<longleftrightarrow>
     (\<forall>p. entry c' p = entry c p) \<and> dom (heap c') = dom (heap c) \<and> table c' = table c \<and>
     max_size c' = max_size c \<and> current_size c' = current_size c \<and>
     hits c' = hits c \<and> misses c' = misses c \<and> evictions c' = evictions c"

lemma same_entries_refl: "same_entries c c"
  by (simp add: same_entries_def)

lemma same_entries_trans: "same_entries c c' \<Longrightarrow> same_entries c' c'' \<Longrightarrow> same_entries c c''"
  by (simp add: same_entries_def)

lemma same_entries_upd:
  assumes "heap c p = Some n" "nkey (f n) = nkey n" "nvalue (f n) = nvalue n"
  shows "same_entries c (c\<lparr>heap := (heap c)(p \<mapsto> f n)\<rparr>)"
  using assms by (auto simp: same_entries_def entry_def)

lemma same_entries_ends:
  "same_entries c (c'\<lparr>head := h\<rparr>) = same_entries c c'" "same_entries c (c'\<lparr>tail := h\<rparr>) = same_entries c c'"
  by (simp_all add: same_entries_def entry_def)

text \<open>First half: the node \<open>p\<close> behind \<open>us\<close> is bypassed.\<close>

lemma bypass_run:
  assumes d: "dlist c (us @ p # ys)" and us: "us \<noteq> []" and n: "heap c p = Some n"
    and l: "ys = [] \<or> nnext n \<noteq> 0"
  obtains c' where
    "bind_r (set_nnext (nprev n) (nnext n) c) (\<lambda>c. bind_r (deref c p) (\<lambda>n.
       if nnext n \<noteq> 0 then set_nprev (nnext n) (nprev n) c else Inr (c\<lparr>tail := nprev n\<rparr>))) = Inr c'"
    "dseg c' 0 us (hd (ys @ [0]))" "dseg c' (last us) ys 0" "same_entries c c'" "heap c' p = Some n"
    "head c' = head c" "tail c' = last (us @ ys)"
proof -
  obtain us' q where q: "us = us' @ [q]" using us by (metis rev_exhaust)
  have dis: "distinct (us' @ q # p # ys)" "0 \<notin> set (us' @ q # p # ys)"
    using d q by (auto simp: dlist_def)
  have sg: "dseg c 0 (us' @ [q]) p" "dseg c p ys 0" "nprev n = q"
    using d q n by (auto simp: dlist_def dl)
  obtain m where m: "heap c q = Some m" using dseg_live [OF sg(1)] by auto
  let ?c1 = "c\<lparr>heap := (heap c)(q \<mapsto> m\<lparr>nnext := nnext n\<rparr>)\<rparr>"
  have s1: "same_entries c ?c1" using m by (intro same_entries_upd) auto
  have p1: "heap ?c1 p = Some n" using dis n by auto
  have r1: "set_nnext (nprev n) (nnext n) c = Inr ?c1" using m sg(3) by (simp add: set_nnext_def)
  show thesis
  proof (cases ys)
    case Nil
    then have z: "nnext n = 0" using d n by (auto simp: dlist_def dl)
    let ?c = "?c1\<lparr>tail := q\<rparr>"
    have "dseg ?c 0 us 0" using dseg_new_last(1) [OF sg(1) _ m] dis z q by auto
    moreover have "same_entries c ?c" using s1 by (simp add: same_entries_ends(2))
    ultimately show thesis
      using r1 p1 z sg(3) Nil q by (intro that [of ?c]) auto
  next
    case (Cons y ys')
    then have y: "nnext n = y" "y \<noteq> 0" using d n l dis by (auto simp: dlist_def dl)
    obtain k where k: "heap c y = Some k" using dseg_live [OF sg(2)] Cons by auto
    let ?c = "?c1\<lparr>heap := (heap ?c1)(y \<mapsto> k\<lparr>nprev := q\<rparr>)\<rparr>"
    have ky: "heap ?c1 y = Some k" using k dis Cons by auto
    have "dseg ?c1 0 us y" using dseg_new_last(2) [OF sg(1) _ m] dis y(1) q by auto
    then have "dseg ?c 0 us y" using dis q Cons by (subst dseg_off) auto
    moreover have "dseg ?c1 p ys 0" using sg(2) dis by (subst dseg_off) auto
    then have "dseg ?c q ys 0" unfolding Cons by (rule dseg_new_first) (use dis Cons ky in auto)
    moreover have "same_entries c ?c"
      using same_entries_trans [OF s1 same_entries_upd [OF ky, of "nprev_update (\<lambda>_. q)"]] by simp
    moreover have "set_nprev (nnext n) (nprev n) ?c1 = Inr ?c"
      using ky y(1) sg(3) by (simp add: set_nprev_def)
    moreover have "tail c = last ys" using d Cons by (simp add: dlist_def)
    ultimately show thesis
      using r1 p1 y sg(3) Cons q dis by (intro that [of ?c]) auto
  qed
qed

text \<open>Second half: \<open>p\<close> becomes the head of the list \<open>us @ ys\<close> that is left.\<close>

lemma to_front_run:
  assumes d: "dseg c 0 us (hd (ys @ [0]))" "dseg c (last us) ys 0" "us \<noteq> []"
    and p: "heap c p = Some n" "p \<notin> set (us @ ys)" "p \<noteq> 0"
    and h: "head c = hd us" and dis: "distinct (us @ ys)" "0 \<notin> set (us @ ys)"
    and t: "tail c = last (us @ ys)"
  obtains c' where
    "bind_r (set_nprev p 0 c) (\<lambda>c. bind_r (set_nnext p (head c) c) (\<lambda>c.
       bind_r (if head c \<noteq> 0 then set_nprev (head c) p c else Inr c) (\<lambda>c.
         let c = c\<lparr>head := p\<rparr> in Inr (if tail c = 0 then c\<lparr>tail := p\<rparr> else c)))) = Inr c'"
    "dlist c' (p # us @ ys)" "same_entries c c'"
proof -
  obtain x us' where x: "us = x # us'" using d(3) by (cases us) auto
  have hx: "head c = x" "x \<noteq> 0" "p \<noteq> x" "tail c \<noteq> 0"
    using h dis(2) t p(2) x last_pos [of "us @ ys"] by auto
  obtain m where m: "heap c x = Some m" using dseg_live [OF d(1)] x by auto
  let ?n = "n\<lparr>nprev := 0, nnext := x\<rparr>" and ?m = "m\<lparr>nprev := p\<rparr>"
  let ?c1 = "c\<lparr>heap := (heap c)(p \<mapsto> ?n)\<rparr>"
  let ?c2 = "?c1\<lparr>heap := (heap ?c1)(x \<mapsto> ?m)\<rparr>"
  let ?c = "?c2\<lparr>head := p\<rparr>"
  have mx: "heap ?c1 x = Some m" using m hx(3) by simp
  have "dseg ?c1 0 us (hd (ys @ [0]))" "dseg ?c1 (last us) ys 0"
    using d(1,2) p(2) by (auto simp: dl)
  then have "dseg ?c2 p us (hd (ys @ [0]))" "dseg ?c2 (last us) ys 0"
    using dseg_new_first [of ?c1 0 x us' _ m p] mx dis(1) x by (auto simp: dseg_off)
  then have "dseg ?c2 p (us @ ys) 0" using d(3) by (simp add: dseg_append)
  moreover have "heap ?c2 p = Some ?n" using hx(3) by simp
  ultimately have "dlist ?c (p # us @ ys)"
    using dis p(2,3) t x d(3) by (auto simp: dlist_def)
  moreover have "same_entries c ?c1"
    using same_entries_upd [OF p(1), of "\<lambda>n. n\<lparr>nprev := 0, nnext := x\<rparr>"] by simp
  from same_entries_trans [OF this same_entries_upd [OF mx, of "nprev_update (\<lambda>_. p)"]]
  have "same_entries c ?c" by (simp add: same_entries_ends(1))
  moreover have "bind_r (set_nprev p 0 c) (\<lambda>c. bind_r (set_nnext p (head c) c) (\<lambda>c.
       bind_r (if head c \<noteq> 0 then set_nprev (head c) p c else Inr c) (\<lambda>c.
         let c = c\<lparr>head := p\<rparr> in Inr (if tail c = 0 then c\<lparr>tail := p\<rparr> else c)))) = Inr ?c"
    using p(1) hx mx by (simp add: set_nprev_def set_nnext_def Let_def)
  ultimately show thesis by (intro that [of ?c])
qed

lemma dlist_heads:
  assumes "dlist c (us @ p # ys)"
  shows "p = head c \<longleftrightarrow> us = []" "p = tail c \<longleftrightarrow> ys = []" "\<exists>n. heap c p = Some n"
    "us = [] \<Longrightarrow> nprev (the (heap c p)) = 0" "us \<noteq> [] \<Longrightarrow> nprev (the (heap c p)) \<noteq> 0"
proof -
  show "p = head c \<longleftrightarrow> us = []" using assms by (cases us) (auto simp: dlist_def)
  show "p = tail c \<longleftrightarrow> ys = []" using assms by (cases ys rule: rev_cases) (auto simp: dlist_def)
  show "\<exists>n. heap c p = Some n" using assms by (auto simp: dlist_def dl)
  show "us = [] \<Longrightarrow> nprev (the (heap c p)) = 0" using assms by (auto simp: dlist_def)
  show "us \<noteq> [] \<Longrightarrow> nprev (the (heap c p)) \<noteq> 0"
    using assms last_pos [of us] by (auto simp: dlist_def dl)
qed

lemma move_to_front_run:
  assumes d: "dlist c (us @ p # ys)" and l: "linked c p"
  shows "\<exists>c'. move_to_front p c = Inr c' \<and> dlist c' (p # us @ ys) \<and> same_entries c c'"
proof (cases "us = []")
  case True
  obtain n where "heap c p = Some n" "nprev n = 0" using dlist_heads(3,4) [OF d] True by auto
  then have "move_to_front p c = Inr c" by (simp add: move_to_front_def)
  with True d show ?thesis by (auto simp: same_entries_refl)
next
  case False
  obtain n where n: "heap c p = Some n" using dlist_heads(3) [OF d] by blast
  have l': "ys = [] \<or> nnext n \<noteq> 0" using l n False dlist_heads(1,2) [OF d] by (auto simp: linked_def)
  obtain c1 where c1:
    "bind_r (set_nnext (nprev n) (nnext n) c) (\<lambda>c. bind_r (deref c p) (\<lambda>n.
       if nnext n \<noteq> 0 then set_nprev (nnext n) (nprev n) c else Inr (c\<lparr>tail := nprev n\<rparr>))) = Inr c1"
    "dseg c1 0 us (hd (ys @ [0]))" "dseg c1 (last us) ys 0" "same_entries c c1" "heap c1 p = Some n"
    "head c1 = head c" "tail c1 = last (us @ ys)"
    by (rule bypass_run [OF d False n l'])
  have f: "p \<notin> set (us @ ys)" "p \<noteq> 0" "head c1 = hd us" "distinct (us @ ys)" "0 \<notin> set (us @ ys)"
    using d c1(6) False by (auto simp: dlist_def)
  obtain c2 where c2:
    "bind_r (set_nprev p 0 c1) (\<lambda>c. bind_r (set_nnext p (head c) c) (\<lambda>c.
       bind_r (if head c \<noteq> 0 then set_nprev (head c) p c else Inr c) (\<lambda>c.
         let c = c\<lparr>head := p\<rparr> in Inr (if tail c = 0 then c\<lparr>tail := p\<rparr> else c)))) = Inr c2"
    "dlist c2 (p # us @ ys)" "same_entries c1 c2"
    by (rule to_front_run [OF c1(2,3) False c1(5) f c1(7)])
  have "nprev n \<noteq> 0" using dlist_heads(5) [OF d False] n by simp
  then have "move_to_front p c =
      bind_r (bind_r (set_nnext (nprev n) (nnext n) c) (\<lambda>c. bind_r (deref c p) (\<lambda>n.
        if nnext n \<noteq> 0 then set_nprev (nnext n) (nprev n) c else Inr (c\<lparr>tail := nprev n\<rparr>))))
      (\<lambda>c. bind_r (set_nprev p 0 c) (\<lambda>c. bind_r (set_nnext p (head c) c) (\<lambda>c.
        bind_r (if head c \<noteq> 0 then set_nprev (head c) p c else Inr c) (\<lambda>c.
          let c = c\<lparr>head := p\<rparr> in Inr (if tail c = 0 then c\<lparr>tail := p\<rparr> else c)))))"
    using n by (simp add: move_to_front_def)
  also have "\<dots> = Inr c2" unfolding c1(1) bind_r.simps by (rule c2(1))
  finally have "move_to_front p c = Inr c2" .
  with c2(2) same_entries_trans [OF c1(4) c2(3)] show ?thesis by blast
qed

section \<open>Refinement of an abstract cache\<close>

text \<open>The abstract cache: the entries, most recently used first.\<close>

type_synonym 'v entries = "(int \<times> 'v option) list"

definition without :: "int \<Rightarrow> 'v entries \<Rightarrow> 'v entries" where
  "without k = filter (\<lambda>e. fst e \<noteq> k)"

definition spec_get :: "int \<Rightarrow> 'v entries \<Rightarrow> 'v option \<times> 'v entries" where
  "spec_get k xs = (case map_of xs k of None \<Rightarrow> (None, xs) | Some v \<Rightarrow> (v, (k, v) # without k xs))"

definition spec_put :: "nat \<Rightarrow> int \<Rightarrow> 'v option \<Rightarrow> 'v entries \<Rightarrow> 'v entries" where
  "spec_put cap k v xs = take cap ((k, v) # without k xs)"

definition lru_inv :: "'v lru_cache \<Rightarrow> nat list \<Rightarrow> bool" where
  "lru_inv c ps \<longleftrightarrow> dlist c ps \<and> buckets c ps \<and> current_size c = int (length ps) \<and>
     0 < max_size c \<and> max_size c < INT_MAX \<and> current_size c \<le> max_size c \<and>
     0 \<le> hits c \<and> 0 \<le> misses c \<and> 0 \<le> evictions c"

definition lru_rel :: "nat \<Rightarrow> 'v lru_cache \<Rightarrow> 'v entries \<Rightarrow> bool" where
  "lru_rel cap c xs \<longleftrightarrow> max_size c = int cap \<and> (\<exists>ps. lru_inv c ps \<and> xs = map (entry c) ps)"

lemma hash_key_range: "0 \<le> k \<Longrightarrow> 0 \<le> hash_key k \<and> hash_key k < HASH_TABLE_SIZE"
  using c_rem_nonneg [of k 1024] by (simp add: hash_key_def HASH_TABLE_SIZE_def c_rem_def)

text \<open>A bucket is free for a key when it is empty or holds that key.\<close>

definition bucket_free :: "'v lru_cache \<Rightarrow> int \<Rightarrow> bool" where
  "bucket_free c k \<longleftrightarrow> 0 \<le> k \<and> (let q = table c (hash_key k) in q = 0 \<or> fst (entry c q) = k)"

lemma find_miss:
  assumes "0 \<le> k" "table c (hash_key k) = 0"
  shows "find_node c k = Some (Inr 0)"
  using assms hash_key_range [of k] by (simp add: find_node_def get_table_def lookup_loop.simps)

lemma find_hit:
  assumes "bucket_free c k" "table c (hash_key k) = q" "q \<noteq> 0" "heap c q = Some n"
  shows "find_node c k = Some (Inr q)"
  using assms hash_key_range [of k]
  by (simp add: find_node_def get_table_def bucket_free_def entry_def lookup_loop.simps)

lemma abs_miss:
  assumes "buckets c ps" "0 \<notin> set ps" "table c (hash_key k) = 0"
  shows "map_of (map (entry c) ps) k = None" "without k (map (entry c) ps) = map (entry c) ps"
proof -
  have "fst (entry c p) \<noteq> k" if "p \<in> set ps" for p
    using assms that by (auto simp: buckets_def)
  then show "map_of (map (entry c) ps) k = None" "without k (map (entry c) ps) = map (entry c) ps"
    by (auto simp: map_of_eq_None_iff without_def filter_id_conv image_image)
qed

lemma abs_hit:
  assumes "buckets c (us @ q # ys)" "distinct (us @ q # ys)" "fst (entry c q) = k"
  shows "map_of (map (entry c) (us @ q # ys)) k = Some (snd (entry c q))"
    "without k (map (entry c) (us @ q # ys)) = map (entry c) (us @ ys)"
proof -
  have tb: "table c (hash_key (fst (entry c p))) = p" if "p \<in> set (us @ q # ys)" for p
    using assms(1) that unfolding buckets_def by blast
  have ne: "fst (entry c p) \<noteq> k" if "p \<in> set (us @ ys)" for p
    using tb [of p] tb [of q] assms(2,3) that by auto
  then have "map_of (map (entry c) us) k = None" by (auto simp: map_of_eq_None_iff image_image)
  then show "map_of (map (entry c) (us @ q # ys)) k = Some (snd (entry c q))"
    using assms(3) by (auto simp: map_add_def)
  show "without k (map (entry c) (us @ q # ys)) = map (entry c) (us @ ys)"
    using ne assms(3) by (auto simp: without_def filter_id_conv)
qed

lemma buckets_same:
  assumes "buckets c ps" "same_entries c c'" "set ps' = set ps"
  shows "buckets c' ps'"
  using assms by (simp add: buckets_def same_entries_def)

lemma table_hit:
  assumes "lru_inv c ps" "table c (hash_key k) = q" "q \<noteq> 0" "bucket_free c k"
  obtains us ys n where "ps = us @ q # ys" "heap c q = Some n" "entry c q = (k, nvalue n)"
    "find_node c k = Some (Inr q)"
proof -
  have "q \<in> set ps" using assms(1-3) by (auto simp: lru_inv_def buckets_def)
  then obtain us ys where ps: "ps = us @ q # ys" by (auto simp: in_set_conv_decomp)
  then obtain n where n: "heap c q = Some n"
    using assms(1) dlist_heads(3) [of c us q ys] by (auto simp: lru_inv_def)
  moreover have "entry c q = (k, nvalue n)"
    using n assms(2,3,4) by (auto simp: bucket_free_def entry_def Let_def)
  ultimately show thesis using that ps find_hit [OF assms(4,2,3) n] by blast
qed

lemma hit_moves:
  assumes "lru_inv c (us @ q # ys)" "linked c q"
  shows "\<exists>c'. move_to_front q c = Inr c' \<and> lru_inv c' (q # us @ ys) \<and> same_entries c c'"
proof -
  obtain c' where c': "move_to_front q c = Inr c'" "dlist c' (q # us @ ys)" "same_entries c c'"
    using move_to_front_run [of c us q ys] assms by (auto simp: lru_inv_def)
  moreover have "buckets c' (q # us @ ys)"
    by (rule buckets_same [OF _ c'(3)]) (use assms in \<open>auto simp: lru_inv_def\<close>)
  ultimately show ?thesis using assms(1) by (auto simp: lru_inv_def same_entries_def)
qed

text \<open>\<open>lru_cache_get\<close> on a key whose bucket is not taken by another key.\<close>

lemma get_refines:
  assumes r: "lru_rel cap c xs" and k: "bucket_free c k"
    and l: "table c (hash_key k) \<noteq> 0 \<longrightarrow> linked c (table c (hash_key k))"
    and o: "hits c < INT_MAX" "misses c < INT_MAX"
  shows "\<exists>c'. lru_cache_get c k = Some (Inr (fst (spec_get k xs), c')) \<and> lru_rel cap c' (snd (spec_get k xs))"
proof -
  obtain ps where ps: "lru_inv c ps" "xs = map (entry c) ps" "max_size c = int cap"
    using r by (auto simp: lru_rel_def)
  have b: "buckets c ps" "0 \<notin> set ps" "distinct ps" using ps(1) by (auto simp: lru_inv_def dlist_def)
  show ?thesis
  proof (cases "table c (hash_key k) = 0")
    case True
    then have "spec_get k xs = (None, xs)" using abs_miss(1) [OF b(1,2)] ps(2) by (simp add: spec_get_def)
    moreover have "lru_cache_get c k = Some (Inr (None, c\<lparr>misses := misses c + 1\<rparr>))"
      using find_miss [of k c] k True o(2) ps(1)
      by (simp add: lru_cache_get_def bucket_free_def lru_inv_def INT_MIN_def)
    moreover have "lru_inv (c\<lparr>misses := misses c + 1\<rparr>) ps"
      using ps(1) by (simp add: lru_inv_def dlist_def buckets_def entry_def)
    moreover have "entry (c\<lparr>misses := misses c + 1\<rparr>) = entry c" by (simp add: entry_def fun_eq_iff)
    ultimately show ?thesis using ps(2,3) by (auto simp: lru_rel_def)
  next
    case False
    obtain us ys n where q: "ps = us @ table c (hash_key k) # ys" "heap c (table c (hash_key k)) = Some n"
      "entry c (table c (hash_key k)) = (k, nvalue n)" "find_node c k = Some (Inr (table c (hash_key k)))"
      using table_hit [OF ps(1) refl False k] by blast
    let ?q = "table c (hash_key k)"
    obtain c' where c': "move_to_front ?q c = Inr c'" "lru_inv c' (?q # us @ ys)" "same_entries c c'"
      using hit_moves [of c us ?q ys] ps(1) q(1) l False by auto
    obtain n' where n': "heap c' ?q = Some n'" "nvalue n' = nvalue n"
      using c'(3) q(2,3) by (auto simp: same_entries_def entry_def) (metis domD domI option.sel)
    have e: "entry (c'\<lparr>hits := hits c + 1\<rparr>) = entry c"
      using c'(3) by (simp add: same_entries_def entry_def fun_eq_iff)
    have "spec_get k xs = (nvalue n, map (entry c) (?q # us @ ys))"
      using abs_hit [of c us ?q ys k] b(1,3) q(1,3) ps(2) by (simp add: spec_get_def)
    moreover have "lru_cache_get c k = Some (Inr (nvalue n, c'\<lparr>hits := hits c + 1\<rparr>))"
      using q(4) c' n' o(1) False ps(1)
      by (simp add: lru_cache_get_def same_entries_def lru_inv_def INT_MIN_def)
    moreover have "lru_inv (c'\<lparr>hits := hits c + 1\<rparr>) (?q # us @ ys)"
      using c'(2) ps(1) by (simp add: lru_inv_def dlist_def buckets_def entry_def)
    moreover have "max_size c' = int cap" using c'(3) ps(3) by (simp add: same_entries_def)
    ultimately show ?thesis using e unfolding lru_rel_def
      by (intro exI [of _ "c'\<lparr>hits := hits c + 1\<rparr>"]) (auto intro!: exI [of _ "?q # us @ ys"])
  qed
qed

text \<open>The steps of \<open>lru_cache_put\<close> for a new key: linking the node, and evicting the last one.\<close>

lemma insert_node_run:
  assumes i: "lru_inv c ps" and k: "0 \<le> k" "table c (hash_key k) = 0"
    and p: "p \<noteq> 0" "heap c p = None"
  shows "\<exists>c'. insert_node p k v c = Inr c' \<and> dlist c' (p # ps) \<and> buckets c' (p # ps) \<and>
      current_size c' = current_size c + 1 \<and> max_size c' = max_size c \<and> hits c' = hits c \<and>
      misses c' = misses c \<and> evictions c' = evictions c \<and>
      entry c' p = (k, v) \<and> (\<forall>q\<in>set ps. entry c' q = entry c q)"
proof -
  have d: "dlist c ps" "buckets c ps" using i by (auto simp: lru_inv_def)
  have live: "\<exists>n. heap c q = Some n" if "q \<in> set ps" for q
    using d(1) dseg_live that by (auto simp: dlist_def)
  have pn: "p \<notin> set ps" using live [of p] p(2) by auto
  have sz: "INT_MIN \<le> current_size c + 1" "current_size c + 1 \<le> INT_MAX"
    using i by (auto simp: lru_inv_def INT_MIN_def)
  note hr = hash_key_range [OF k(1)]
  let ?new = "\<lparr>nkey = k, nvalue = v, nprev = 0, nnext = 0\<rparr>"
  show ?thesis
  proof (cases ps)
    case Nil
    let ?c = "c\<lparr>heap := (heap c)(p \<mapsto> ?new), head := p, tail := p, table := (table c)(hash_key k := p),
      current_size := current_size c + 1\<rparr>"
    have e: "head c = 0" "tail c = 0" using d(1) Nil by (simp_all add: dlist_def)
    have "insert_node p k v c = Inr ?c"
      using e k(2) hr sz by (simp add: insert_node_def Let_def get_table_def set_nnext_def set_table_def)
    moreover have "dlist ?c [p]" using p(1) by (simp add: dlist_def)
    moreover have "buckets ?c [p]" using d(2) k Nil by (auto simp: buckets_def entry_def)
    ultimately show ?thesis using Nil by (intro exI [of _ ?c]) (simp add: entry_def)
  next
    case (Cons x ps')
    then obtain m where m: "heap c x = Some m" using live by auto
    have x: "head c = x" "x \<noteq> 0" "x \<noteq> p" "tail c \<noteq> 0" "tail c = last ps"
      using d(1) Cons pn last_pos [of ps] by (auto simp: dlist_def)
    let ?h = "(heap c)(p \<mapsto> ?new, x \<mapsto> m\<lparr>nprev := p\<rparr>)"
    let ?c = "c\<lparr>heap := ?h, head := p, table := (table c)(hash_key k := p), current_size := current_size c + 1\<rparr>"
    have run: "insert_node p k v c = Inr ?c"
      using x m k(2) hr sz p
      by (simp add: insert_node_def Let_def get_table_def set_nnext_def set_nprev_def set_table_def fun_upd_twist)
    have "dseg (c\<lparr>heap := (heap c)(p \<mapsto> ?new)\<rparr>) 0 ps 0" using d(1) pn by (simp add: dlist_def dl)
    from dseg_new_first [of _ 0 x ps' 0 m p] this Cons m x(3) d(1)
    have "dseg (c\<lparr>heap := ?h\<rparr>) p ps 0" by (simp add: dlist_def dl)
    then have "dseg ?c p ps 0" by simp
    then have dl': "dlist ?c (p # ps)" using d(1) pn p(1) x Cons by (simp add: dlist_def)
    have ent: "entry ?c q = entry c q" if "q \<in> set ps" for q using that pn m by (auto simp: entry_def)
    have entp: "entry ?c p = (k, v)" using x(3) by (simp add: entry_def)
    have "buckets ?c (p # ps)"
      unfolding buckets_def
    proof (intro conjI ballI allI impI)
      fix q assume "q \<in> set (p # ps)"
      then show "0 \<le> fst (entry ?c q)"
        using d(2) ent entp k(1) by (cases "q = p") (auto simp: buckets_def)
      show "table ?c (hash_key (fst (entry ?c q))) = q"
      proof (cases "q = p")
        case False
        with \<open>q \<in> set (p # ps)\<close> have "q \<in> set ps" by simp
        with d ent k(2) show ?thesis by (auto simp: buckets_def dlist_def)
      qed (use x(3) in \<open>simp add: entry_def\<close>)
    next
      fix h assume h: "table ?c h \<noteq> 0"
      show "table ?c h \<in> set (p # ps)" using h d(2) by (auto simp: buckets_def)
      show "hash_key (fst (entry ?c (table ?c h))) = h"
      proof (cases "h = hash_key k")
        case False
        then have "table ?c h = table c h" by simp
        moreover have "table c h \<in> set ps" "hash_key (fst (entry c (table c h))) = h"
          using d(2) h False by (auto simp: buckets_def)
        ultimately show ?thesis by (simp only: ent)
      qed (use entp in simp)
    qed
    then show ?thesis using run dl' ent x(3) by (intro exI [of _ ?c]) (simp add: entry_def)
  qed
qed

lemma unlink_tail_run:
  assumes d: "dlist c (ps @ [w, v])"
  shows "\<exists>c'. unlink_tail c = Inr c' \<and> dseg c' 0 (ps @ [w]) 0 \<and> tail c' = w \<and> head c' = head c \<and>
     same_entries c c' \<and> heap c' v = heap c v"
proof -
  have dis: "distinct (ps @ [w, v])" "0 \<notin> set (ps @ [w, v])" "tail c = v" using d by (auto simp: dlist_def)
  have sg: "dseg c 0 (ps @ [w]) v" using d by (auto simp: dlist_def dl)
  obtain n where n: "heap c v = Some n" "nprev n = w" using d by (auto simp: dlist_def dl)
  obtain m where m: "heap c w = Some m" using dseg_live [OF sg] by auto
  let ?c = "c\<lparr>heap := (heap c)(w \<mapsto> m\<lparr>nnext := 0\<rparr>), tail := w\<rparr>"
  have "unlink_tail c = Inr ?c"
    using dis n m by (simp add: unlink_tail_def set_nnext_def)
  moreover have "dseg ?c 0 (ps @ [w]) 0" using dseg_new_last(1) [OF sg _ m] dis(1) by auto
  moreover have "same_entries c ?c"
    using same_entries_upd [OF m, of "nnext_update (\<lambda>_. 0)"] by (simp add: same_entries_ends)
  ultimately show ?thesis using dis by (intro exI [of _ ?c]) auto
qed

lemma evict_lru_run:
  assumes d: "dlist c (ps @ [w, v])" and b: "buckets c (ps @ [w, v])"
    and s: "0 < current_size c" "current_size c \<le> INT_MAX" "0 \<le> evictions c" "evictions c < INT_MAX"
  shows "\<exists>c'. evict_lru c = Some (Inr c') \<and> dlist c' (ps @ [w]) \<and> buckets c' (ps @ [w]) \<and>
      current_size c' = current_size c - 1 \<and> max_size c' = max_size c \<and> hits c' = hits c \<and>
      misses c' = misses c \<and> evictions c' = evictions c + 1 \<and> (\<forall>q\<in>set (ps @ [w]). entry c' q = entry c q)"
proof -
  let ?ps = "ps @ [w]" and ?h = "hash_key (fst (entry c v))"
  have dis: "distinct (?ps @ [v])" "0 \<notin> set (?ps @ [v])" "tail c = v" using d by (auto simp: dlist_def)
  obtain n where n: "heap c v = Some n" "nnext n = 0" using d by (auto simp: dlist_def dl)
  obtain c1 where c1: "unlink_tail c = Inr c1" "dseg c1 0 ?ps 0" "tail c1 = w" "head c1 = head c"
    "same_entries c c1" "heap c1 v = heap c v"
    using unlink_tail_run [OF d] by blast
  have e1: "entry c1 = entry c" "table c1 = table c" "current_size c1 = current_size c"
    "max_size c1 = max_size c" "hits c1 = hits c" "misses c1 = misses c" "evictions c1 = evictions c"
    using c1(5) by (auto simp: same_entries_def fun_eq_iff)
  have tv: "table c ?h = v" "0 \<le> fst (entry c v)" using b by (auto simp: buckets_def)
  note hr = hash_key_range [OF tv(2)]
  have kv: "nkey n = fst (entry c v)" using n by (simp add: entry_def)
  have ch: "unlink_chain v c1 = Some (Inr (c1\<lparr>table := (table c)(?h := 0)\<rparr>))"
    using n c1(6) tv hr e1(2) by (simp add: unlink_chain_def get_table_def set_table_def kv)
  let ?c = "c1\<lparr>heap := (heap c1)(v := None), current_size := current_size c - 1,
    table := (table c)(?h := 0), evictions := evictions c + 1\<rparr>"
  have "evict_lru c = Some (Inr ?c)"
    using c1(1,6) ch dis(2,3) n(1) s e1 by (simp add: evict_lru_def Let_def INT_MIN_def)
  moreover have ent: "entry ?c q = entry c q" if "q \<in> set ?ps" for q
  proof -
    have "entry ?c q = entry c1 q" using that dis(1) by (auto simp: entry_def)
    then show ?thesis by (simp add: e1(1))
  qed
  moreover have "dlist ?c ?ps"
  proof -
    have "dseg (c1\<lparr>heap := (heap c1)(v := None)\<rparr>) 0 ?ps 0"
      using c1(2) dis(1) by (subst dseg_off) auto
    then show ?thesis using d c1(3,4) by (auto simp: dlist_def hd_append)
  qed
  moreover have "buckets ?c ?ps"
    unfolding buckets_def
  proof (intro conjI ballI allI impI)
    fix q assume q: "q \<in> set ?ps"
    then show "0 \<le> fst (entry ?c q)" using b ent by (auto simp: buckets_def)
    have "table c (hash_key (fst (entry c q))) = q" using b q unfolding buckets_def by auto
    moreover have "q \<noteq> v" using dis(1) q by auto
    ultimately have "table ?c (hash_key (fst (entry c q))) = q" using tv(1) by auto
    then show "table ?c (hash_key (fst (entry ?c q))) = q" by (simp only: ent [OF q])
  next
    fix h assume h: "table ?c h \<noteq> 0"
    then have hh: "h \<noteq> ?h" "table ?c h = table c h" by (auto split: if_splits)
    then have "table c h \<in> set (?ps @ [v])" "hash_key (fst (entry c (table c h))) = h"
      using b h by (auto simp: buckets_def)
    moreover from this hh(1) have "table c h \<noteq> v" by auto
    ultimately show "table ?c h \<in> set ?ps" "hash_key (fst (entry ?c (table ?c h))) = h"
      using hh(2) ent by auto
  qed
  ultimately show ?thesis using e1 by (intro exI [of _ ?c]) simp
qed

lemma put_new_refines:
  assumes i: "lru_inv c ps" and k: "0 \<le> k" "table c (hash_key k) = 0"
    and p: "p \<noteq> 0" "heap c p = None" and ev: "evictions c < INT_MAX" and cap: "max_size c = int cap"
  shows "\<exists>c'. lru_cache_put c k v p = Some (Inr (0, c')) \<and>
      lru_rel cap c' (take cap ((k, v) # map (entry c) ps))"
proof -
  obtain c1 where c1: "insert_node p k v c = Inr c1" "dlist c1 (p # ps)" "buckets c1 (p # ps)"
    "current_size c1 = current_size c + 1" "max_size c1 = max_size c" "hits c1 = hits c"
    "misses c1 = misses c" "evictions c1 = evictions c" "entry c1 p = (k, v)"
    and e1: "\<forall>q\<in>set ps. entry c1 q = entry c q"
    using insert_node_run [OF i k p, of v] by blast
  have m1: "map (entry c1) (p # ps) = (k, v) # map (entry c) ps" using c1(9) e1 by simp
  have sz: "current_size c = int (length ps)" "length ps \<le> cap" "0 < cap" "int cap < INT_MAX"
    "0 \<le> hits c" "0 \<le> misses c" "0 \<le> evictions c"
    using i cap by (auto simp: lru_inv_def)
  show ?thesis
  proof (cases "length ps < cap")
    case True
    then have "lru_inv c1 (p # ps)" using c1 sz cap unfolding lru_inv_def by auto
    moreover have "lru_cache_put c k v p = Some (Inr (0, c1))"
      using find_miss [OF k] p(1) c1(1,4,5) True sz(1) cap by (simp add: lru_cache_put_def)
    ultimately show ?thesis using m1 True cap c1(5) by (auto simp: lru_rel_def intro!: exI [of _ "p # ps"])
  next
    case False
    then have full: "length ps = cap" using sz(2) by simp
    then have "p # ps = butlast (p # butlast ps) @ [last (p # butlast ps), last ps]"
      using sz(3) by (metis append_butlast_last_id append_Cons append_assoc append_Nil butlast.simps(2) list.distinct(1) list.size(3) less_irrefl)
    then obtain qs w z where qs: "p # ps = qs @ [w, z]" by blast
    obtain c2 where c2: "evict_lru c1 = Some (Inr c2)" "dlist c2 (qs @ [w])" "buckets c2 (qs @ [w])"
      "current_size c2 = current_size c1 - 1" "max_size c2 = max_size c1" "hits c2 = hits c1"
      "misses c2 = misses c1" "evictions c2 = evictions c1 + 1" "\<forall>q\<in>set (qs @ [w]). entry c2 q = entry c1 q"
      using evict_lru_run [of c1 qs w z] c1 qs sz full ev by (auto simp: INT_MAX_def)
    have l: "length (qs @ [w]) = cap" using qs full by (metis Suc_inject length_Cons length_append_singleton append_assoc append_Cons append_Nil)
    then have "lru_inv c2 (qs @ [w])" using c1 c2 sz cap full unfolding lru_inv_def by auto
    moreover have "lru_cache_put c k v p = Some (Inr (0, c2))"
      using find_miss [OF k] p(1) c1(1,4,5) full sz(1) cap c2(1) by (simp add: lru_cache_put_def)
    moreover have "map (entry c2) (qs @ [w]) = take cap ((k, v) # map (entry c) ps)"
      unfolding m1 [symmetric]
    proof -
      have "take cap (map (entry c1) (p # ps)) = map (entry c1) (qs @ [w])"
        using l qs by (metis append_assoc append_Cons append_Nil append_eq_conv_conj take_map)
      then show "map (entry c2) (qs @ [w]) = take cap (map (entry c1) (p # ps))" using c2(9) by simp
    qed
    ultimately show ?thesis
      using cap c1(5) c2(5) unfolding lru_rel_def by (intro exI [of _ c2]) (auto intro!: exI [of _ "qs @ [w]"])
  qed
qed

lemma value_update:
  assumes "lru_inv c ps" "heap c q = Some n" "q \<in> set ps"
  shows "lru_inv (c\<lparr>heap := (heap c)(q \<mapsto> n\<lparr>nvalue := v\<rparr>)\<rparr>) ps"
    "entry (c\<lparr>heap := (heap c)(q \<mapsto> n\<lparr>nvalue := v\<rparr>)\<rparr>) = (entry c)(q := (nkey n, v))"
    "linked (c\<lparr>heap := (heap c)(q \<mapsto> n\<lparr>nvalue := v\<rparr>)\<rparr>) p = linked c p"
proof -
  let ?c = "c\<lparr>heap := (heap c)(q \<mapsto> n\<lparr>nvalue := v\<rparr>)\<rparr>"
  have "dseg ?c pv xs nx = dseg c pv xs nx" for pv xs nx
    using assms(2) by (induction xs arbitrary: pv) auto
  moreover have k: "fst (entry ?c r) = fst (entry c r)" for r using assms(2) by (simp add: entry_def)
  ultimately show "lru_inv ?c ps"
    using assms(1) unfolding lru_inv_def dlist_def buckets_def by (simp add: k)
  show "entry ?c = (entry c)(q := (nkey n, v))" using assms(2) by (auto simp: entry_def)
  show "linked ?c p = linked c p" using assms(2) by (auto simp: linked_def)
qed

text \<open>\<open>lru_cache_put\<close> on a key whose bucket is not taken by another key.\<close>

lemma put_refines:
  assumes r: "lru_rel cap c xs" and k: "bucket_free c k"
    and l: "table c (hash_key k) \<noteq> 0 \<longrightarrow> linked c (table c (hash_key k))"
    and p: "p \<noteq> 0" "heap c p = None" and ev: "evictions c < INT_MAX"
  shows "\<exists>c'. lru_cache_put c k v p = Some (Inr (0, c')) \<and> lru_rel cap c' (spec_put cap k v xs)"
proof -
  obtain ps where ps: "lru_inv c ps" "xs = map (entry c) ps" "max_size c = int cap"
    using r by (auto simp: lru_rel_def)
  have b: "buckets c ps" "0 \<notin> set ps" "distinct ps" using ps(1) by (auto simp: lru_inv_def dlist_def)
  show ?thesis
  proof (cases "table c (hash_key k) = 0")
    case True
    with put_new_refines [OF ps(1) _ True p ev ps(3), of v] abs_miss(2) [OF b(1,2) True] k ps(2)
    show ?thesis by (simp add: spec_put_def bucket_free_def)
  next
    case False
    obtain us ys n where q: "ps = us @ table c (hash_key k) # ys" "heap c (table c (hash_key k)) = Some n"
      "entry c (table c (hash_key k)) = (k, nvalue n)" "find_node c k = Some (Inr (table c (hash_key k)))"
      using table_hit [OF ps(1) refl False k] by blast
    let ?q = "table c (hash_key k)"
    let ?c = "c\<lparr>heap := (heap c)(?q \<mapsto> n\<lparr>nvalue := v\<rparr>)\<rparr>"
    have u: "lru_inv ?c (us @ ?q # ys)" "linked ?c ?q" "entry ?c = (entry c)(?q := (k, v))"
      using value_update [of c ps ?q n v] ps(1) q(1,2,3) l False by (auto simp: entry_def)
    obtain c' where c': "move_to_front ?q ?c = Inr c'" "lru_inv c' (?q # us @ ys)" "same_entries ?c c'"
      using hit_moves [OF u(1,2)] by blast
    have nq: "?q \<notin> set (us @ ys)" using b(3) q(1) by auto
    have "map (entry c') (?q # us @ ys) = (k, v) # map (entry c) (us @ ys)"
      using c'(3) u(3) nq by (auto simp: same_entries_def)
    moreover have "without k xs = map (entry c) (us @ ys)"
      using abs_hit(2) [of c us ?q ys k] b(1,3) q(1,3) ps(2) by simp
    moreover have "length (us @ ys) < cap" using ps(1,3) q(1) by (auto simp: lru_inv_def)
    moreover have "lru_cache_put c k v p = Some (Inr (0, c'))"
      using q(2,4) c'(1) False by (simp add: lru_cache_put_def)
    moreover have "max_size c' = int cap" using c'(3) ps(3) by (simp add: same_entries_def)
    ultimately show ?thesis
      using c'(2) unfolding lru_rel_def spec_put_def by (intro exI [of _ c']) (auto intro!: exI [of _ "?q # us @ ys"])
  qed
qed

subsection \<open>Sequences of calls\<close>

datatype 'v lru_call = Cache_Get int | Cache_Put int "'v option" nat

datatype 'v lru_reply = Found "'v option" | Status int

definition tag_reply :: "('a \<Rightarrow> 'r) \<Rightarrow> ('a \<times> 's) c_result option \<Rightarrow> ('r \<times> 's) c_result option" where
  "tag_reply f = map_option (map_sum id (map_prod f id))"

fun lru_do :: "'v lru_cache \<Rightarrow> 'v lru_call \<Rightarrow> ('v lru_reply \<times> 'v lru_cache) c_result option" where
  "lru_do c (Cache_Get k) = tag_reply Found (lru_cache_get c k)"
| "lru_do c (Cache_Put k v p) = tag_reply Status (lru_cache_put c k v p)"

fun lru_spec :: "nat \<Rightarrow> 'v entries \<Rightarrow> 'v lru_call \<Rightarrow> 'v lru_reply \<times> 'v entries" where
  "lru_spec cap xs (Cache_Get k) = (Found (fst (spec_get k xs)), snd (spec_get k xs))"
| "lru_spec cap xs (Cache_Put k v p) = (Status 0, spec_put cap k v xs)"

fun call_key :: "'v lru_call \<Rightarrow> int" where
  "call_key (Cache_Get k) = k"
| "call_key (Cache_Put k v p) = k"

text \<open>What every call needs: \<open>malloc\<close> returns a pointer that is not in use, and no counter overflows.\<close>

definition call_fresh :: "'v lru_cache \<Rightarrow> 'v lru_call \<Rightarrow> bool" where
  "call_fresh c x \<longleftrightarrow>
     (case x of Cache_Get k \<Rightarrow> True | Cache_Put k v p \<Rightarrow> p \<noteq> 0 \<and> heap c p = None) \<and>
     hits c < INT_MAX \<and> misses c < INT_MAX \<and> evictions c < INT_MAX"

definition lru_pre :: "'v lru_cache \<Rightarrow> 'v lru_call \<Rightarrow> bool" where
  "lru_pre c x \<longleftrightarrow> call_fresh c x \<and> bucket_free c (call_key x) \<and>
     (let q = table c (hash_key (call_key x)) in q \<noteq> 0 \<longrightarrow> linked c q)"

lemma lru_do_refines:
  assumes "lru_rel cap c xs" "lru_pre c x"
  shows "\<exists>c'. lru_do c x = Some (Inr (fst (lru_spec cap xs x), c')) \<and> lru_rel cap c' (snd (lru_spec cap xs x))"
proof (cases x)
  case (Cache_Get k)
  with get_refines [of cap c xs k] assms show ?thesis
    by (auto simp: lru_pre_def call_fresh_def Let_def tag_reply_def)
next
  case (Cache_Put k v p)
  with put_refines [of cap c xs k p v] assms show ?thesis
    by (auto simp: lru_pre_def call_fresh_def Let_def tag_reply_def)
qed

interpretation lru: implements lru_do "lru_spec cap" lru_pre "lru_rel cap" for cap
  by unfold_locales (rule lru_do_refines)

lemma empty_cache_rel: "0 < cap \<Longrightarrow> int cap < INT_MAX \<Longrightarrow> lru_rel cap (empty_cache (int cap)) []"
  by (simp add: lru_rel_def lru_inv_def empty_cache_def dlist_def buckets_def)

text \<open>
  For a cache of one or two entries every node is the first or the last, so the only condition
  left on the keys is that they fall into different buckets.
\<close>

definition small_pre :: "int set \<Rightarrow> 'v lru_cache \<Rightarrow> 'v lru_call \<Rightarrow> bool" where
  "small_pre K c x \<longleftrightarrow> call_fresh c x \<and> call_key x \<in> K"

definition small_rel :: "int set \<Rightarrow> nat \<Rightarrow> 'v lru_cache \<Rightarrow> 'v entries \<Rightarrow> bool" where
  "small_rel K cap c xs \<longleftrightarrow> cap \<le> 2 \<and> lru_rel cap c xs \<and> fst ` set xs \<subseteq> K \<and>
     (\<forall>k\<in>K. 0 \<le> k) \<and> inj_on hash_key K"

lemma spec_keys:
  assumes "fst ` set xs \<subseteq> K" "call_key x \<in> K"
  shows "fst ` set (snd (lru_spec cap xs x)) \<subseteq> K"
proof (cases x)
  case (Cache_Put k v p)
  have "set (spec_put cap k v xs) \<subseteq> insert (k, v) (set xs)"
    using set_take_subset [of cap "(k, v) # without k xs"] by (auto simp: spec_put_def without_def)
  with assms Cache_Put show ?thesis by fastforce
qed (use assms in \<open>auto simp: spec_get_def without_def split: option.splits\<close>)

lemma small_pre_ok:
  assumes "small_rel K cap c xs" "small_pre K c x"
  shows "lru_pre c x"
proof -
  let ?k = "call_key x" and ?q = "table c (hash_key (call_key x))"
  obtain ps where ps: "lru_inv c ps" "xs = map (entry c) ps" "length ps \<le> 2"
    using assms(1) by (auto simp: small_rel_def lru_rel_def lru_inv_def)
  have K: "?k \<in> K" "0 \<le> ?k" "inj_on hash_key K" "\<forall>p\<in>set ps. fst (entry c p) \<in> K"
    using assms ps(2) by (auto simp: small_rel_def small_pre_def)
  have "fst (entry c ?q) = ?k \<and> linked c ?q" if "?q \<noteq> 0"
  proof
    have q: "?q \<in> set ps" "hash_key (fst (entry c ?q)) = hash_key ?k"
      using ps(1) that by (auto simp: lru_inv_def buckets_def)
    then show "fst (entry c ?q) = ?k" using K by (auto dest: inj_onD)
    obtain us ys where d: "ps = us @ ?q # ys" using q(1) by (meson split_list)
    then have "us = [] \<or> ys = []" using ps(3) by (cases us; cases ys) auto
    moreover have "dlist c (us @ ?q # ys)" using ps(1) d by (simp add: lru_inv_def)
    ultimately show "linked c ?q" using dlist_heads(1,2) [of c us ?q ys] by (auto simp: linked_def)
  qed
  then show ?thesis
    using assms(2) K(2) by (auto simp: lru_pre_def small_pre_def bucket_free_def Let_def)
qed

interpretation small: implements lru_do "lru_spec cap" "small_pre K" "small_rel K cap" for K cap
proof
  fix c :: "'a lru_cache" and xs x
  assume a: "small_rel K cap c xs" "small_pre K c x"
  have "lru_rel cap c xs" using a(1) by (simp add: small_rel_def)
  from lru_do_refines [OF this small_pre_ok [OF a]]
  obtain c' where "lru_do c x = Some (Inr (fst (lru_spec cap xs x), c'))" "lru_rel cap c' (snd (lru_spec cap xs x))"
    by blast
  moreover have "fst ` set (snd (lru_spec cap xs x)) \<subseteq> K"
    using a by (intro spec_keys) (auto simp: small_rel_def small_pre_def)
  ultimately show "\<exists>c'. lru_do c x = Some (Inr (fst (lru_spec cap xs x), c')) \<and>
      small_rel K cap c' (snd (lru_spec cap xs x))"
    using a(1) by (auto simp: small_rel_def)
qed

section \<open>Properties\<close>

text \<open>Rules that execute the operations on a concrete cache.\<close>

lemmas lru_exec = tag_reply_def lru_cache_get_def lru_cache_put_def find_node_def get_table_def set_table_def
  lookup_loop.simps hash_key_def HASH_TABLE_SIZE_def deref_def upd_node_def set_nprev_def set_nnext_def
  move_to_front_def insert_node_def evict_lru_def unlink_tail_def unlink_chain_def chain_loop.simps
  c_int_def INT_MIN_def INT_MAX_def Let_def signed_modulo_int_def signed_divide_int_def

text \<open>
  C12: A cache of one or two entries is a least-recently-used cache: for every sequence of
  \<open>lru_cache_get\<close> and \<open>lru_cache_put\<close> calls with non-negative keys from different buckets, all calls
  return, none runs into undefined behaviour, and the results are those of the abstract cache,
  which keeps the most recently used entries in order and drops the last one when it is full.
\<close>

theorem lru_small_refines:
  assumes "0 < cap" "cap \<le> 2" "\<forall>k\<in>K. 0 \<le> k" "inj_on hash_key K"
    and "calls_ok lru_do (small_pre K) (empty_cache (int cap)) calls"
  shows "\<exists>c. run_ops lru_do (empty_cache (int cap)) calls = Some (Inr (fst (run_spec (lru_spec cap) [] calls), c)) \<and>
           lru_rel cap c (snd (run_spec (lru_spec cap) [] calls))"
proof -
  have "small_rel K cap (empty_cache (int cap)) []"
    using assms(1-4) empty_cache_rel [of cap] by (simp add: small_rel_def INT_MAX_def)
  from small.run [OF this assms(5)] show ?thesis by (auto simp: small_rel_def)
qed

definition demo_calls :: "nat lru_call list" where
  "demo_calls = [Cache_Put 1 (Some 10) 1, Cache_Put 2 (Some 20) 2, Cache_Get 1, Cache_Put 3 (Some 30) 3,
     Cache_Get 2, Cache_Get 1]"

theorem lru_small_refines_witness:
  "\<exists>c. run_ops lru_do (empty_cache 2) demo_calls =
     Some (Inr ([Status 0, Status 0, Found (Some 10), Status 0, Found None, Found (Some 10)], c))"
proof -
  have "calls_ok lru_do (small_pre {1, 2, 3}) (empty_cache (int 2)) demo_calls"
    by (simp add: demo_calls_def lru_exec empty_cache_def small_pre_def call_fresh_def)
  moreover have "inj_on hash_key {1, 2, 3}"
    by (simp add: hash_key_def HASH_TABLE_SIZE_def signed_modulo_int_def signed_divide_int_def)
  moreover have "fst (run_spec (lru_spec 2) [] demo_calls) =
      [Status 0, Status 0, Found (Some 10), Status 0, Found None, Found (Some 10)]"
    by (simp add: demo_calls_def spec_get_def spec_put_def without_def numeral_2_eq_2)
  ultimately show ?thesis using lru_small_refines [of 2 "{1, 2, 3}" demo_calls] by auto
qed

text \<open>
  C13: For any capacity the cache follows the abstract one as long as no two keys share a bucket
  and every hit is on the first node of the recency list, on the last one, or on a node that has
  been moved to the front before (so that its \<open>next\<close> field is set).
\<close>

theorem lru_refines:
  assumes "0 < cap" "int cap < INT_MAX" "calls_ok lru_do lru_pre (empty_cache (int cap)) calls"
  shows "\<exists>c. run_ops lru_do (empty_cache (int cap)) calls = Some (Inr (fst (run_spec (lru_spec cap) [] calls), c)) \<and>
           lru_rel cap c (snd (run_spec (lru_spec cap) [] calls))"
  using lru.run [OF empty_cache_rel [OF assms(1,2)] assms(3)] .

definition demo_calls3 :: "nat lru_call list" where
  "demo_calls3 = [Cache_Put 1 (Some 10) 1, Cache_Put 2 (Some 20) 2, Cache_Put 3 (Some 30) 3, Cache_Get 1,
     Cache_Put 4 (Some 40) 4, Cache_Get 1, Cache_Get 2]"

theorem lru_refines_witness:
  "\<exists>c. run_ops lru_do (empty_cache 3) demo_calls3 =
     Some (Inr ([Status 0, Status 0, Status 0, Found (Some 10), Status 0, Found (Some 10), Found None], c))"
proof -
  have "calls_ok lru_do lru_pre (empty_cache (int 3)) demo_calls3"
    by (simp add: demo_calls3_def lru_exec empty_cache_def lru_pre_def call_fresh_def bucket_free_def
        linked_def entry_def)
  moreover have "fst (run_spec (lru_spec 3) [] demo_calls3) =
      [Status 0, Status 0, Status 0, Found (Some 10), Status 0, Found (Some 10), Found None]"
    by (simp add: demo_calls3_def spec_get_def spec_put_def without_def numeral_3_eq_3)
  ultimately show ?thesis using lru_refines [of 3 demo_calls3] by (auto simp: INT_MAX_def)
qed

subsection \<open>Clearing\<close>

text \<open>The nodes that \<open>lru_cache_clear\<close> reaches: as far as the \<open>next\<close> fields lead from the head.\<close>

fun reached :: "'v lru_cache \<Rightarrow> nat list \<Rightarrow> nat list" where
  "reached c [] = []"
| "reached c (p # ps) = p # (if nnext (the (heap c p)) = 0 then [] else reached c ps)"

lemma reached_subset: "set (reached c ps) \<subseteq> set ps"
  by (induction ps) auto

lemma reached_frame: "\<forall>p\<in>set ps. heap c' p = heap c p \<Longrightarrow> reached c' ps = reached c ps"
  by (induction ps) auto

lemma clear_loop_run:
  assumes "dseg c pv ps 0" "distinct ps" "0 \<notin> set ps"
  shows "clear_loop c (hd (ps @ [0])) =
           Some (Inr (c\<lparr>heap := \<lambda>x. if x \<in> set (reached c ps) then None else heap c x\<rparr>))"
  using assms
proof (induction ps arbitrary: c pv)
  case Nil
  then show ?case by (simp add: clear_loop.simps)
next
  case (Cons p ps)
  then obtain n where n: "heap c p = Some n" "nnext n = 0 \<or> nnext n = hd (ps @ [0])" by auto
  let ?c = "c\<lparr>heap := (heap c)(p := None)\<rparr>"
  have st: "clear_loop c p = clear_loop ?c (nnext n)"
    using Cons.prems(3) n(1) by (subst clear_loop.simps) simp
  show ?case
  proof (cases "nnext n = 0")
    case True
    moreover have "(heap c)(p := None) = (\<lambda>x. if x = p then None else heap c x)" by auto
    ultimately show ?thesis using st n(1) by (simp add: clear_loop.simps)
  next
    case False
    have "dseg ?c p ps 0" "reached ?c ps = reached c ps"
      using Cons.prems by (auto simp: dl intro: reached_frame)
    moreover have "(\<lambda>x. if x \<in> set (reached c ps) then None else heap ?c x) =
        (\<lambda>x. if x = p \<or> x \<in> set (reached c ps) then None else heap c x)"
      by auto
    ultimately show ?thesis
      using Cons.IH [of ?c p] Cons.prems st n False by simp
  qed
qed

text \<open>
  \<open>lru_cache_clear\<close> returns and leaves an empty cache of the same capacity, but it frees only
  the nodes that the \<open>next\<close> fields connect with the head; the other nodes stay allocated without
  any pointer to them, since the head, the tail and the whole table are reset.
\<close>

theorem lru_clear_effect:
  assumes "lru_inv c ps" "max_size c = int cap"
  shows "\<exists>c'. lru_cache_clear c = Some (Inr c') \<and> lru_rel cap c' [] \<and> table c' = (\<lambda>_. 0) \<and>
           (\<forall>p\<in>set ps. heap c' p = (if p \<in> set (reached c ps) then None else heap c p))"
proof -
  have d: "dseg c 0 ps 0" "distinct ps" "0 \<notin> set ps" "head c = hd (ps @ [0])"
    using assms(1) by (auto simp: lru_inv_def dlist_def)
  let ?c = "c\<lparr>heap := \<lambda>x. if x \<in> set (reached c ps) then None else heap c x,
    table := \<lambda>_. 0, head := 0, tail := 0, current_size := 0\<rparr>"
  have "lru_cache_clear c = Some (Inr ?c)"
    using clear_loop_run [OF d(1-3)] d(4) by (simp add: lru_cache_clear_def)
  moreover have "lru_inv ?c []" using assms by (simp add: lru_inv_def dlist_def buckets_def)
  ultimately show ?thesis
    using assms(2) by (intro exI [of _ ?c]) (auto simp: lru_rel_def intro!: exI [of _ "[]"])
qed

definition demo_cache :: "nat lru_cache" where
  "demo_cache = (empty_cache 3)\<lparr>
     heap := [1 \<mapsto> \<lparr>nkey = 1, nvalue = Some 10, nprev = 2, nnext = 0\<rparr>,
              2 \<mapsto> \<lparr>nkey = 2, nvalue = Some 20, nprev = 0, nnext = 0\<rparr>],
     head := 2, tail := 1, current_size := 2, table := (\<lambda>_. 0)(1 := 1, 2 := 2)\<rparr>"

lemma demo_cache_run:
  "run_ops lru_do (empty_cache 3) [Cache_Put 1 (Some 10) 1, Cache_Put 2 (Some 20) 2] =
     Some (Inr ([Status 0, Status 0], demo_cache))"
  by (simp add: lru_exec empty_cache_def demo_cache_def)

lemma demo_cache_inv: "lru_inv demo_cache [2, 1]"
  by (simp add: lru_inv_def dlist_def buckets_def demo_cache_def empty_cache_def entry_def hash_key_def
      HASH_TABLE_SIZE_def signed_modulo_int_def signed_divide_int_def INT_MAX_def)

theorem lru_clear_effect_witness:
  "\<exists>c'. lru_cache_clear demo_cache = Some (Inr c') \<and> table c' = (\<lambda>_. 0) \<and>
     heap c' 2 = None \<and> heap c' 1 = Some \<lparr>nkey = 1, nvalue = Some 10, nprev = 2, nnext = 0\<rparr>"
  using lru_clear_effect [OF demo_cache_inv, of 3] by (auto simp: demo_cache_def empty_cache_def)

subsection \<open>Beyond these conditions\<close>

text \<open>
  A hit on a node in the middle of the list whose \<open>next\<close> field is null makes the code take it
  for the last one. With three entries 1, 2 and 3 and a hit on 2, the next insertion evicts entry
  3, which was used more recently than entry 1; a least-recently-used cache still holds it.
\<close>

theorem lru_wrong_victim:
  "\<exists>c. run_ops lru_do (empty_cache 3) [Cache_Put 1 (Some 10) 1, Cache_Put 2 (Some 20) 2,
       Cache_Put 3 (Some 30) 3, Cache_Get 2, Cache_Put 4 (Some 40) 4, Cache_Get 3] =
     Some (Inr ([Status 0, Status 0, Status 0, Found (Some (20::nat)), Status 0, Found None], c)) \<and>
     fst (run_spec (lru_spec 3) [] [Cache_Put 1 (Some 10) 1, Cache_Put 2 (Some 20) 2,
       Cache_Put 3 (Some 30) 3, Cache_Get 2, Cache_Put 4 (Some (40::nat)) 4, Cache_Get 3]) =
     [Status 0, Status 0, Status 0, Found (Some 20), Status 0, Found (Some 30)]"
  by (simp add: lru_exec empty_cache_def spec_get_def spec_put_def without_def numeral_3_eq_3)

text \<open>
  The node that was skipped stays in the hash table with a \<open>prev\<close> pointer to a node that is
  evicted later; a hit on it then writes to freed memory.
\<close>

theorem lru_use_after_free:
  "run_ops lru_do (empty_cache 3) [Cache_Put 1 (Some 10) 1, Cache_Put 2 (Some 20) 2,
       Cache_Put 3 (Some 30) 3, Cache_Get 2, Cache_Put 4 (Some 40) 4, Cache_Put 5 (Some (50::nat)) 5,
       Cache_Get 1] = Some (Inl Use_After_Free)"
  by (simp add: lru_exec empty_cache_def)

text \<open>A lookup in a chain that runs in a circle of two nodes with other keys does not end.\<close>

lemma lookup_circle:
  assumes "lookup_loop c k a = Some r"
  shows "\<not> (\<exists>b n m. a \<noteq> 0 \<and> b \<noteq> 0 \<and> heap c a = Some n \<and> heap c b = Some m \<and> nnext n = b \<and> nnext m = a \<and>
            nkey n \<noteq> k \<and> nkey m \<noteq> k)"
proof (rule lookup_loop.raw_induct [OF _ assms])
  fix f :: "'a lru_cache \<Rightarrow> int \<Rightarrow> nat \<Rightarrow> nat c_result option" and c k a r
  let ?P = "\<lambda>c k a. \<exists>b n m. a \<noteq> 0 \<and> b \<noteq> 0 \<and> heap c a = Some n \<and> heap c b = Some m \<and> nnext n = b \<and>
    nnext m = a \<and> nkey n \<noteq> k \<and> nkey m \<noteq> k"
  assume IH: "\<And>c k a r. f c k a = Some r \<Longrightarrow> \<not> ?P c k a"
    and body: "(if a = 0 then Some (Inr 0) else case deref c a of Inl e \<Rightarrow> Some (Inl e)
      | Inr n \<Rightarrow> if nkey n = k then Some (Inr a) else f c k (nnext n)) = Some r"
  show "\<not> ?P c k a"
  proof
    assume "?P c k a"
    then obtain b n m where *: "a \<noteq> 0" "b \<noteq> 0" "heap c a = Some n" "heap c b = Some m" "nnext n = b"
      "nnext m = a" "nkey n \<noteq> k" "nkey m \<noteq> k" by blast
    with body have "f c k b = Some r" by simp
    from IH [OF this] * show False by blast
  qed
qed

text \<open>
  With two keys in one bucket the shared \<open>next\<close> field can tie the chain into a circle: after
  inserting 1, 2 and 1025 and a hit on 1, looking up any other key of that bucket never returns,
  and since it holds the mutex, no other operation on the cache returns either.
\<close>

theorem lru_lookup_diverges:
  "\<exists>c. run_ops lru_do (empty_cache 4) [Cache_Put 1 (Some 10) 1, Cache_Put 2 (Some 20) 2,
       Cache_Put 1025 (Some (30::nat)) 3, Cache_Get 1] =
     Some (Inr ([Status 0, Status 0, Status 0, Found (Some 10)], c)) \<and> lru_cache_get c 2049 = None"
proof -
  define c :: "nat lru_cache" where "c = (empty_cache 4)\<lparr>
     heap := [1 \<mapsto> \<lparr>nkey = 1, nvalue = Some 10, nprev = 0, nnext = 3\<rparr>,
              2 \<mapsto> \<lparr>nkey = 2, nvalue = Some 20, nprev = 3, nnext = 0\<rparr>,
              3 \<mapsto> \<lparr>nkey = 1025, nvalue = Some 30, nprev = 1, nnext = 1\<rparr>],
     head := 1, tail := 2, current_size := 3, table := (\<lambda>_. 0)(1 := 3, 2 := 2), hits := 1\<rparr>"
  have "run_ops lru_do (empty_cache 4) [Cache_Put 1 (Some 10) 1, Cache_Put 2 (Some 20) 2,
       Cache_Put 1025 (Some (30::nat)) 3, Cache_Get 1] =
     Some (Inr ([Status 0, Status 0, Status 0, Found (Some 10)], c))"
    by (simp add: lru_exec empty_cache_def c_def fun_upd_twist)
  moreover have "heap c 3 = Some \<lparr>nkey = 1025, nvalue = Some 30, nprev = 1, nnext = 1\<rparr>"
    "heap c 1 = Some \<lparr>nkey = 1, nvalue = Some 10, nprev = 0, nnext = 3\<rparr>" by (simp_all add: c_def)
  then have "\<exists>b n m. 3 \<noteq> (0::nat) \<and> b \<noteq> 0 \<and> heap c 3 = Some n \<and> heap c b = Some m \<and> nnext n = b \<and>
      nnext m = 3 \<and> nkey n \<noteq> 2049 \<and> nkey m \<noteq> 2049"
    by (intro exI [of _ 1]) simp
  then have "lookup_loop c 2049 3 = None"
    using lookup_circle [of c 2049 3] by (metis not_Some_eq)
  then have "find_node c 2049 = None"
    by (simp add: find_node_def get_table_def hash_key_def HASH_TABLE_SIZE_def signed_modulo_int_def
        signed_divide_int_def) (simp add: c_def)
  then have "lru_cache_get c 2049 = None" by (simp add: lru_cache_get_def)
  ultimately show ?thesis by blast
qed

text \<open>
  \<open>hash_key\<close> of a negative key is negative unless the key is a multiple of 1024, so the lookup
  reads outside the hash table.
\<close>

theorem lru_negative_key:
  assumes "k < 0" "\<not> 1024 dvd k"
  shows "lru_cache_get c k = Some (Inl Out_Of_Bounds)"
proof -
  have "hash_key k = - (- k mod 1024)"
    using assms(1) by (simp add: hash_key_def HASH_TABLE_SIZE_def signed_modulo_int_def signed_divide_int_def)
  moreover have "- k mod 1024 \<noteq> 0" using assms(2) by (metis dvd_eq_mod_eq_0 dvd_minus_iff)
  moreover have "0 \<le> - k mod 1024" by simp
  ultimately have "hash_key k < 0" by linarith
  then show ?thesis by (simp add: lru_cache_get_def find_node_def get_table_def)
qed

theorem lru_negative_key_witness:
  "lru_cache_get (empty_cache 2 :: nat lru_cache) (- 1) = Some (Inl Out_Of_Bounds)"
  by (rule lru_negative_key) simp_all

end
