(* ===== verification/LRU_Tests.thy ===== *)
theory LRU_Tests
  imports LRU_Cache
begin

text \<open>
  The first two tests of \<open>06_storage/lru_cache/test.c\<close>. The pointers that \<open>malloc\<close> returns and the
  numbers of \<open>rand\<close> are arguments; the strings are values of the cache.

  They rest on a result about a cache that never becomes full: it is a map from keys to values,
  although its recency list loses nodes.
\<close>

section \<open>The code\<close>

text \<open>A cache is made, used and destroyed; \<open>None\<close> stands for the message that it could not be made.\<close>

type_synonym 'v test_result = "('v lru_reply list \<times> (int \<times> int \<times> int) \<times> 'v lru_cache) option c_result option"

definition cache_test :: "int \<Rightarrow> bool \<times> bool \<times> bool \<Rightarrow> 'v lru_call list \<Rightarrow> 'v test_result" where
  "cache_test n = (\<lambda>(m_cache, m_table, m_lock) calls.
     case fst (lru_cache_create n m_cache m_table m_lock) of
       None \<Rightarrow> Some (Inr None)
     | Some c \<Rightarrow>
         bind_o (run_ops lru_do c calls) (\<lambda>(rs, c).
         bind_o (lru_cache_destroy c) (\<lambda>(d, _).
           Some (Inr (Some (rs, lru_cache_stats c, d))))))"

definition correctness_calls :: "(nat \<Rightarrow> nat) \<Rightarrow> string lru_call list" where
  "correctness_calls p =
     [Cache_Put 1 (Some ''one'') (p 0), Cache_Put 2 (Some ''two'') (p 1), Cache_Put 3 (Some ''three'') (p 2),
      Cache_Get 1, Cache_Put 4 (Some ''four'') (p 3), Cache_Get 2, Cache_Get 4]"

definition test_correctness :: "bool \<times> bool \<times> bool \<Rightarrow> (nat \<Rightarrow> nat) \<Rightarrow> string test_result" where
  "test_correctness m p = cache_test 3 m (correctness_calls p)"

text \<open>\<open>keys[i] = i + 1\<close>; two random numbers choose the index of an access.\<close>

definition hot_key :: "nat \<times> nat \<Rightarrow> int" where
  "hot_key = (\<lambda>(r, s). int (if r mod 100 < 80 then s mod 2 else 2 + s mod 8) + 1)"

definition hot_calls :: "(nat \<Rightarrow> nat) \<Rightarrow> (nat \<Rightarrow> nat \<times> nat) \<Rightarrow> int lru_call list" where
  "hot_calls p rnd = map (\<lambda>i. Cache_Put (int i + 1) (Some (int i + 1)) (p i)) [0..<10] @
     map (\<lambda>i. Cache_Get (hot_key (rnd i))) [0..<10000]"

definition test_hot_set :: "bool \<times> bool \<times> bool \<Rightarrow> (nat \<Rightarrow> nat) \<Rightarrow> (nat \<Rightarrow> nat \<times> nat) \<Rightarrow> int test_result" where
  "test_hot_set m p rnd = cache_test 10 m (hot_calls p rnd)"

section \<open>A cache that is never full\<close>

text \<open>
  The links that survive every hit: a node that has a successor is the predecessor of it, and
  nothing comes before the head. Since \<open>next\<close> leads from the head along different nodes, the loop of
  \<open>lru_cache_clear\<close> ends.
\<close>

definition nxt :: "'v lru_cache \<Rightarrow> nat \<Rightarrow> nat" where
  "nxt c p = nnext (the (heap c p))"

definition prv :: "'v lru_cache \<Rightarrow> nat \<Rightarrow> nat" where
  "prv c p = nprev (the (heap c p))"

definition links :: "nat set \<Rightarrow> (nat \<Rightarrow> nat) \<Rightarrow> (nat \<Rightarrow> nat) \<Rightarrow> nat \<Rightarrow> bool" where
  "links D nx pv h \<longleftrightarrow>
     (\<forall>p\<in>D. p \<noteq> 0 \<and> (pv p \<noteq> 0 \<longrightarrow> pv p \<in> D) \<and> (nx p \<noteq> 0 \<longrightarrow> nx p \<in> D \<and> pv (nx p) = p)) \<and>
     (h \<noteq> 0 \<longrightarrow> h \<in> D \<and> pv h = 0)"

definition links_ok :: "'v lru_cache \<Rightarrow> bool" where
  "links_ok c \<longleftrightarrow> links (dom (heap c)) (nxt c) (prv c) (head c)"

text \<open>What a hit on \<open>q\<close> does to the links: its neighbours are joined, it becomes the head.\<close>

lemma links_moved:
  assumes l: "links D nx pv h" and q: "q \<in> D" "pv q \<noteq> 0"
  defines "nx' \<equiv> nx(pv q := nx q, q := h)"
    and "pv' \<equiv> \<lambda>x. if x = h \<and> h \<noteq> 0 then q else if x = q then 0 else if x = nx q \<and> nx q \<noteq> 0 then pv q else pv x"
  shows "links D nx' pv' q"
proof -
  have D: "p \<noteq> 0" "pv p \<noteq> 0 \<longrightarrow> pv p \<in> D" "nx p \<noteq> 0 \<longrightarrow> nx p \<in> D \<and> pv (nx p) = p" if "p \<in> D" for p
    using l that by (simp_all add: links_def)
  have h: "h \<noteq> 0 \<longrightarrow> h \<in> D \<and> pv h = 0" using l by (simp add: links_def)
  have hq: "\<not> (q = h \<and> h \<noteq> 0)" using h q(2) by auto
  have "nx' p \<in> D \<and> pv' (nx' p) = p" if p: "p \<in> D" "nx' p \<noteq> 0" for p
  proof -
    consider "p = q" | "p \<noteq> q" "p = pv q" | "p \<noteq> q" "p \<noteq> pv q" by blast
    then show ?thesis
    proof cases
      case 1
      then show ?thesis using p h by (simp add: nx'_def pv'_def)
    next
      case 2
      then have b: "nx' p = nx q" "nx q \<noteq> 0" "nx q \<in> D" "pv (nx q) = q" using p D(3) [OF q(1)] by (simp_all add: nx'_def)
      have "nx q \<noteq> q" using b(4) 2 by auto
      moreover have "\<not> (nx q = h \<and> h \<noteq> 0)" using b(4) h D(1) [OF q(1)] by auto
      ultimately show ?thesis using b 2(2) by (simp add: pv'_def)
    next
      case 3
      then have b: "nx' p = nx p" "nx p \<noteq> 0" "nx p \<in> D" "pv (nx p) = p" using p D(3) [OF p(1)] by (simp_all add: nx'_def)
      have "\<not> (nx p = h \<and> h \<noteq> 0)" using b(4) h D(1) [OF p(1)] by auto
      moreover have "nx p \<noteq> q" using b(4) 3(2) by auto
      moreover have "nx p \<noteq> nx q" using b(2,4) D(3) [OF q(1)] 3(1) by auto
      ultimately show ?thesis using b by (simp add: pv'_def)
    qed
  qed
  moreover have "p \<noteq> 0 \<and> (pv' p \<noteq> 0 \<longrightarrow> pv' p \<in> D)" if "p \<in> D" for p
    using D(1,2) [OF that] D(2) [OF q(1)] q by (simp add: pv'_def)
  moreover have "pv' q = 0" using hq by (simp add: pv'_def)
  ultimately show ?thesis using q(1) by (simp add: links_def)
qed

lemma set_nnext_links:
  assumes "p \<in> dom (heap c)"
  obtains d where "set_nnext p v c = Inr d" "nxt d = (nxt c)(p := v)" "prv d = prv c" "same_entries c d" "head d = head c"
proof -
  obtain n where n: "heap c p = Some n" using assms by auto
  let ?d = "c\<lparr>heap := (heap c)(p \<mapsto> n\<lparr>nnext := v\<rparr>)\<rparr>"
  have "set_nnext p v c = Inr ?d" using n by (simp add: set_nnext_def)
  moreover have "nxt ?d = (nxt c)(p := v)" "prv ?d = prv c" using n by (auto simp: nxt_def prv_def fun_eq_iff)
  moreover have "same_entries c ?d" using n by (auto simp: same_entries_def entry_def)
  ultimately show thesis by (intro that [of ?d]) simp_all
qed

lemma set_nprev_links:
  assumes "p \<in> dom (heap c)"
  obtains d where "set_nprev p v c = Inr d" "nxt d = nxt c" "prv d = (prv c)(p := v)" "same_entries c d" "head d = head c"
proof -
  obtain n where n: "heap c p = Some n" using assms by auto
  let ?d = "c\<lparr>heap := (heap c)(p \<mapsto> n\<lparr>nprev := v\<rparr>)\<rparr>"
  have "set_nprev p v c = Inr ?d" using n by (simp add: set_nprev_def)
  moreover have "nxt ?d = nxt c" "prv ?d = (prv c)(p := v)" using n by (auto simp: nxt_def prv_def fun_eq_iff)
  moreover have "same_entries c ?d" using n by (auto simp: same_entries_def entry_def)
  ultimately show thesis by (intro that [of ?d]) simp_all
qed

lemma deref_links: "p \<in> dom (heap c) \<Longrightarrow> \<exists>n. deref c p = Inr n \<and> nnext n = nxt c p \<and> nprev n = prv c p"
  by (auto simp: nxt_def prv_def)

lemma same_entries_dom: "same_entries c d \<Longrightarrow> dom (heap d) = dom (heap c)"
  by (simp add: same_entries_def)

lemma move_to_front_links:
  assumes l: "links_ok c" and q: "q \<in> dom (heap c)"
  obtains d where "move_to_front q c = Inr d" "links_ok d" "same_entries c d"
proof (cases "prv c q = 0")
  case True
  then have "move_to_front q c = Inr c" using deref_links [OF q] by (auto simp: move_to_front_def)
  with l show thesis by (intro that [of c]) (simp_all add: same_entries_refl)
next
  case False
  let ?D = "dom (heap c)" and ?a = "prv c q" and ?b = "nxt c q"
  have a: "?a \<in> ?D" and b: "?b \<noteq> 0 \<longrightarrow> ?b \<in> ?D \<and> prv c ?b = q" using l q False by (auto simp: links_ok_def links_def)
  obtain c1 where c1: "set_nnext ?a ?b c = Inr c1" "nxt c1 = (nxt c)(?a := ?b)" "prv c1 = prv c" "same_entries c c1" "head c1 = head c"
    using set_nnext_links [OF a] .
  have d1: "dom (heap c1) = ?D" using c1(4) by (rule same_entries_dom)
  have b1: "nxt c1 q = ?b" using c1(2) by simp
  obtain c2 where c2: "(if ?b \<noteq> 0 then set_nprev ?b ?a c1 else Inr (c1\<lparr>tail := ?a\<rparr>)) = Inr c2"
    "nxt c2 = nxt c1" "prv c2 = (if ?b \<noteq> 0 then (prv c)(?b := ?a) else prv c)" "same_entries c1 c2" "head c2 = head c"
  proof (cases "?b = 0")
    case True
    then show thesis using c1(3,5)
      by (intro that [of "c1\<lparr>tail := ?a\<rparr>"]) (auto simp: nxt_def prv_def same_entries_def entry_def fun_eq_iff)
  next
    case False
    then have "?b \<in> dom (heap c1)" using b d1 by simp
    from set_nprev_links [OF this, of ?a] show thesis using that c1(3,5) False by metis
  qed
  have q2: "q \<in> dom (heap c2)" using q d1 same_entries_dom [OF c2(4)] by simp
  obtain c3 where c3: "set_nprev q 0 c2 = Inr c3" "nxt c3 = nxt c2" "prv c3 = (prv c2)(q := 0)" "same_entries c2 c3" "head c3 = head c2"
    using set_nprev_links [OF q2] .
  have q3: "q \<in> dom (heap c3)" using q2 same_entries_dom [OF c3(4)] by simp
  obtain c4 where c4: "set_nnext q (head c3) c3 = Inr c4" "nxt c4 = (nxt c3)(q := head c3)" "prv c4 = prv c3" "same_entries c3 c4" "head c4 = head c3"
    using set_nnext_links [OF q3] .
  have d4: "dom (heap c4) = ?D" using d1 c2(4) c3(4) c4(4) by (simp add: same_entries_dom)
  have h: "head c4 = head c" using c2(5) c3(5) c4(5) by simp
  obtain c5 where c5: "(if head c4 \<noteq> 0 then set_nprev (head c4) q c4 else Inr c4) = Inr c5" "nxt c5 = nxt c4"
    "prv c5 = (if head c \<noteq> 0 then (prv c4)(head c := q) else prv c4)" "same_entries c4 c5" "head c5 = head c"
  proof (cases "head c = 0")
    case True
    then show thesis using h by (intro that [of c4]) (simp_all add: same_entries_refl)
  next
    case False
    then have "head c \<in> dom (heap c4)" using d4 l by (auto simp: links_ok_def links_def)
    from set_nprev_links [OF this, of q] show thesis using that h False by metis
  qed
  let ?d = "let c = c5\<lparr>head := q\<rparr> in if tail c = 0 then c\<lparr>tail := q\<rparr> else c"
  have run: "move_to_front q c = Inr ?d"
  proof -
    obtain n where n: "deref c q = Inr n" "nnext n = ?b" "nprev n = ?a" using deref_links [OF q] by auto
    obtain n1 where n1: "deref c1 q = Inr n1" "nnext n1 = ?b" "nprev n1 = ?a"
      using deref_links [of q c1] q d1 b1 c1(3) by auto
    show ?thesis using False n n1 c1(1) c2(1) c3(1) c4(1) c5(1) by (simp add: move_to_front_def Let_def del: bind_r_Inr cong: if_cong split del: if_split)
  qed
  have nx: "nxt ?d = (nxt c)(?a := ?b, q := head c)"
    using c1(2) c2(2,5) c3(2,5) c4(2) c5(2) by (simp add: Let_def nxt_def fun_eq_iff)
  have pv: "prv ?d = (\<lambda>x. if x = head c \<and> head c \<noteq> 0 then q else if x = q then 0
      else if x = ?b \<and> ?b \<noteq> 0 then ?a else prv c x)"
  proof -
    have "prv ?d = prv c5" by (simp add: Let_def prv_def fun_eq_iff)
    then show ?thesis using c2(3) c3(3) c4(3) c5(3) by (simp add: fun_eq_iff)
  qed
  have dd: "dom (heap ?d) = ?D" "head ?d = q" using d4 same_entries_dom [OF c5(4)] by (simp_all add: Let_def)
  have "links_ok ?d"
    unfolding links_ok_def dd nx pv using l links_moved [of ?D "nxt c" "prv c" "head c" q] q False
    by (simp add: links_ok_def)
  moreover have "same_entries c ?d"
    using c1(4) c2(4) c3(4) c4(4) c5(4) by (auto simp: same_entries_def entry_def Let_def)
  ultimately show thesis using run that by blast
qed

text \<open>The loop of \<open>lru_cache_clear\<close> ends: no node that is left points to the one that is freed next.\<close>

lemma clear_loop_ends:
  assumes "finite (dom (heap c))" "\<forall>p\<in>dom (heap c). p \<noteq> 0 \<and> (nxt c p \<noteq> 0 \<longrightarrow> nxt c p \<in> dom (heap c) \<and> prv c (nxt c p) = p)"
    and "x \<noteq> 0 \<longrightarrow> x \<in> dom (heap c) \<and> (\<forall>p\<in>dom (heap c). nxt c p \<noteq> x)"
  shows "\<exists>d. clear_loop c x = Some (Inr d)"
  using assms
proof (induction "card (dom (heap c))" arbitrary: c x rule: less_induct)
  case less
  show ?case
  proof (cases "x = 0")
    case False
    let ?d = "c\<lparr>heap := (heap c)(x := None)\<rparr>"
    have x: "x \<in> dom (heap c)" "\<forall>p\<in>dom (heap c). nxt c p \<noteq> x" using less.prems(3) False by auto
    have f: "nxt ?d p = nxt c p" "prv ?d p = prv c p" if "p \<noteq> x" for p using that by (simp_all add: nxt_def prv_def)
    have "\<exists>e. clear_loop ?d (nxt c x) = Some (Inr e)"
    proof (rule less.hyps)
      show "card (dom (heap ?d)) < card (dom (heap c))" by (rule psubset_card_mono [OF less.prems(1)]) (use x(1) in auto)
      show "finite (dom (heap ?d))" using less.prems(1) by simp
      show "\<forall>p\<in>dom (heap ?d). p \<noteq> 0 \<and> (nxt ?d p \<noteq> 0 \<longrightarrow> nxt ?d p \<in> dom (heap ?d) \<and> prv ?d (nxt ?d p) = p)"
        using less.prems(2) x by (simp add: f)
      have "nxt c p \<noteq> nxt c x" if "p \<in> dom (heap c)" "p \<noteq> x" "nxt c x \<noteq> 0" for p
        using less.prems(2) x(1) that by metis
      then show "nxt c x \<noteq> 0 \<longrightarrow> nxt c x \<in> dom (heap ?d) \<and> (\<forall>p\<in>dom (heap ?d). nxt ?d p \<noteq> nxt c x)"
        using less.prems(2) x by (auto simp: f)
    qed
    moreover obtain n where "deref c x = Inr n" "nnext n = nxt c x" using deref_links [OF x(1)] by auto
    ultimately show ?thesis using False by (simp add: clear_loop.simps [of c x])
  qed (simp add: clear_loop.simps)
qed

lemma destroy_ends:
  assumes "links_ok c" "finite (dom (heap c))"
  shows "\<exists>d es. lru_cache_destroy c = Some (Inr (d, es))"
proof -
  have "\<exists>d. clear_loop c (head c) = Some (Inr d)"
  proof (rule clear_loop_ends [OF assms(2)])
    show "head c \<noteq> 0 \<longrightarrow> head c \<in> dom (heap c) \<and> (\<forall>p\<in>dom (heap c). nxt c p \<noteq> head c)"
      using assms(1) unfolding links_ok_def links_def by metis
  qed (use assms(1) in \<open>simp add: links_ok_def links_def\<close>)
  then show ?thesis by (auto simp: lru_cache_destroy_def lru_cache_clear_def)
qed

text \<open>
  The specification: a map, the counters and the pointers in use. Every key stays where it is, and
  every access to it is a hit.
\<close>

record 'v store =
  contents :: "int \<rightharpoonup> 'v option"
  found :: int
  missed :: int
  used :: "nat set"

fun store_do :: "'v store \<Rightarrow> 'v lru_call \<Rightarrow> 'v lru_reply \<times> 'v store" where
  "store_do s (Cache_Get k) =
     (case contents s k of
        None \<Rightarrow> (Found None, s\<lparr>missed := missed s + 1\<rparr>)
      | Some v \<Rightarrow> (Found v, s\<lparr>found := found s + 1\<rparr>))"
| "store_do s (Cache_Put k v p) =
     (Status 0, s\<lparr>contents := (contents s)(k \<mapsto> v), used := (if contents s k = None then insert p (used s) else used s)\<rparr>)"

text \<open>The entries of the table and the nodes of the heap correspond to each other.\<close>

definition table_ok :: "int set \<Rightarrow> 'v lru_cache \<Rightarrow> bool" where
  "table_ok K c \<longleftrightarrow>
     (\<forall>p\<in>dom (heap c). fst (entry c p) \<in> K \<and> table c (hash_key (fst (entry c p))) = p) \<and>
     (\<forall>h. table c h \<noteq> 0 \<longrightarrow> table c h \<in> dom (heap c) \<and> hash_key (fst (entry c (table c h))) = h)"

definition node_of :: "'v lru_cache \<Rightarrow> int \<Rightarrow> 'v option option" where
  "node_of c k = (let q = table c (hash_key k) in if q = 0 then None else Some (snd (entry c q)))"

definition store_rel :: "int set \<Rightarrow> 'v lru_cache \<Rightarrow> 'v store \<Rightarrow> bool" where
  "store_rel K c s \<longleftrightarrow> links_ok c \<and> table_ok K c \<and> finite (dom (heap c)) \<and> used s = dom (heap c) \<and>
     current_size c = int (card (used s)) \<and> int (card K) \<le> max_size c \<and> max_size c < INT_MAX \<and>
     (\<forall>k\<in>K. contents s k = node_of c k) \<and>
     hits c = found s \<and> misses c = missed s \<and> evictions c = 0 \<and> 0 \<le> found s \<and> 0 \<le> missed s"

definition keys_ok :: "int set \<Rightarrow> bool" where
  "keys_ok K \<longleftrightarrow> finite K \<and> (\<forall>k\<in>K. 0 \<le> k) \<and> inj_on hash_key K"

lemma table_ok_card:
  assumes "table_ok K c" "finite K"
  shows "card (dom (heap c)) \<le> card K"
proof (rule card_inj_on_le [OF _ _ assms(2)])
  show "inj_on (\<lambda>p. fst (entry c p)) (dom (heap c))"
    using assms(1) unfolding table_ok_def inj_on_def by metis
  show "(\<lambda>p. fst (entry c p)) ` dom (heap c) \<subseteq> K" using assms(1) by (auto simp: table_ok_def)
qed

lemma table_ok_key:
  assumes "table_ok K c" "keys_ok K" "k \<in> K" "table c (hash_key k) \<noteq> 0"
  shows "fst (entry c (table c (hash_key k))) = k" "table c (hash_key k) \<in> dom (heap c)"
  using assms unfolding table_ok_def keys_ok_def inj_on_def by metis+

lemma same_entries_table_ok: "same_entries c d \<Longrightarrow> table_ok K d = table_ok K c"
  by (simp add: table_ok_def same_entries_def)

lemma same_entries_node_of: "same_entries c d \<Longrightarrow> node_of d k = node_of c k"
  by (simp add: node_of_def same_entries_def Let_def)

lemma fields_frame [simp]:
  "nxt (c\<lparr>misses := m\<rparr>) = nxt c" "prv (c\<lparr>misses := m\<rparr>) = prv c" "entry (c\<lparr>misses := m\<rparr>) = entry c"
  "nxt (c\<lparr>hits := m\<rparr>) = nxt c" "prv (c\<lparr>hits := m\<rparr>) = prv c" "entry (c\<lparr>hits := m\<rparr>) = entry c"
  by (simp_all add: nxt_def prv_def entry_def fun_eq_iff)

lemma counters_frame [simp]:
  "links_ok (c\<lparr>misses := m\<rparr>) = links_ok c" "table_ok K (c\<lparr>misses := m\<rparr>) = table_ok K c"
  "node_of (c\<lparr>misses := m\<rparr>) k = node_of c k"
  "links_ok (c\<lparr>hits := m\<rparr>) = links_ok c" "table_ok K (c\<lparr>hits := m\<rparr>) = table_ok K c"
  "node_of (c\<lparr>hits := m\<rparr>) k = node_of c k"
  by (simp_all add: links_ok_def table_ok_def node_of_def Let_def)

lemma hit_stores:
  assumes r: "store_rel K c s" and K: "keys_ok K" "k \<in> K" and q: "table c (hash_key k) \<noteq> 0"
  obtains n d where "find_node c k = Some (Inr (table c (hash_key k)))" "heap c (table c (hash_key k)) = Some n"
    "contents s k = Some (nvalue n)" "move_to_front (table c (hash_key k)) c = Inr d" "store_rel K d s" "same_entries c d"
proof -
  let ?q = "table c (hash_key k)"
  have t: "table_ok K c" and l: "links_ok c" using r by (simp_all add: store_rel_def)
  note k = table_ok_key [OF t K q]
  obtain n where n: "heap c ?q = Some n" using k(2) by auto
  have "bucket_free c k" using k(1) K by (simp add: bucket_free_def keys_ok_def Let_def)
  then have "find_node c k = Some (Inr ?q)" using find_hit [OF _ refl q n] by blast
  moreover have "contents s k = Some (nvalue n)"
    using r K(2) q n by (simp add: store_rel_def node_of_def entry_def Let_def)
  moreover obtain d where d: "move_to_front ?q c = Inr d" "links_ok d" "same_entries c d"
    using move_to_front_links [OF l k(2)] .
  moreover have "store_rel K d s"
    using r d(2,3) same_entries_table_ok [OF d(3)] same_entries_node_of [OF d(3)]
    by (auto simp: store_rel_def same_entries_def)
  ultimately show thesis using that n by blast
qed

lemma store_get:
  assumes r: "store_rel K c s" and K: "keys_ok K" "k \<in> K" and o: "hits c < INT_MAX" "misses c < INT_MAX"
  shows "\<exists>d. lru_do c (Cache_Get k) = Some (Inr (fst (store_do s (Cache_Get k)), d)) \<and>
     store_rel K d (snd (store_do s (Cache_Get k)))"
proof (cases "table c (hash_key k) = 0")
  case True
  then have "find_node c k = Some (Inr 0)" using K by (intro find_miss) (auto simp: keys_ok_def)
  moreover have "contents s k = None" using r K(2) True by (simp add: store_rel_def node_of_def)
  moreover have "0 \<le> misses c" using r by (simp add: store_rel_def)
  moreover have "store_rel K (c\<lparr>misses := misses c + 1\<rparr>) (s\<lparr>missed := missed s + 1\<rparr>)"
    using r by (simp add: store_rel_def)
  ultimately show ?thesis using o(2) by (simp add: lru_cache_get_def tag_reply_def INT_MIN_def)
next
  case False
  obtain n d where d: "find_node c k = Some (Inr (table c (hash_key k)))" "heap c (table c (hash_key k)) = Some n"
    "contents s k = Some (nvalue n)" "move_to_front (table c (hash_key k)) c = Inr d" "store_rel K d s" "same_entries c d"
    using hit_stores [OF r K False] .
  obtain m where m: "heap d (table c (hash_key k)) = Some m" "nvalue m = nvalue n"
    using d(2,6) by (auto simp: same_entries_def entry_def) (metis domD domI option.sel)
  have "hits d = hits c" "0 \<le> hits d" using d(5,6) by (simp_all add: same_entries_def store_rel_def)
  moreover have "store_rel K (d\<lparr>hits := hits d + 1\<rparr>) (s\<lparr>found := found s + 1\<rparr>)"
    using d(5) by (simp add: store_rel_def)
  ultimately show ?thesis using d(1,3,4) m o(1) False by (simp add: lru_cache_get_def tag_reply_def INT_MIN_def)
qed

text \<open>A new node gets its \<open>next\<close> from an empty bucket, so it has no successor.\<close>

lemma links_inserted:
  assumes "links D nx pv h" "p \<notin> D" "p \<noteq> 0"
  shows "links (insert p D) (nx(p := 0)) (if h \<noteq> 0 then pv(p := 0, h := p) else pv(p := 0)) p"
proof -
  have h: "h \<noteq> 0 \<longrightarrow> h \<in> D \<and> pv h = 0" "h \<noteq> p" using assms by (auto simp: links_def)
  have "nx x \<noteq> h \<and> nx x \<noteq> p" if "x \<in> D" "nx x \<noteq> 0" for x
    using assms that h by (auto simp: links_def)
  then show ?thesis using assms h by (auto simp: links_def)
qed

lemma insert_stores:
  assumes r: "store_rel K c s" and K: "keys_ok K" "k \<in> K" and t: "table c (hash_key k) = 0" and p: "p \<noteq> 0" "heap c p = None"
  shows "\<exists>d. insert_node p k v c = Inr d \<and> store_rel K d (s\<lparr>contents := (contents s)(k \<mapsto> v), used := insert p (used s)\<rparr>)"
proof -
  let ?h = "head c" and ?D = "dom (heap c)"
  have l: "links ?D (nxt c) (prv c) ?h" and tk: "table_ok K c" using r by (simp_all add: store_rel_def links_ok_def)
  have pD: "p \<notin> ?D" using p(2) by auto
  have hk: "0 \<le> hash_key k" "hash_key k < HASH_TABLE_SIZE" using K hash_key_range [of k] by (auto simp: keys_ok_def)
  define H where "H = (if ?h \<noteq> 0 then (heap c)(?h \<mapsto> (the (heap c ?h))\<lparr>nprev := p\<rparr>) else heap c)
    (p \<mapsto> \<lparr>nkey = k, nvalue = v, nprev = 0, nnext = 0\<rparr>)"
  let ?d = "c\<lparr>heap := H, head := p, tail := (if tail c = 0 then p else tail c), table := (table c)(hash_key k := p),
      current_size := current_size c + 1\<rparr>"
  have h: "?h \<noteq> 0 \<longrightarrow> ?h \<in> ?D" "?h \<noteq> p" using l pD p(1) by (auto simp: links_def)
  have card: "int (card (insert p (used s))) = current_size c + 1" "card ?D < card K"
  proof -
    have f: "finite ?D" "used s = ?D" "current_size c = int (card ?D)" using r by (simp_all add: store_rel_def)
    then show "int (card (insert p (used s))) = current_size c + 1" using pD by simp
    have "(\<lambda>q. fst (entry c q)) ` ?D \<subseteq> K - {k}"
    proof clarify
      fix q n assume q: "heap c q = Some n"
      then have "fst (entry c q) \<in> K" "table c (hash_key (fst (entry c q))) = q" "q \<noteq> 0"
        using tk l by (auto simp: table_ok_def links_def)
      then show "fst (entry c q) \<in> K - {k}" using t by auto
    qed
    moreover have "inj_on (\<lambda>q. fst (entry c q)) ?D" using tk unfolding table_ok_def inj_on_def by metis
    ultimately have "card ?D \<le> card (K - {k})" using K by (intro card_inj_on_le) (auto simp: keys_ok_def)
    also have "\<dots> < card K" using K by (intro card_Diff1_less) (auto simp: keys_ok_def)
    finally show "card ?D < card K" .
  qed
  have run: "insert_node p k v c = Inr ?d"
  proof (cases "?h = 0")
    case True
    then show ?thesis using t hk p h r card
      by (auto simp: insert_node_def H_def set_nnext_def get_table_def set_table_def store_rel_def Let_def INT_MIN_def INT_MAX_def)
  next
    case False
    then obtain m where "heap c ?h = Some m" using h by auto
    then show ?thesis using t hk p h r card False
      by (auto simp: insert_node_def H_def set_nnext_def set_nprev_def get_table_def set_table_def store_rel_def Let_def
          INT_MIN_def INT_MAX_def fun_upd_twist)
  qed
  have dom: "dom (heap ?d) = insert p ?D" using h by (auto simp: H_def)
  have "nxt ?d = (nxt c)(p := 0)" "prv ?d = (if ?h \<noteq> 0 then (prv c)(p := 0, ?h := p) else (prv c)(p := 0))"
    using h by (auto simp: nxt_def prv_def H_def fun_eq_iff)
  then have lk: "links_ok ?d" using links_inserted [OF l pD p(1)] dom by (simp add: links_ok_def)
  have e: "entry ?d q = (if q = p then (k, v) else entry c q)" if "q \<in> insert p ?D" for q
    using that h by (auto simp: entry_def H_def)
  have D0: "q \<noteq> 0" if "q \<in> ?D" for q using l that by (auto simp: links_def)
  have other: "hash_key (fst (entry c q)) \<noteq> hash_key k" "table c (hash_key (fst (entry c q))) = q" "fst (entry c q) \<in> K" if "q \<in> ?D" for q
    using tk t D0 [OF that] that unfolding table_ok_def by metis+
  have tab: "table ?d h \<in> dom (heap ?d) \<and> hash_key (fst (entry ?d (table ?d h))) = h" if "table ?d h \<noteq> 0" for h
  proof (cases "h = hash_key k")
    case False
    then have "table c h \<in> ?D" "hash_key (fst (entry c (table c h))) = h" using tk that by (auto simp: table_ok_def)
    with False pD e [of "table c h"] show ?thesis unfolding dom by auto
  qed (use e [of p] dom in simp)
  have "table_ok K ?d"
    unfolding table_ok_def
  proof (intro conjI ballI allI impI)
    fix q assume "q \<in> dom (heap ?d)"
    then have q: "q \<in> insert p ?D" using dom by simp
    then show "fst (entry ?d q) \<in> K" "table ?d (hash_key (fst (entry ?d q))) = q"
      using e [OF q] other [of q] K(2) by (auto split: if_splits)
  qed (use tab in blast)+
  moreover have "((contents s)(k \<mapsto> v)) j = node_of ?d j" if "j \<in> K" for j
  proof (cases "j = k")
    case True
    then show ?thesis using e [of p] p(1) by (simp add: node_of_def Let_def)
  next
    case False
    then have "hash_key j \<noteq> hash_key k" using K that by (auto simp: keys_ok_def inj_on_def)
    moreover have "table c (hash_key j) \<in> ?D" if "table c (hash_key j) \<noteq> 0" using tk that by (auto simp: table_ok_def)
    ultimately have "node_of ?d j = node_of c j"
      using e [of "table c (hash_key j)"] pD by (auto simp: node_of_def Let_def)
    then show ?thesis using r False that by (simp add: store_rel_def)
  qed
  moreover have "finite (dom (heap ?d))" using r dom by (simp add: store_rel_def)
  ultimately have "store_rel K ?d (s\<lparr>contents := (contents s)(k \<mapsto> v), used := insert p (used s)\<rparr>)"
    using r lk dom card by (simp add: store_rel_def)
  with run show ?thesis by blast
qed

lemma update_stores:
  assumes r: "store_rel K c s" and K: "keys_ok K" "k \<in> K" and q: "table c (hash_key k) \<noteq> 0" "heap c (table c (hash_key k)) = Some n"
  shows "store_rel K (c\<lparr>heap := (heap c)(table c (hash_key k) \<mapsto> n\<lparr>nvalue := v\<rparr>)\<rparr>) (s\<lparr>contents := (contents s)(k \<mapsto> v)\<rparr>)"
proof -
  let ?q = "table c (hash_key k)"
  let ?d = "c\<lparr>heap := (heap c)(?q \<mapsto> n\<lparr>nvalue := v\<rparr>)\<rparr>"
  have tk: "table_ok K c" using r by (simp add: store_rel_def)
  have d: "nxt ?d = nxt c" "prv ?d = prv c" "dom (heap ?d) = dom (heap c)" "entry ?d = (entry c)(?q := (k, v))"
    using q(2) table_ok_key(1) [OF tk K q(1)] by (auto simp: nxt_def prv_def entry_def fun_eq_iff)
  have f: "fst (entry ?d p) = fst (entry c p)" for p using d(4) table_ok_key(1) [OF tk K q(1)] by simp
  have "node_of ?d j = ((contents s)(k \<mapsto> v)) j" if "j \<in> K" for j
  proof (cases "j = k")
    case True
    then show ?thesis using q(1) d(4) by (simp add: node_of_def Let_def)
  next
    case False
    then have "table c (hash_key j) \<noteq> ?q" using table_ok_key(1) [OF tk K(1) that] table_ok_key(1) [OF tk K q(1)] q(1) by metis
    then show ?thesis using d(4) r False that by (simp add: node_of_def store_rel_def Let_def)
  qed
  moreover have "table_ok K ?d" using tk unfolding table_ok_def f d(3) by simp
  ultimately show ?thesis using r d by (simp add: store_rel_def links_ok_def)
qed

lemma store_put:
  assumes r: "store_rel K c s" and K: "keys_ok K" "k \<in> K" and p: "p \<noteq> 0" "heap c p = None"
  shows "\<exists>d. lru_do c (Cache_Put k v p) = Some (Inr (fst (store_do s (Cache_Put k v p)), d)) \<and>
     store_rel K d (snd (store_do s (Cache_Put k v p)))"
proof (cases "table c (hash_key k) = 0")
  case True
  then have "find_node c k = Some (Inr 0)" using K by (intro find_miss) (auto simp: keys_ok_def)
  moreover obtain d where d: "insert_node p k v c = Inr d" "store_rel K d (s\<lparr>contents := (contents s)(k \<mapsto> v), used := insert p (used s)\<rparr>)"
    using insert_stores [OF r K True p] by blast
  moreover have "current_size d \<le> max_size d"
    using d(2) table_ok_card [of K d] K(1) by (auto simp: store_rel_def keys_ok_def)
  moreover have "contents s k = None" using r K(2) True by (simp add: store_rel_def node_of_def)
  ultimately show ?thesis using p(1) by (simp add: lru_cache_put_def tag_reply_def)
next
  case False
  obtain n where n: "find_node c k = Some (Inr (table c (hash_key k)))" "heap c (table c (hash_key k)) = Some n"
    "contents s k = Some (nvalue n)" using hit_stores [OF r K False] .
  let ?c = "c\<lparr>heap := (heap c)(table c (hash_key k) \<mapsto> n\<lparr>nvalue := v\<rparr>)\<rparr>"
  have u: "store_rel K ?c (s\<lparr>contents := (contents s)(k \<mapsto> v)\<rparr>)" by (rule update_stores [OF r K False n(2)])
  have "table ?c (hash_key k) \<noteq> 0" using False by simp
  then obtain d where "move_to_front (table ?c (hash_key k)) ?c = Inr d" "store_rel K d (s\<lparr>contents := (contents s)(k \<mapsto> v)\<rparr>)"
    using hit_stores [OF u K] by blast
  then have "move_to_front (table c (hash_key k)) ?c = Inr d" "store_rel K d (s\<lparr>contents := (contents s)(k \<mapsto> v)\<rparr>)" by simp_all
  with n False show ?thesis by (simp add: lru_cache_put_def tag_reply_def)
qed

text \<open>So the cache implements the map, for calls with keys from \<open>K\<close>.\<close>

definition store_pre :: "int set \<Rightarrow> 'v lru_cache \<Rightarrow> 'v lru_call \<Rightarrow> bool" where
  "store_pre K c x \<longleftrightarrow> keys_ok K \<and> call_fresh c x \<and> call_key x \<in> K"

interpretation store: implements lru_do store_do "store_pre K" "store_rel K" for K
proof
  fix c :: "'a lru_cache" and s x
  assume "store_rel K c s" "store_pre K c x"
  then show "\<exists>d. lru_do c x = Some (Inr (fst (store_do s x), d)) \<and> store_rel K d (snd (store_do s x))"
    using store_get [of K c s] store_put [of K c s] by (cases x) (auto simp: store_pre_def call_fresh_def simp del: lru_do.simps store_do.simps)
qed

text \<open>When \<open>malloc\<close> never returns a pointer twice, the conditions of all calls are met.\<close>

fun put_pointers :: "'v lru_call list \<Rightarrow> nat list" where
  "put_pointers [] = []"
| "put_pointers (Cache_Get k # xs) = put_pointers xs"
| "put_pointers (Cache_Put k v p # xs) = p # put_pointers xs"

definition empty_store :: "'v store" where
  "empty_store = \<lparr>contents = Map.empty, found = 0, missed = 0, used = {}\<rparr>"

lemma store_counts:
  "found (snd (store_do s x)) + missed (snd (store_do s x)) \<le> found s + missed s + 1"
  "used (snd (store_do s x)) \<subseteq> used s \<union> set (put_pointers [x])"
  by (cases x; auto split: option.splits)+

lemma put_pointers_Cons: "put_pointers (x # xs) = put_pointers [x] @ put_pointers xs"
  by (cases x) simp_all

lemma store_calls_ok:
  assumes "store_rel K c s" "keys_ok K" "call_key ` set xs \<subseteq> K" "distinct (put_pointers xs)" "0 \<notin> set (put_pointers xs)"
    and "set (put_pointers xs) \<inter> used s = {}" "found s + missed s + int (length xs) < INT_MAX"
  shows "calls_ok lru_do (store_pre K) c xs"
  using assms
proof (induction xs arbitrary: c s)
  case (Cons x xs)
  have rel: "dom (heap c) = used s" "hits c = found s" "misses c = missed s" "evictions c = 0" "0 \<le> found s" "0 \<le> missed s"
    using Cons.prems(1) by (simp_all add: store_rel_def)
  have "call_fresh c x" using Cons.prems(5-7) rel by (cases x) (auto simp: call_fresh_def)
  then have pre: "store_pre K c x" using Cons.prems(2,3) by (simp add: store_pre_def)
  obtain d where d: "lru_do c x = Some (Inr (fst (store_do s x), d))" "store_rel K d (snd (store_do s x))"
    using store.call [OF Cons.prems(1) pre] by blast
  have "calls_ok lru_do (store_pre K) d xs"
  proof (rule Cons.IH [OF d(2) Cons.prems(2)])
    show "call_key ` set xs \<subseteq> K" using Cons.prems(3) by simp
    show "distinct (put_pointers xs)" "0 \<notin> set (put_pointers xs)"
      using Cons.prems(4,5) put_pointers_Cons [of x xs] by auto
    show "set (put_pointers xs) \<inter> used (snd (store_do s x)) = {}"
      using Cons.prems(4,6) put_pointers_Cons [of x xs] store_counts(2) [of s x] by auto
    show "found (snd (store_do s x)) + missed (snd (store_do s x)) + int (length xs) < INT_MAX"
      using Cons.prems(7) store_counts(1) [of s x] by simp
  qed
  with pre d(1) show ?case by simp
qed simp

lemma empty_cache_store: "card K \<le> cap \<Longrightarrow> int cap < INT_MAX \<Longrightarrow> store_rel K (empty_cache (int cap)) empty_store"
  by (simp add: store_rel_def empty_store_def empty_cache_def links_ok_def links_def table_ok_def node_of_def)

lemma never_full_run:
  assumes "keys_ok K" "card K \<le> cap" "int cap < INT_MAX" "call_key ` set calls \<subseteq> K"
    and "distinct (put_pointers calls)" "0 \<notin> set (put_pointers calls)" "int (length calls) < INT_MAX"
  obtains c d es where
    "run_ops lru_do (empty_cache (int cap)) calls = Some (Inr (fst (run_spec store_do empty_store calls), c))"
    "store_rel K c (snd (run_spec store_do empty_store calls))" "lru_cache_destroy c = Some (Inr (d, es))"
proof -
  have r: "store_rel K (empty_cache (int cap)) (empty_store :: 'a store)" using assms(2,3) by (rule empty_cache_store)
  have "calls_ok lru_do (store_pre K) (empty_cache (int cap)) calls"
    by (rule store_calls_ok [OF r assms(1,4,5,6)]) (use assms(7) in \<open>simp_all add: empty_store_def\<close>)
  from store.run [OF r this] obtain c where c:
    "run_ops lru_do (empty_cache (int cap)) calls = Some (Inr (fst (run_spec store_do empty_store calls), c))"
    "store_rel K c (snd (run_spec store_do empty_store calls))" by blast
  moreover obtain d es where "lru_cache_destroy c = Some (Inr (d, es))"
    using destroy_ends [of c] c(2) by (auto simp: store_rel_def)
  ultimately show thesis using that by blast
qed

section \<open>The tests\<close>

lemma run_spec_append:
  "run_spec g a (xs @ ys) = (case run_spec g a xs of (rs, b) \<Rightarrow> case run_spec g b ys of (qs, c) \<Rightarrow> (rs @ qs, c))"
  by (induction xs arbitrary: a) (auto split: prod.splits)

lemma put_pointers_append: "put_pointers (xs @ ys) = put_pointers xs @ put_pointers ys"
  by (induction xs rule: put_pointers.induct) simp_all

lemma put_pointers_map [simp]:
  "put_pointers (map (\<lambda>i. Cache_Put (f i) (g i) (p i)) xs) = map p xs" "put_pointers (map Cache_Get ks) = []"
  by (induction xs, simp_all) (induction ks, simp_all)

lemma run_spec_snd: "snd (run_spec g a (x # xs)) = snd (run_spec g (snd (g a x)) xs)"
  by (simp add: case_prod_unfold)

lemma store_gets:
  assumes "\<forall>k\<in>set ks. contents s k \<noteq> None"
  shows "snd (run_spec store_do s (map Cache_Get ks)) = s\<lparr>found := found s + int (length ks)\<rparr>"
  using assms by (induction ks arbitrary: s) (auto simp: run_spec_snd add.assoc simp del: run_spec.simps(2))

lemma store_puts:
  "found (snd (run_spec store_do s (map (\<lambda>i. Cache_Put (f i) (g i) (p i)) xs))) = found s \<and>
   missed (snd (run_spec store_do s (map (\<lambda>i. Cache_Put (f i) (g i) (p i)) xs))) = missed s \<and>
   dom (contents (snd (run_spec store_do s (map (\<lambda>i. Cache_Put (f i) (g i) (p i)) xs)))) = f ` set xs \<union> dom (contents s)"
  by (induction xs arbitrary: s) (simp_all add: run_spec_snd del: run_spec.simps(2))

definition all_ok :: "bool \<times> bool \<times> bool" where
  "all_ok = (True, True, True)"

lemma cache_test_runs:
  assumes "0 < cap" "run_ops lru_do (empty_cache (int cap)) calls = Some (Inr (rs, c))" "lru_cache_destroy c = Some (Inr (d, es))"
  shows "cache_test (int cap) all_ok calls = Some (Inr (Some (rs, lru_cache_stats c, d)))"
  using assms by (simp add: cache_test_def all_ok_def lru_cache_create_def)

lemma hot_keys: "1 \<le> hot_key x \<and> hot_key x \<le> 10"
proof -
  obtain r t where x: "x = (r, t)" by (cases x)
  have "t mod 2 < 2" "t mod 8 < 8" by simp_all
  then show ?thesis unfolding hot_key_def x by auto
qed

lemma small_keys: "keys_ok {1..10}"
proof -
  have "hash_key k = k" if "k \<in> {1..10}" for k :: int
    using that by (simp add: hash_key_def HASH_TABLE_SIZE_def signed_modulo_int_def signed_divide_int_def)
  then show ?thesis by (auto simp: keys_ok_def inj_on_def)
qed

section \<open>Properties\<close>



text \<open>In the second test all 10000 accesses are hits, whatever \<open>rand\<close> returns.\<close>

lemma hot_set_all_hits:
  assumes "inj_on p {0..<10}" "\<forall>i<10. p i \<noteq> 0"
  shows "\<exists>rs d. test_hot_set all_ok p rnd = Some (Inr (Some (rs, (10000, 0, 0), d)))"
proof -
  let ?puts = "map (\<lambda>i. Cache_Put (int i + 1) (Some (int i + 1)) (p i)) [0..<10]"
  let ?gets = "map Cache_Get (map (\<lambda>i. hot_key (rnd i)) [0..<10000])"
  have calls: "hot_calls p rnd = ?puts @ ?gets" by (simp add: hot_calls_def comp_def)
  let ?s = "snd (run_spec store_do empty_store ?puts)"
  have s: "found ?s = 0" "missed ?s = 0" "dom (contents ?s) = (\<lambda>i. int i + 1) ` {0..<10}"
    using store_puts [of empty_store "\<lambda>i. int i + 1" "\<lambda>i. Some (int i + 1)" p "[0..<10]"] by (simp_all add: empty_store_def)
  have "contents ?s k \<noteq> None" if "k \<in> {1..10}" for k
  proof -
    have "k = int (nat (k - 1)) + 1" "nat (k - 1) \<in> {0..<10}" using that by auto
    then have "k \<in> dom (contents ?s)" unfolding s(3) by (rule image_eqI)
    then show ?thesis by auto
  qed
  then have "snd (run_spec store_do ?s ?gets) = ?s\<lparr>found := found ?s + 10000\<rparr>"
    using store_gets [of "map (\<lambda>i. hot_key (rnd i)) [0..<10000]" ?s] hot_keys by simp
  then have t: "found (snd (run_spec store_do empty_store (?puts @ ?gets))) = 10000" "missed (snd (run_spec store_do empty_store (?puts @ ?gets))) = 0"
    using s by (simp_all add: run_spec_append case_prod_unfold)
  have k: "call_key ` set (?puts @ ?gets) \<subseteq> {1..10}" using hot_keys by (simp add: image_subset_iff image_Un ball_Un)
  have p: "distinct (put_pointers (?puts @ ?gets))" "0 \<notin> set (put_pointers (?puts @ ?gets))"
    using assms by (auto simp: put_pointers_append distinct_map simp del: map_map)
  have "card {1..10 :: int} \<le> 10" "int 10 < INT_MAX" "int (length (?puts @ ?gets)) < INT_MAX" by (simp_all add: INT_MAX_def)
  then obtain c d es where c: "run_ops lru_do (empty_cache (int 10)) (?puts @ ?gets) =
      Some (Inr (fst (run_spec store_do empty_store (?puts @ ?gets)), c))"
    "store_rel {1..10} c (snd (run_spec store_do empty_store (?puts @ ?gets)))" "lru_cache_destroy c = Some (Inr (d, es))"
    by (rule never_full_run [OF small_keys _ _ k p])
  from cache_test_runs [OF _ c(1,3)] c(2) t show ?thesis
    by (simp add: test_hot_set_def calls store_rel_def lru_cache_stats_def)
qed

text \<open>
  The first test, for any addresses that \<open>malloc\<close> may return. Two of the three nodes that are in the
  cache at the end are never freed.
\<close>

lemma correctness_test_passes:
  assumes "distinct (map p [0, 1, 2, 3])" "0 \<notin> set (map p [0, 1, 2, 3])"
  shows "\<exists>e. test_correctness all_ok p =
      Some (Inr (Some ([Status 0, Status 0, Status 0, Found (Some ''one''), Status 0, Found None, Found (Some ''four'')], (2, 1, 1), e))) \<and>
    dom (heap e) = p ` {0, 2}"
  using assms
  by (simp add: test_correctness_def cache_test_def all_ok_def correctness_calls_def lru_cache_create_def empty_cache_def
      lru_exec lru_cache_destroy_def lru_cache_clear_def clear_loop.simps lru_cache_stats_def insert_commute)

end
