(* ===== verification/LRU_Test_Program.thy ===== *)
theory LRU_Test_Program
  imports LRU_Tests
begin

text \<open>
  The rest of \<open>06_storage/lru_cache/test.c\<close>: the sequential scan, the concurrent test that \<open>main\<close>
  leaves out, and \<open>main\<close>. The pointers that \<open>malloc\<close> returns and the schedule of the threads are
  arguments. The scan keeps the cache in states that are described completely (\<open>scan_rel\<close>), and so
  does the run of the concurrent test that ends with an access to a freed node (\<open>damaged\<close>).
\<close>

section \<open>The code\<close>

text \<open>
  The loop of \<open>test_sequential_scan\<close> ends early when a put fails; the result is the iteration in
  which that has happened, if any.
\<close>

fun scan_loop :: "(nat \<Rightarrow> nat) \<Rightarrow> nat list \<Rightarrow> 'v lru_cache \<Rightarrow> (nat option \<times> 'v lru_cache) c_result option" where
  "scan_loop p [] c = Some (Inr (None, c))"
| "scan_loop p (i # is) c =
     (let key = int (i mod 100) in
      bind_o (lru_cache_get c key) (\<lambda>(_, c).
      bind_o (lru_cache_put c key None (p i)) (\<lambda>(r, c).
        if r \<noteq> 0 then Some (Inr (Some i, c)) else scan_loop p is c)))"

definition test_sequential_scan ::
  "bool \<times> bool \<times> bool \<Rightarrow> (nat \<Rightarrow> nat) \<Rightarrow> (nat option \<times> (int \<times> int \<times> int) \<times> int lru_cache) option c_result option" where
  "test_sequential_scan = (\<lambda>(m_cache, m_table, m_lock) p.
     case fst (lru_cache_create 10 m_cache m_table m_lock) of
       None \<Rightarrow> Some (Inr None)
     | Some c \<Rightarrow>
         bind_o (scan_loop p [0..<1000] c) (\<lambda>(failed, c).
         bind_o (lru_cache_destroy c) (\<lambda>(d, _).
           Some (Inr (Some (failed, lru_cache_stats c, d))))))"

text \<open>
  The concurrent test: two threads with 1000 iterations each over the same 50 keys. Each call holds
  the mutex of the cache from beginning to end, so a run is an interleaving of the calls.
\<close>

definition worker_pair :: "(nat \<Rightarrow> nat) \<Rightarrow> nat \<Rightarrow> nat \<Rightarrow> int lru_call list" where
  "worker_pair p thread_id i =
     (let key = int ((thread_id * 1000 + i) mod 50) in
      [Cache_Put key (Some (key + 1)) (p (thread_id * 1000 + i)), Cache_Get key])"

definition concurrent_worker :: "(nat \<Rightarrow> nat) \<Rightarrow> nat \<Rightarrow> int lru_call list" where
  "concurrent_worker p thread_id = concat (map (worker_pair p thread_id) [0..<1000])"

definition test_concurrent :: "bool \<times> bool \<times> bool \<Rightarrow> (nat \<Rightarrow> nat) \<Rightarrow> nat list \<Rightarrow> int test_result" where
  "test_concurrent m p schedule = cache_test 20 m (interleave schedule (map (concurrent_worker p) [0, 1]))"

text \<open>\<open>main\<close> runs three of the tests, each with a cache of its own.\<close>

definition lru_test_main ::
  "(nat \<Rightarrow> bool \<times> bool \<times> bool) \<Rightarrow> (nat \<Rightarrow> nat \<Rightarrow> nat) \<Rightarrow> (nat \<Rightarrow> nat \<times> nat) \<Rightarrow>
   ((string lru_reply list \<times> (int \<times> int \<times> int) \<times> string lru_cache) option \<times>
    (int lru_reply list \<times> (int \<times> int \<times> int) \<times> int lru_cache) option \<times>
    (nat option \<times> (int \<times> int \<times> int) \<times> int lru_cache) option) c_result option" where
  "lru_test_main m p rnd =
     bind_o (test_correctness (m 0) (p 0)) (\<lambda>a.
     bind_o (test_hot_set (m 1) (p 1) rnd) (\<lambda>b.
     bind_o (test_sequential_scan (m 2) (p 2)) (\<lambda>c.
       Some (Inr (a, b, c)))))"

lemma hash_small [simp]: "n < 1024 \<Longrightarrow> hash_key (int n) = int n"
  using c_rem_nonneg [of "int n" 1024] by (simp add: hash_key_def HASH_TABLE_SIZE_def c_rem_def)

section \<open>The sequential scan\<close>

text \<open>
  What the scan needs from \<open>malloc\<close>: a pointer differs from those of the ten iterations before,
  whose nodes may still be in the cache. Older ones may come back.
\<close>

definition recent_distinct :: "(nat \<Rightarrow> nat) \<Rightarrow> nat \<Rightarrow> bool" where
  "recent_distinct p n \<longleftrightarrow> (\<forall>i<n. p i \<noteq> 0 \<and> (\<forall>j<i. i \<le> j + 10 \<longrightarrow> p i \<noteq> p j))"

text \<open>The cache after the keys of the iterations \<open>a\<close> to \<open>b - 1\<close> are left in it: no \<open>next\<close> field is set.\<close>

definition scan_node :: "(nat \<Rightarrow> nat) \<Rightarrow> nat \<Rightarrow> nat \<Rightarrow> 'v node" where
  "scan_node p b j = \<lparr>nkey = int (j mod 100), nvalue = None, nprev = (if Suc j = b then 0 else p (Suc j)), nnext = 0\<rparr>"

definition scan_rel :: "(nat \<Rightarrow> nat) \<Rightarrow> nat \<Rightarrow> nat \<Rightarrow> 'v lru_cache \<Rightarrow> bool" where
  "scan_rel p a b c \<longleftrightarrow>
     (\<forall>j\<in>{a..<b}. heap c (p j) = Some (scan_node p b j) \<and> table c (int (j mod 100)) = p j) \<and>
     dom (heap c) = p ` {a..<b} \<and> (\<forall>h. h \<notin> (\<lambda>j. int (j mod 100)) ` {a..<b} \<longrightarrow> table c h = 0) \<and>
     (if a = b then head c = 0 \<and> tail c = 0 else head c = p (b - 1) \<and> tail c = p a) \<and>
     a \<le> b \<and> b \<le> 1000 \<and> max_size c = 10 \<and> current_size c = int (b - a) \<and> hits c = 0 \<and> evictions c = int a"

lemma window_mod:
  assumes "j < i" "i < j + m"
  shows "i mod m \<noteq> j mod (m :: nat)"
proof
  assume "i mod m = j mod m"
  then have "m dvd i - j" using assms(1) by (simp add: mod_eq_dvd_iff_nat)
  with assms show False by (auto dest: dvd_imp_le)
qed

lemma less_100: "n mod 100 < (100 :: nat)" "n mod 100 < (1024 :: nat)"
proof -
  show "n mod 100 < (100 :: nat)" by simp
  then show "n mod 100 < (1024 :: nat)" by linarith
qed

lemma scan_free:
  assumes "scan_rel p a b c" "b \<le> a + 10"
  shows "table c (int (b mod 100)) = 0" "find_node c (int (b mod 100)) = Some (Inr 0)"
proof -
  have "int (b mod 100) \<noteq> int (j mod 100)" if "j \<in> {a..<b}" for j
    using that assms(2) window_mod [of j b 100] by auto
  then have "int (b mod 100) \<notin> (\<lambda>j. int (j mod 100)) ` {a..<b}" by blast
  then show t: "table c (int (b mod 100)) = 0" using assms(1) unfolding scan_rel_def by blast
  have "b mod 100 < 100" by simp
  then have "hash_key (int (b mod 100)) = int (b mod 100)" by (intro hash_small) linarith
  with t show "find_node c (int (b mod 100)) = Some (Inr 0)" by (intro find_miss) simp_all
qed

lemma scan_get:
  assumes "scan_rel p a b c" "b \<le> a + 10" "misses c = int m" "m < 1000"
  shows "lru_cache_get c (int (b mod 100)) = Some (Inr (None, c\<lparr>misses := int (Suc m)\<rparr>))"
    "scan_rel p a b (c\<lparr>misses := int (Suc m)\<rparr>)"
  using scan_free(2) [OF assms(1,2)] assms by (simp_all add: lru_cache_get_def c_int_def INT_MIN_def INT_MAX_def scan_rel_def)

lemma scan_pointer:
  assumes "recent_distinct p n"
  shows "i < n \<Longrightarrow> p i \<noteq> 0" "j < i \<Longrightarrow> i < n \<Longrightarrow> i \<le> j + 10 \<Longrightarrow> p i \<noteq> p j \<and> p j \<noteq> p i"
  using assms by (auto simp: recent_distinct_def) metis

lemma scan_insert_run:
  assumes r: "scan_rel p a b c" and b: "b \<le> a + 10" "b < 1000" and p: "recent_distinct p 1000"
  shows "insert_node (p b) (int (b mod 100)) None c = Inr (c\<lparr>
      heap := (if a = b then heap c else (heap c)(p (b - 1) \<mapsto> scan_node p (Suc b) (b - 1)))(p b \<mapsto> scan_node p (Suc b) b),
      head := p b, tail := (if a = b then p b else p a), table := (table c)(int (b mod 100) := p b), current_size := int (Suc b - a)\<rparr>)"
proof (cases "a = b")
  case True
  with r show ?thesis using less_100 [of b] scan_free(1) [OF r b(1)]
    by (simp add: insert_node_def scan_rel_def set_nprev_def set_nnext_def upd_node_def deref_def get_table_def
      set_table_def HASH_TABLE_SIZE_def INT_MIN_def INT_MAX_def Let_def scan_node_def)
next
  case False
  then have l: "b - 1 \<in> {a..<b}" "b - 1 < b" "Suc (b - 1) = b" using r by (auto simp: scan_rel_def)
  have "head c = p (b - 1)" "p (b - 1) \<noteq> 0" "p (b - 1) \<noteq> p b" "p b \<noteq> p (b - 1)" "tail c = p a" "p a \<noteq> 0"
    "heap c (p (b - 1)) = Some (scan_node p b (b - 1))" "current_size c + 1 = int (Suc b - a)"
    using r l False b scan_pointer(1) [OF p, of "b - 1"] scan_pointer(1) [OF p, of a] scan_pointer(2) [OF p l(2)]
    by (auto simp: scan_rel_def)
  then show ?thesis using False less_100 [of b] scan_free(1) [OF r b(1)] b l
    by (simp add: insert_node_def set_nprev_def set_nnext_def upd_node_def deref_def get_table_def
      set_table_def HASH_TABLE_SIZE_def c_int_def INT_MIN_def INT_MAX_def Let_def scan_node_def fun_eq_iff)
qed

lemma scan_node_Suc: "j < b - 1 \<Longrightarrow> scan_node p (Suc b) j = scan_node p b j"
  by (auto simp: scan_node_def)

lemma scan_insert:
  assumes r: "scan_rel p a b c" and b: "b \<le> a + 10" "b < 1000" and p: "recent_distinct p 1000"
  shows "\<exists>c'. insert_node (p b) (int (b mod 100)) None c = Inr c' \<and> scan_rel p a (Suc b) c' \<and> misses c' = misses c"
proof -
  define H where "H = (if a = b then heap c else (heap c)(p (b - 1) \<mapsto> scan_node p (Suc b) (b - 1)))(p b \<mapsto> scan_node p (Suc b) b)"
  define T where "T = (table c)(int (b mod 100) := p b)"
  have ab: "a \<le> b" using r by (simp add: scan_rel_def)
  have old: "heap c (p j) = Some (scan_node p b j)" "table c (int (j mod 100)) = p j" "p b \<noteq> p j" "j mod 100 \<noteq> b mod 100"
    if "j \<in> {a..<b}" for j
    using r that b scan_pointer(2) [OF p, of j b] window_mod [of j b 100] by (auto simp: scan_rel_def)
  have nodes: "H (p j) = Some (scan_node p (Suc b) j) \<and> T (int (j mod 100)) = p j" if j: "j \<in> {a..<Suc b}" for j
  proof -
    have "j = b \<or> j = b - 1 \<and> j \<in> {a..<b} \<or> j < b - 1 \<and> j \<in> {a..<b}" using j by auto
    then consider "j = b" | "j = b - 1" "j \<in> {a..<b}" | "j < b - 1" "j \<in> {a..<b}" by blast
    then show ?thesis
    proof cases
      case 3
      then have "b - 1 < 1000" "b - 1 \<le> j + 10" using b by auto
      then have "p (b - 1) \<noteq> p j" using scan_pointer(2) [OF p, of j "b - 1"] 3(1) by simp
      with 3 old [of j] show ?thesis by (auto simp: scan_node_Suc H_def T_def)
    qed (use old [of j] in \<open>auto simp: H_def T_def\<close>)
  qed
  have dom_H: "dom H = p ` {a..<Suc b}"
  proof -
    have "p (b - 1) \<in> p ` {a..<b}" if "a \<noteq> b" using that ab by (intro imageI) auto
    moreover have "{a..<Suc b} = insert b {a..<b}" using ab by auto
    moreover have "dom (heap c) = p ` {a..<b}" using r by (simp add: scan_rel_def)
    ultimately show ?thesis by (auto simp: H_def)
  qed
  have empty: "T h = 0" if "h \<notin> (\<lambda>j. int (j mod 100)) ` {a..<Suc b}" for h
  proof -
    have "h \<noteq> int (b mod 100)" "h \<notin> (\<lambda>j. int (j mod 100)) ` {a..<b}" using that ab by auto
    then show ?thesis using r unfolding scan_rel_def T_def by simp
  qed
  let ?c = "c\<lparr>heap := H, head := p b, tail := (if a = b then p b else p a), table := T, current_size := int (Suc b - a)\<rparr>"
  have "scan_rel p a (Suc b) ?c" using nodes dom_H empty r b ab unfolding scan_rel_def by simp
  moreover have "insert_node (p b) (int (b mod 100)) None c = Inr ?c"
    unfolding scan_insert_run [OF assms] H_def T_def ..
  ultimately show ?thesis by (intro exI [of _ ?c]) simp
qed

lemma scan_evict:
  assumes r: "scan_rel p a b c" and b: "b = a + 11" and p: "recent_distinct p 1000"
  shows "\<exists>c'. evict_lru c = Some (Inr c') \<and> scan_rel p (Suc a) b c' \<and> misses c' = misses c"
proof -
  let ?h = "int (a mod 100)"
  have b': "a < b" "b \<le> 1000" using r b by (auto simp: scan_rel_def)
  have n: "heap c (p j) = Some (scan_node p b j)" "table c (int (j mod 100)) = p j" if "j \<in> {a..<b}" for j
    using r that by (auto simp: scan_rel_def)
  have fr: "p a \<noteq> p j" "a mod 100 \<noteq> j mod 100" if "j \<in> {Suc a..<b}" for j
    using that b b' scan_pointer(2) [OF p, of a j] window_mod [of a j 100] by auto
  have v: "tail c = p a" "p a \<noteq> 0" "p (Suc a) \<noteq> 0" "p (Suc a) \<noteq> p a" "heap c (p a) = Some (scan_node p b a)"
    "heap c (p (Suc a)) = Some (scan_node p b (Suc a))" "table c ?h = p a"
    using r b b' n [of a] n [of "Suc a"] fr(1) [of "Suc a"] scan_pointer(1) [OF p] by (auto simp: scan_rel_def)
  let ?c = "c\<lparr>tail := p (Suc a), table := (table c)(?h := 0), current_size := int (b - Suc a), evictions := int (Suc a),
    heap := (heap c)(p a := None)\<rparr>"
  have "evict_lru c = Some (Inr ?c)"
    using v r b less_100 [of a]
    by (simp add: evict_lru_def unlink_tail_def unlink_chain_def set_nnext_def upd_node_def deref_def get_table_def set_table_def
        HASH_TABLE_SIZE_def c_int_def INT_MIN_def INT_MAX_def scan_rel_def scan_node_def fun_eq_iff)
  moreover have "scan_rel p (Suc a) b ?c"
  proof -
    have "heap ?c (p j) = Some (scan_node p b j) \<and> table ?c (int (j mod 100)) = p j" if "j \<in> {Suc a..<b}" for j
      using n [of j] fr [OF that] that by auto
    moreover have "dom (heap ?c) = p ` {Suc a..<b}"
    proof -
      have "{a..<b} = insert a {Suc a..<b}" "p a \<notin> p ` {Suc a..<b}" using b' fr(1) by (auto simp: image_iff)
      then show ?thesis using r by (simp add: scan_rel_def)
    qed
    moreover have "table ?c h = 0" if "h \<notin> (\<lambda>j. int (j mod 100)) ` {Suc a..<b}" for h
    proof (cases "h = ?h")
      case False
      moreover have "{a..<b} = insert a {Suc a..<b}" using b' by auto
      ultimately have "h \<notin> (\<lambda>j. int (j mod 100)) ` {a..<b}" using that by simp
      then show ?thesis using r False unfolding scan_rel_def by simp
    qed simp
    ultimately show ?thesis using r b b' unfolding scan_rel_def by simp
  qed
  ultimately show ?thesis by auto
qed

lemma scan_put:
  assumes r: "scan_rel p (b - 10) b c" and b: "b < 1000" and p: "recent_distinct p 1000"
  shows "\<exists>c'. lru_cache_put c (int (b mod 100)) None (p b) = Some (Inr (0, c')) \<and> scan_rel p (Suc b - 10) (Suc b) c' \<and> misses c' = misses c"
proof -
  have w: "b \<le> b - 10 + 10" by simp
  obtain c1 where c1: "insert_node (p b) (int (b mod 100)) None c = Inr c1" "scan_rel p (b - 10) (Suc b) c1" "misses c1 = misses c"
    using scan_insert [OF r w b p] by blast
  have s: "max_size c1 = 10" "current_size c1 = int (Suc b - (b - 10))" using c1(2) by (simp_all add: scan_rel_def)
  have put: "lru_cache_put c (int (b mod 100)) None (p b) =
      (if b < 10 then Some (Inr (0, c1)) else bind_o (evict_lru c1) (\<lambda>c. Some (Inr (0, c))))"
    using scan_free(2) [OF r w] c1(1) s b scan_pointer(1) [OF p b]
    by (auto simp: lru_cache_put_def split: option.split sum.split)
  show ?thesis
  proof (cases "b < 10")
    case True
    then show ?thesis using put c1 by (intro exI [of _ c1]) simp
  next
    case False
    then have e: "Suc b = b - 10 + 11" "Suc (b - 10) = Suc b - 10" by simp_all
    from scan_evict [OF c1(2) e(1) p] show ?thesis using put False c1(3) unfolding e(2) by auto
  qed
qed

lemma scan_loop_run:
  assumes "scan_rel p (b - 10) b c" "misses c = int b" "b \<le> 1000" "recent_distinct p 1000"
  shows "\<exists>c'. scan_loop p [b..<1000] c = Some (Inr (None, c')) \<and> scan_rel p 990 1000 c' \<and> misses c' = 1000"
  using assms(3,1,2)
proof (induction b arbitrary: c rule: inc_induct)
  case base
  then show ?case by simp
next
  case (step b)
  have w: "b \<le> b - 10 + 10" by simp
  note g = scan_get [OF step.prems(1) w step.prems(2) step.hyps(2)]
  obtain c' where c': "lru_cache_put (c\<lparr>misses := int (Suc b)\<rparr>) (int (b mod 100)) None (p b) = Some (Inr (0, c'))"
    "scan_rel p (Suc b - 10) (Suc b) c'" "misses c' = int (Suc b)"
    using scan_put [OF g(2) step.hyps(2) assms(4)] by auto
  from step.IH [OF c'(2,3)] show ?case
    using g(1) c'(1) step.hyps(2) by (subst upt_conv_Cons) (simp_all add: Let_def)
qed

section \<open>The concurrent test\<close>

text \<open>The cache after 3 to 20 keys, in a run in which the node of key 1 has been lost from the list.\<close>

definition damaged :: "nat \<Rightarrow> int lru_cache" where
  "damaged n = \<lparr>heap = (\<lambda>q.
      if q = 1 then Some \<lparr>nkey = 0, nvalue = Some 1, nprev = 3, nnext = 0\<rparr>
      else if q = 2 then Some \<lparr>nkey = 1, nvalue = Some 2, nprev = 3, nnext = 0\<rparr>
      else if 3 \<le> q \<and> q \<le> n then
        Some \<lparr>nkey = int q - 1, nvalue = Some (int q), nprev = (if q = n then 0 else q + 1), nnext = (if q = 3 then 1 else 0)\<rparr>
      else None),
     head = n, tail = 1, max_size = 20, current_size = int n, table = (\<lambda>h. if 0 \<le> h \<and> h < int n then nat h + 1 else 0),
     hits = int n, misses = 0, evictions = 0\<rparr>"

lemma cache_test_stops:
  "run_ops lru_do (empty_cache 20) calls = Some (Inl e) \<Longrightarrow> cache_test 20 all_ok calls = Some (Inl e)"
  by (simp add: cache_test_def all_ok_def lru_cache_create_def)

lemma damaged_start:
  "run_ops lru_do (empty_cache 20) (worker_pair Suc 0 0 @ worker_pair Suc 0 1 @ take 1 (worker_pair Suc 0 2) @ take 1 (worker_pair Suc 1 0) @ drop 1 (worker_pair Suc 0 2)) =
     Some (Inr ([Status 0, Found (Some 1), Status 0, Found (Some 2), Status 0, Status 0, Found (Some 3)], damaged 3))"
proof -
  have "run_ops lru_do (empty_cache 20) (worker_pair Suc 0 0 @ worker_pair Suc 0 1 @ take 1 (worker_pair Suc 0 2) @ take 1 (worker_pair Suc 1 0) @ drop 1 (worker_pair Suc 0 2)) =
     Some (Inr ([Status 0, Found (Some 1), Status 0, Found (Some 2), Status 0, Status 0, Found (Some 3)],
     \<lparr>heap = [1 \<mapsto> \<lparr>nkey = 0, nvalue = Some 1, nprev = 3, nnext = 0\<rparr>, 2 \<mapsto> \<lparr>nkey = 1, nvalue = Some 2, nprev = 3, nnext = 0\<rparr>,
         3 \<mapsto> \<lparr>nkey = 2, nvalue = Some 3, nprev = 0, nnext = 1\<rparr>], head = 3, tail = 1, max_size = 20, current_size = 3,
       table = (\<lambda>_. 0)(0 := 1, 1 := 2, 2 := 3), hits = 3, misses = 0, evictions = 0\<rparr>))"
    by (simp add: worker_pair_def lru_exec empty_cache_def Let_def fun_eq_iff)
  also have "\<lparr>heap = [1 \<mapsto> \<lparr>nkey = 0, nvalue = Some 1, nprev = 3, nnext = 0\<rparr>, 2 \<mapsto> \<lparr>nkey = 1, nvalue = Some 2, nprev = 3, nnext = 0\<rparr>,
         3 \<mapsto> \<lparr>nkey = 2, nvalue = Some 3, nprev = 0, nnext = 1\<rparr>], head = 3, tail = 1, max_size = 20, current_size = 3,
       table = (\<lambda>_. 0)(0 := 1, 1 := 2, 2 := 3), hits = 3, misses = 0, evictions = 0\<rparr> = damaged 3"
    by (auto simp: damaged_def fun_eq_iff)
  finally show ?thesis .
qed

lemma damaged_step:
  assumes "3 \<le> n" "n < 20"
  shows "run_ops lru_do (damaged n) (worker_pair Suc 0 n) = Some (Inr ([Status 0, Found (Some (int n + 1))], damaged (n + 1)))"
proof -
  let ?c = "(damaged (n + 1))\<lparr>hits := int n\<rparr>"
  have k: "n mod 50 = n" "int n < 1024" "n < 1024" using assms by simp_all
  have m: "find_node (damaged n) (int n) = Some (Inr 0)" using k by (intro find_miss) (simp_all add: damaged_def)
  have i: "insert_node (n + 1) (int n) (Some (int n + 1)) (damaged n) = Inr ?c"
    using assms k by (auto simp: insert_node_def damaged_def set_nprev_def set_nnext_def upd_node_def deref_def get_table_def
        set_table_def HASH_TABLE_SIZE_def INT_MIN_def INT_MAX_def Let_def fun_eq_iff)
  have p: "lru_cache_put (damaged n) (int n) (Some (int n + 1)) (n + 1) = Some (Inr (0, ?c))"
    using m i assms by (simp add: lru_cache_put_def damaged_def)
  have f: "find_node ?c (int n) = Some (Inr (n + 1))"
    using assms k by (intro find_hit) (auto simp: bucket_free_def damaged_def entry_def)
  have h: "heap ?c (n + 1) = Some \<lparr>nkey = int n, nvalue = Some (int n + 1), nprev = 0, nnext = if n = 2 then 1 else 0\<rparr>"
    using assms by (simp add: damaged_def)
  then have "move_to_front (n + 1) ?c = Inr ?c" by (simp add: move_to_front_def deref_def)
  with f h have "lru_cache_get ?c (int n) = Some (Inr (Some (int n + 1), ?c\<lparr>hits := int n + 1\<rparr>))"
    using assms by (simp add: lru_cache_get_def deref_def c_int_def INT_MIN_def INT_MAX_def)
  moreover have "?c\<lparr>hits := int n + 1\<rparr> = damaged (n + 1)" by (simp add: damaged_def)
  ultimately have "lru_cache_get ?c (int n) = Some (Inr (Some (int n + 1), damaged (n + 1)))" by simp
  with p show ?thesis using k by (simp add: worker_pair_def tag_reply_def Let_def)
qed

lemma damaged_run:
  assumes "3 \<le> n" "n \<le> 20"
  shows "\<exists>rs. run_ops lru_do (damaged 3) (concat (map (worker_pair Suc 0) [3..<n])) = Some (Inr (rs, damaged n))"
  using assms
proof (induction n rule: nat_induct_at_least)
  case (Suc n)
  then obtain rs where "run_ops lru_do (damaged 3) (concat (map (worker_pair Suc 0) [3..<n])) = Some (Inr (rs, damaged n))"
    by auto
  moreover have "concat (map (worker_pair Suc 0) [3..<Suc n]) = concat (map (worker_pair Suc 0) [3..<n]) @ worker_pair Suc 0 n"
    using Suc.hyps by simp
  ultimately show ?case using damaged_step [of n] Suc by (simp add: run_ops_append)
qed simp

lemma damaged_crash:
  "run_ops lru_do (damaged 20) (worker_pair Suc 0 20 @ take 1 (worker_pair Suc 0 21) @ drop 1 (worker_pair Suc 1 0) @ take 1 (worker_pair Suc 1 1)) =
     Some (Inl Use_After_Free)"
  by (simp add: worker_pair_def damaged_def lru_exec)

text \<open>The first 46 calls of the schedule that is used below.\<close>

lemma concurrent_prefix:
  obtains rest where
    "interleave (replicate 5 0 @ replicate 1 1 @ replicate 38 0 @ replicate 2 1) (map (concurrent_worker Suc) [0, 1]) =
     (worker_pair Suc 0 0 @ worker_pair Suc 0 1 @ take 1 (worker_pair Suc 0 2) @ take 1 (worker_pair Suc 1 0) @ drop 1 (worker_pair Suc 0 2)) @
     concat (map (worker_pair Suc 0) [3..<20]) @
     (worker_pair Suc 0 20 @ take 1 (worker_pair Suc 0 21) @ drop 1 (worker_pair Suc 1 0) @ take 1 (worker_pair Suc 1 1)) @ rest"
proof -
  let ?w = "worker_pair Suc"
  have upt: "[a..<c] = [a..<b] @ [b..<c]" if "a \<le> b" "b \<le> c" for a b c :: nat
    using that upt_add_eq_append [of a b "c - b"] by simp
  have short: "[0..<3] = [0, 1, 2 :: nat]" "[20..<22] = [20, 21 :: nat]" "[0..<2] = [0, 1 :: nat]"
    by (simp_all add: upt_rec)
  have indices: "[0..<1000] = [0, 1, 2] @ [3..<20] @ [20, 21] @ [22..<1000 :: nat]" "[0..<1000] = [0, 1] @ [2..<1000 :: nat]"
    unfolding short [symmetric] by (simp_all only: upt [symmetric] le_numeral_extra numeral_le_iff semiring_norm zero_le)
  have cut: "take 1 w @ drop 1 w @ ws = w @ ws" for w ws :: "int lru_call list" by (simp flip: append_assoc)
  note lists = map_append concat_append list.map concat.simps append.simps append_assoc cut
  define mid rest0 rest1 where d: "mid = concat (map (?w 0) [3..<20])"
    "rest0 = drop 1 (?w 0 21) @ concat (map (?w 0) [22..<1000])" "rest1 = drop 1 (?w 1 1) @ concat (map (?w 1) [2..<1000])"
  have "concurrent_worker Suc 0 = (?w 0 0 @ ?w 0 1 @ take 1 (?w 0 2)) @
      (drop 1 (?w 0 2) @ mid @ ?w 0 20 @ take 1 (?w 0 21)) @ rest0"
    unfolding concurrent_worker_def indices(1) d by (simp only: lists)
  moreover have "concurrent_worker Suc 1 = take 1 (?w 1 0) @ (drop 1 (?w 1 0) @ take 1 (?w 1 1)) @ rest1"
    unfolding concurrent_worker_def indices(2) d by (simp only: lists)
  moreover have "length mid = 34" by (simp add: d worker_pair_def Let_def upt_rec)
  moreover have "length (?w t i) = 2" for t i by (simp add: worker_pair_def Let_def)
  ultimately have "interleave (replicate 5 0 @ replicate 1 1 @ replicate 38 0 @ replicate 2 1 @ []) (map (concurrent_worker Suc) [0, 1]) =
      (?w 0 0 @ ?w 0 1 @ take 1 (?w 0 2)) @ take 1 (?w 1 0) @ (drop 1 (?w 0 2) @ mid @ ?w 0 20 @ take 1 (?w 0 21)) @
      (drop 1 (?w 1 0) @ take 1 (?w 1 1)) @ interleave [] [rest0, rest1]"
    by (simp add: interleave_run del: append_assoc append_Nil2 replicate.simps interleave.simps)
  then show ?thesis by (intro that) (simp only: append_assoc append_Nil2 d)
qed

section \<open>Properties\<close>

text \<open>
  The sequential scan never hits: of 1000 accesses all are misses and 990 end with an eviction, no
  put fails, and the cache can be destroyed.
\<close>

lemma scan_never_hits:
  assumes "recent_distinct p 1000"
  shows "\<exists>d. test_sequential_scan all_ok p = Some (Inr (Some (None, (0, 1000, 990), d))) \<and> dom (heap d) = p ` {990..<999}"
proof -
  have "scan_rel p (0 - 10) 0 (empty_cache 10)" by (simp add: scan_rel_def empty_cache_def)
  from scan_loop_run [OF this _ _ assms]
  obtain c :: "int lru_cache" where c: "scan_loop p [0..<1000] (empty_cache 10) = Some (Inr (None, c))" "scan_rel p 990 1000 c" "misses c = 1000"
    by (auto simp: empty_cache_def)
  have h: "head c = p 999" "heap c (p 999) = Some (scan_node p 1000 999)" "hits c = 0" "evictions c = 990" "p 999 \<noteq> 0"
    using c(2) scan_pointer(1) [OF assms, of 999] by (simp_all add: scan_rel_def)
  have "dom ((heap c)(p 999 := None)) = p ` {990..<999}"
  proof -
    have "{990..<1000} = insert 999 {990..<999 :: nat}" "p 999 \<notin> p ` {990..<999}"
      using scan_pointer(2) [OF assms, of _ 999] by (auto simp: image_iff)
    then show ?thesis using c(2) by (simp add: scan_rel_def)
  qed
  then show ?thesis using c(1,3) h
    by (simp add: test_sequential_scan_def all_ok_def lru_cache_create_def lru_cache_destroy_def lru_cache_clear_def
        clear_loop.simps [of c] clear_loop.simps [of _ 0] deref_def scan_node_def lru_cache_stats_def)
qed

text \<open>
  C39: The test program returns, whatever \<open>rand\<close> and \<open>malloc\<close> give, and its tests print what they
  expect: the first one the values one, NULL and four with two hits, one miss and one eviction, the
  hot set 10000 hits, and the scan 1000 misses and 990 evictions, so that its hit ratio is 0 and not
  the ratio of about 10 percent of its message. The caches of the first and the third test are
  destroyed with two and nine nodes that are never freed.
\<close>

theorem lru_test_program:
  assumes "\<forall>t<3. m t = (True, True, True) \<and> recent_distinct (p t) 1000"
  shows "\<exists>rs a b c. lru_test_main m p rnd = Some (Inr (
      Some ([Status 0, Status 0, Status 0, Found (Some ''one''), Status 0, Found None, Found (Some ''four'')], (2, 1, 1), a),
      Some (rs, (10000, 0, 0), b), Some (None, (0, 1000, 990), c))) \<and>
    dom (heap a) = p 0 ` {0, 2} \<and> dom (heap c) = p 2 ` {990..<999}"
proof -
  have m: "m 0 = all_ok" "m 1 = all_ok" "m 2 = all_ok" and p: "recent_distinct (p 0) 1000" "recent_distinct (p 1) 1000" "recent_distinct (p 2) 1000"
    using assms by (simp_all add: all_ok_def)
  have "distinct (map (p 0) [0, 1, 2, 3])" "0 \<notin> set (map (p 0) [0, 1, 2, 3])"
    using scan_pointer [OF p(1)] by simp_all
  then obtain a where a: "test_correctness all_ok (p 0) =
      Some (Inr (Some ([Status 0, Status 0, Status 0, Found (Some ''one''), Status 0, Found None, Found (Some ''four'')], (2, 1, 1), a)))"
    "dom (heap a) = p 0 ` {0, 2}"
    using correctness_test_passes by blast
  have "inj_on (p 1) {0..<10}"
  proof (rule linorder_inj_onI)
    show "p 1 i \<noteq> p 1 j" if "i < j" "i \<in> {0..<10}" "j \<in> {0..<10}" for i j using that scan_pointer(2) [OF p(2), of i j] by simp
  qed auto
  moreover have "\<forall>i<10. p 1 i \<noteq> 0" using scan_pointer(1) [OF p(2)] by simp
  ultimately obtain rs b where "test_hot_set all_ok (p 1) rnd = Some (Inr (Some (rs, (10000, 0, 0), b)))"
    using hot_set_all_hits by blast
  with a scan_never_hits [OF p(3)] show ?thesis unfolding lru_test_main_def m by auto
qed

theorem lru_test_program_witness:
  "\<exists>rs a b c. lru_test_main (\<lambda>_. (True, True, True)) (\<lambda>t i. 100 * t + i mod 11 + 1) (\<lambda>i. (7 * i, i)) = Some (Inr (
      Some ([Status 0, Status 0, Status 0, Found (Some ''one''), Status 0, Found None, Found (Some ''four'')], (2, 1, 1), a),
      Some (rs, (10000, 0, 0), b), Some (None, (0, 1000, 990), c))) \<and>
    dom (heap a) = (\<lambda>i. 100 * 0 + i mod 11 + 1) ` {0, 2} \<and> dom (heap c) = (\<lambda>i. 100 * 2 + i mod 11 + 1) ` {990..<999}"
  by (rule lru_test_program) (simp add: recent_distinct_def window_mod)

text \<open>
  C40: The concurrent test can access a freed node, and not because of a race: every call holds the
  mutex, and the schedule that leads there is a plain sequence of calls, 43 of the first thread and
  three of the second one, after which the second thread moves a node to the front that the list
  has lost, and whose predecessor has been evicted.
\<close>

theorem concurrent_test_crashes:
  "\<exists>schedule. test_concurrent all_ok Suc schedule = Some (Inl Use_After_Free)"
proof -
  obtain rest where calls: "interleave (replicate 5 0 @ replicate 1 1 @ replicate 38 0 @ replicate 2 1) (map (concurrent_worker Suc) [0, 1]) =
     (worker_pair Suc 0 0 @ worker_pair Suc 0 1 @ take 1 (worker_pair Suc 0 2) @ take 1 (worker_pair Suc 1 0) @ drop 1 (worker_pair Suc 0 2)) @
     concat (map (worker_pair Suc 0) [3..<20]) @
     (worker_pair Suc 0 20 @ take 1 (worker_pair Suc 0 21) @ drop 1 (worker_pair Suc 1 0) @ take 1 (worker_pair Suc 1 1)) @ rest"
    by (rule concurrent_prefix)
  obtain rs where "run_ops lru_do (damaged 3) (concat (map (worker_pair Suc 0) [3..<20])) = Some (Inr (rs, damaged 20))"
    using damaged_run [of 20] by auto
  then have "run_ops lru_do (empty_cache 20) (interleave (replicate 5 0 @ replicate 1 1 @ replicate 38 0 @ replicate 2 1)
      (map (concurrent_worker Suc) [0, 1])) = Some (Inl Use_After_Free)"
    unfolding calls by (rule run_ops_then [OF damaged_start run_ops_then [OF _ run_ops_stop [OF damaged_crash]]])
  then show ?thesis unfolding test_concurrent_def by (intro exI cache_test_stops)
qed

end
