(* ===== verification/Shared_Buffer.thy ===== *)
theory Shared_Buffer
  imports Prelude
begin

text \<open>
  The ring buffer in shared memory of \<open>08_advanced/shared_memory_ipc\<close>: \<open>shared_buffer.c\<close> and the
  loops of \<open>producer.c\<close> and \<open>consumer.c\<close> that use it.

  The memory of the buffer is a function from offsets to characters, accessed within its size.
  Semaphores are their counters. \<open>buffer_write\<close> and \<open>buffer_read\<close> are given twice: as functions that
  say what one call does when nobody interferes (\<open>None\<close> when it would block), and as sequences of
  atomic steps of a producer process and any number of consumer processes, between which the
  steps of the others may come. Copying a message and advancing a position are separate steps.

  The model takes the semaphore pointers in shared memory to be valid in all processes; what
  \<open>buffer_open\<close> stores there is modelled separately.
\<close>

section \<open>The code\<close>

definition SHARED_BUF_SIZE :: nat where
  "SHARED_BUF_SIZE = 1024 * 1024"

definition MSG_SIZE :: nat where
  "MSG_SIZE = 256"

definition MAX_MESSAGES :: nat where
  "MAX_MESSAGES = SHARED_BUF_SIZE div MSG_SIZE"

definition NUL :: char where
  "NUL = CHR 0x00"

record shared_buffer =
  data :: "nat \<Rightarrow> char"
  write_pos :: nat
  sem_full :: nat
  sem_empty :: nat
  sem_mutex :: nat

text \<open>What \<open>buffer_open (1)\<close> sets up: zeroed memory and the initial values of the semaphores.\<close>

definition fresh_buffer :: shared_buffer where
  "fresh_buffer = \<lparr>data = (\<lambda>_. NUL), write_pos = 0, sem_full = 0, sem_empty = MAX_MESSAGES, sem_mutex = 1\<rparr>"

subsection \<open>Copying messages\<close>

text \<open>
  \<open>memcpy (&buf->data[offset], msg, len); buf->data[offset + len] = 0\<close>, where \<open>msg\<close> is the memory
  behind the argument. A negative length becomes a huge \<open>size_t\<close>.
\<close>

definition copy_in :: "(nat \<Rightarrow> char) \<Rightarrow> nat \<Rightarrow> string \<Rightarrow> int \<Rightarrow> (nat \<Rightarrow> char) c_result" where
  "copy_in d offset msg len =
     (if len < 0 \<or> length msg < nat len \<or> SHARED_BUF_SIZE \<le> offset + nat len then Inl Out_Of_Bounds
      else Inr (\<lambda>i. if offset \<le> i \<and> i < offset + nat len then msg ! (i - offset)
                    else if i = offset + nat len then NUL else d i))"

text \<open>\<open>strlen\<close> on the memory of the buffer.\<close>

function c_strlen :: "(nat \<Rightarrow> char) \<Rightarrow> nat \<Rightarrow> nat c_result" where
  "c_strlen d i =
     (if SHARED_BUF_SIZE \<le> i then Inl Out_Of_Bounds
      else if d i = NUL then Inr 0
      else bind_r (c_strlen d (i + 1)) (\<lambda>n. Inr (n + 1)))"
  by auto
termination by (relation "measure (\<lambda>(d, i). SHARED_BUF_SIZE - i)") auto

text \<open>
  The lines of \<open>buffer_read\<close> that find the length, cut it to \<open>maxlen - 1\<close> and copy the message out;
  the result is the return value and the message.
\<close>

definition copy_out :: "(nat \<Rightarrow> char) \<Rightarrow> nat \<Rightarrow> int \<Rightarrow> (int \<times> string) c_result" where
  "copy_out d offset maxlen =
     bind_r (c_strlen d offset) (\<lambda>n.
       let len = (if int n > maxlen - 1 then maxlen - 1 else int n) in
       if len < 0 then Inl Out_Of_Bounds
       else Inr (len, map d [offset..<offset + nat len]))"

definition slot_offset :: "nat \<Rightarrow> nat" where
  "slot_offset pos = (pos mod MAX_MESSAGES) * MSG_SIZE"

definition next_pos :: "nat \<Rightarrow> nat" where
  "next_pos pos = (pos + 1) mod 2 ^ 64"

subsection \<open>A call that is not interrupted\<close>

definition buffer_write ::
  "shared_buffer \<Rightarrow> string \<Rightarrow> int \<Rightarrow> (int \<times> shared_buffer) c_result option" where
  "buffer_write buf msg len =
     (if len > int MSG_SIZE - 1 then Some (Inr (- 1, buf))
      else if sem_empty buf = 0 then None
      else let buf = buf\<lparr>sem_empty := sem_empty buf - 1\<rparr> in
        if sem_mutex buf = 0 then None
        else let buf = buf\<lparr>sem_mutex := sem_mutex buf - 1\<rparr> in
          Some (bind_r (copy_in (data buf) (slot_offset (write_pos buf)) msg len) (\<lambda>d.
            Inr (len, buf\<lparr>data := d, write_pos := next_pos (write_pos buf),
                         sem_mutex := sem_mutex buf + 1, sem_full := sem_full buf + 1\<rparr>))))"

text \<open>The result is the return value, the message, the new read position and the buffer.\<close>

definition buffer_read ::
  "shared_buffer \<Rightarrow> int \<Rightarrow> nat \<Rightarrow> (int \<times> string \<times> nat \<times> shared_buffer) c_result option" where
  "buffer_read buf maxlen my_read_pos =
     (if write_pos buf \<le> my_read_pos \<and> sem_full buf = 0 then None
      else let buf = (if write_pos buf \<le> my_read_pos then buf\<lparr>sem_full := sem_full buf - 1\<rparr> else buf) in
        Some (bind_r (copy_out (data buf) (slot_offset my_read_pos) maxlen) (\<lambda>(len, msg).
          Inr (len, msg, next_pos my_read_pos, buf\<lparr>sem_empty := sem_empty buf + 1\<rparr>))))"

subsection \<open>Processes\<close>

text \<open>Where the producer is in \<open>buffer_write\<close>, and a consumer in \<open>buffer_read\<close>.\<close>

datatype wpc =
    W_Idle
  | W_Start string   \<comment> \<open>before \<open>sem_wait (sem_empty)\<close>\<close>
  | W_Slot string    \<comment> \<open>before \<open>sem_wait (sem_mutex)\<close>\<close>
  | W_Locked string  \<comment> \<open>before the copy\<close>
  | W_Copied string  \<comment> \<open>before \<open>write_pos++\<close>\<close>
  | W_Advanced       \<comment> \<open>before \<open>sem_post (sem_mutex)\<close>\<close>
  | W_Released       \<comment> \<open>before \<open>sem_post (sem_full)\<close>\<close>

datatype rpc =
    R_Idle
  | R_Wait           \<comment> \<open>in \<open>sem_wait (sem_full)\<close>\<close>
  | R_Ready          \<comment> \<open>before the copy\<close>
  | R_Copied string  \<comment> \<open>before \<open>(*my_read_pos)++\<close>\<close>
  | R_Post           \<comment> \<open>before \<open>sem_post (sem_empty)\<close>\<close>

text \<open>
  The state of the processes, with the messages written and the messages each consumer got as
  history variables.
\<close>

record ipc =
  buf :: shared_buffer
  wpc_of :: wpc
  rpc_of :: "nat \<Rightarrow> rpc"
  rpos :: "nat \<Rightarrow> nat"
  sent :: "string list"
  received :: "nat \<Rightarrow> string list"

definition ipc_init :: "ipc \<Rightarrow> bool" where
  "ipc_init s \<longleftrightarrow> s = \<lparr>buf = fresh_buffer, wpc_of = W_Idle, rpc_of = (\<lambda>_. R_Idle), rpos = (\<lambda>_. 0),
     sent = [], received = (\<lambda>_. [])\<rparr>"

text \<open>
  The steps for the consumers \<open>0 .. n - 1\<close>. With \<open>guarded\<close> a consumer calls \<open>buffer_read\<close> only
  after it has seen \<open>my_read_pos < write_pos\<close>, as the loop of \<open>consumer.c\<close> does; without it, it
  calls at any time. The producer passes \<open>strlen (msg)\<close> as the length, as in \<open>producer.c\<close>, and the
  consumers pass \<open>MSG_SIZE\<close>. \<open>sem_wait\<close> may fail when a signal arrives.
\<close>

inductive ipc_step :: "nat \<Rightarrow> bool \<Rightarrow> ipc \<Rightarrow> ipc \<Rightarrow> bool" for n :: nat and guarded :: bool where
  w_call: "wpc_of s = W_Idle \<Longrightarrow> length msg < MSG_SIZE \<Longrightarrow> NUL \<notin> set msg \<Longrightarrow>
    ipc_step n guarded s (s\<lparr>wpc_of := W_Start msg\<rparr>)"
| w_empty: "wpc_of s = W_Start msg \<Longrightarrow> 0 < sem_empty (buf s) \<Longrightarrow>
    ipc_step n guarded s (s\<lparr>buf := (buf s)\<lparr>sem_empty := sem_empty (buf s) - 1\<rparr>, wpc_of := W_Slot msg\<rparr>)"
| w_empty_fails: "wpc_of s = W_Start msg \<Longrightarrow>
    ipc_step n guarded s (s\<lparr>wpc_of := W_Idle\<rparr>)"
| w_mutex: "wpc_of s = W_Slot msg \<Longrightarrow> 0 < sem_mutex (buf s) \<Longrightarrow>
    ipc_step n guarded s (s\<lparr>buf := (buf s)\<lparr>sem_mutex := sem_mutex (buf s) - 1\<rparr>, wpc_of := W_Locked msg\<rparr>)"
| w_mutex_fails: "wpc_of s = W_Slot msg \<Longrightarrow>
    ipc_step n guarded s (s\<lparr>buf := (buf s)\<lparr>sem_empty := sem_empty (buf s) + 1\<rparr>, wpc_of := W_Idle\<rparr>)"
| w_copy: "wpc_of s = W_Locked msg \<Longrightarrow>
    copy_in (data (buf s)) (slot_offset (write_pos (buf s))) msg (int (length msg)) = Inr d \<Longrightarrow>
    ipc_step n guarded s (s\<lparr>buf := (buf s)\<lparr>data := d\<rparr>, wpc_of := W_Copied msg\<rparr>)"
| w_advance: "wpc_of s = W_Copied msg \<Longrightarrow>
    ipc_step n guarded s (s\<lparr>buf := (buf s)\<lparr>write_pos := next_pos (write_pos (buf s))\<rparr>,
      wpc_of := W_Advanced, sent := sent s @ [msg]\<rparr>)"
| w_unlock: "wpc_of s = W_Advanced \<Longrightarrow>
    ipc_step n guarded s (s\<lparr>buf := (buf s)\<lparr>sem_mutex := sem_mutex (buf s) + 1\<rparr>, wpc_of := W_Released\<rparr>)"
| w_full: "wpc_of s = W_Released \<Longrightarrow>
    ipc_step n guarded s (s\<lparr>buf := (buf s)\<lparr>sem_full := sem_full (buf s) + 1\<rparr>, wpc_of := W_Idle\<rparr>)"
| r_call: "k < n \<Longrightarrow> rpc_of s k = R_Idle \<Longrightarrow> guarded \<longrightarrow> rpos s k < write_pos (buf s) \<Longrightarrow>
    ipc_step n guarded s (s\<lparr>rpc_of := (rpc_of s)(k := if write_pos (buf s) \<le> rpos s k then R_Wait else R_Ready)\<rparr>)"
| r_full: "k < n \<Longrightarrow> rpc_of s k = R_Wait \<Longrightarrow> 0 < sem_full (buf s) \<Longrightarrow>
    ipc_step n guarded s (s\<lparr>buf := (buf s)\<lparr>sem_full := sem_full (buf s) - 1\<rparr>,
      rpc_of := (rpc_of s)(k := R_Ready)\<rparr>)"
| r_full_fails: "k < n \<Longrightarrow> rpc_of s k = R_Wait \<Longrightarrow>
    ipc_step n guarded s (s\<lparr>rpc_of := (rpc_of s)(k := R_Idle)\<rparr>)"
| r_copy: "k < n \<Longrightarrow> rpc_of s k = R_Ready \<Longrightarrow>
    copy_out (data (buf s)) (slot_offset (rpos s k)) (int MSG_SIZE) = Inr (len, msg) \<Longrightarrow>
    ipc_step n guarded s (s\<lparr>rpc_of := (rpc_of s)(k := R_Copied msg)\<rparr>)"
| r_advance: "k < n \<Longrightarrow> rpc_of s k = R_Copied msg \<Longrightarrow>
    ipc_step n guarded s (s\<lparr>rpos := (rpos s)(k := next_pos (rpos s k)), rpc_of := (rpc_of s)(k := R_Post),
      received := (received s)(k := received s k @ [msg])\<rparr>)"
| r_post: "k < n \<Longrightarrow> rpc_of s k = R_Post \<Longrightarrow>
    ipc_step n guarded s (s\<lparr>buf := (buf s)\<lparr>sem_empty := sem_empty (buf s) + 1\<rparr>,
      rpc_of := (rpc_of s)(k := R_Idle)\<rparr>)"

inductive_cases ipc_step_cases: "ipc_step n guarded s t"

section \<open>Slots\<close>

lemma sizes [simp]: "MAX_MESSAGES = 4096" "MSG_SIZE = 256" "SHARED_BUF_SIZE = 1048576"
  by (simp_all add: MAX_MESSAGES_def MSG_SIZE_def SHARED_BUF_SIZE_def)

declare c_strlen.simps [simp del]

text \<open>A message that \<open>buffer_write\<close> accepts and that \<open>strlen\<close> reads back as a whole.\<close>

definition message :: "string \<Rightarrow> bool" where
  "message msg \<longleftrightarrow> length msg < MSG_SIZE \<and> NUL \<notin> set msg"

definition slot_holds :: "(nat \<Rightarrow> char) \<Rightarrow> nat \<Rightarrow> string \<Rightarrow> bool" where
  "slot_holds d pos msg \<longleftrightarrow>
     (\<forall>i<length msg. d (slot_offset pos + i) = msg ! i) \<and> d (slot_offset pos + length msg) = NUL"

definition put_slot :: "(nat \<Rightarrow> char) \<Rightarrow> nat \<Rightarrow> string \<Rightarrow> nat \<Rightarrow> char" where
  "put_slot d pos msg = (\<lambda>i. if slot_offset pos \<le> i \<and> i < slot_offset pos + length msg
     then msg ! (i - slot_offset pos) else if i = slot_offset pos + length msg then NUL else d i)"

lemma slot_bound: "slot_offset pos + 256 \<le> 1048576"
proof -
  have "pos mod 4096 < 4096" by simp
  then show ?thesis by (simp add: slot_offset_def)
qed

lemma copy_in_slot:
  "length msg < 256 \<Longrightarrow> copy_in d (slot_offset pos) msg (int (length msg)) = Inr (put_slot d pos msg)"
  unfolding copy_in_def put_slot_def nat_int using slot_bound [of pos] by simp

lemma put_slot_holds: "slot_holds (put_slot d pos msg) pos msg"
  by (simp add: slot_holds_def put_slot_def)

lemma slots_apart:
  assumes "p mod 4096 \<noteq> q mod 4096" "i < 256" "j < 256"
  shows "slot_offset p + i \<noteq> slot_offset q + j"
proof
  assume "slot_offset p + i = slot_offset q + j"
  then have "(p mod 4096 * 256 + i) div 256 = (q mod 4096 * 256 + j) div 256" by (simp add: slot_offset_def)
  with assms show False by simp
qed

lemma put_slot_other:
  assumes "slot_holds d p old" "p mod 4096 \<noteq> q mod 4096" "length msg < 256" "length old < 256"
  shows "slot_holds (put_slot d q msg) p old"
proof -
  have "put_slot d q msg (slot_offset p + i) = d (slot_offset p + i)" if "i < 256" for i
  proof -
    have "\<not> (slot_offset q \<le> slot_offset p + i \<and> slot_offset p + i \<le> slot_offset q + length msg)"
      using slots_apart [OF assms(2) that, of "slot_offset p + i - slot_offset q"] assms(3) by linarith
    then show ?thesis by (auto simp: put_slot_def)
  qed
  then show ?thesis using assms(1,4) by (auto simp: slot_holds_def)
qed

lemma c_strlen_slot:
  assumes "slot_holds d pos msg" "message msg" "i \<le> length msg"
  shows "c_strlen d (slot_offset pos + i) = Inr (length msg - i)"
  using assms(3)
proof (induction "length msg - i" arbitrary: i)
  case 0
  then have "d (slot_offset pos + i) = NUL" using assms(1) by (simp add: slot_holds_def)
  with 0 assms(2) slot_bound [of pos] show ?case by (simp add: c_strlen.simps message_def)
next
  case (Suc k)
  then have i: "i < length msg" "d (slot_offset pos + i) = msg ! i"
    using assms(1) by (simp_all add: slot_holds_def)
  moreover have "msg ! i \<in> set msg" using i(1) by simp
  ultimately have "d (slot_offset pos + i) \<noteq> NUL" using assms(2) unfolding message_def by metis
  moreover have "c_strlen d (slot_offset pos + Suc i) = Inr (length msg - Suc i)"
    using Suc.hyps(1) [of "Suc i"] Suc.hyps(2) i(1) by simp
  ultimately show ?case
    using i(1) assms(2) slot_bound [of pos] by (subst c_strlen.simps) (simp add: message_def)
qed

lemma copy_out_slot:
  assumes "slot_holds d pos msg" "message msg"
  shows "copy_out d (slot_offset pos) 256 = Inr (int (length msg), msg)"
proof -
  have "map d [slot_offset pos..<slot_offset pos + length msg] = msg"
    using assms(1) by (intro nth_equalityI) (simp_all add: slot_holds_def)
  with c_strlen_slot [OF assms, of 0] assms(2) show ?thesis
    by (simp add: copy_out_def message_def)
qed

lemma in_window:
  assumes "i < (w::nat)" "w < i + 4096"
  shows "i mod 4096 \<noteq> w mod 4096"
proof
  assume "i mod 4096 = w mod 4096"
  then have "4096 dvd w - i" using assms(1) by (metis mod_eq_dvd_iff_nat less_imp_le)
  with assms show False by (auto dest: dvd_imp_le)
qed

section \<open>One producer and one consumer\<close>

fun w_token :: "wpc \<Rightarrow> nat" where
  "w_token (W_Slot m) = 1"
| "w_token (W_Locked m) = 1"
| "w_token (W_Copied m) = 1"
| "w_token _ = 0"

fun w_holds :: "wpc \<Rightarrow> bool" where
  "w_holds (W_Locked m) = True"
| "w_holds (W_Copied m) = True"
| "w_holds W_Advanced = True"
| "w_holds _ = False"

fun w_msg :: "wpc \<Rightarrow> string" where
  "w_msg (W_Start m) = m"
| "w_msg (W_Slot m) = m"
| "w_msg (W_Locked m) = m"
| "w_msg (W_Copied m) = m"
| "w_msg _ = []"

definition r_token :: "rpc \<Rightarrow> nat" where
  "r_token p = (if p = R_Post then 1 else 0)"

definition reading :: "rpc \<Rightarrow> bool" where
  "reading p \<longleftrightarrow> p = R_Ready \<or> (\<exists>m. p = R_Copied m)"

text \<open>The positions and the semaphores.\<close>

definition counts_ok :: "ipc \<Rightarrow> bool" where
  "counts_ok s \<longleftrightarrow>
     write_pos (buf s) = length (sent s) \<and> rpos s 0 = length (received s 0) \<and>
     length (received s 0) \<le> length (sent s) \<and>
     (reading (rpc_of s 0) \<longrightarrow> length (received s 0) < length (sent s)) \<and>
     rpc_of s 0 \<noteq> R_Wait \<and>
     sem_empty (buf s) + (length (sent s) - length (received s 0)) + w_token (wpc_of s) +
       r_token (rpc_of s 0) = 4096 \<and>
     sem_mutex (buf s) = (if w_holds (wpc_of s) then 0 else 1)"

text \<open>The messages: what is written and not yet read is in its slot.\<close>

definition data_ok :: "ipc \<Rightarrow> bool" where
  "data_ok s \<longleftrightarrow>
     (\<forall>m\<in>set (sent s). message m) \<and> message (w_msg (wpc_of s)) \<and>
     (\<forall>i. length (received s 0) \<le> i \<and> i < length (sent s) \<longrightarrow> slot_holds (data (buf s)) i (sent s ! i)) \<and>
     (\<forall>m. wpc_of s = W_Copied m \<longrightarrow> slot_holds (data (buf s)) (length (sent s)) m) \<and>
     (\<forall>m. rpc_of s 0 = R_Copied m \<longrightarrow> m = sent s ! length (received s 0)) \<and>
     received s 0 = take (length (received s 0)) (sent s)"

definition ipc_inv :: "ipc \<Rightarrow> bool" where
  "ipc_inv s \<longleftrightarrow> (length (sent s) < 2 ^ 64 \<longrightarrow> counts_ok s \<and> data_ok s)"

lemma next_pos_small [simp]: "k + 1 < 2 ^ 64 \<Longrightarrow> next_pos k = Suc k"
  by (simp add: next_pos_def)

lemma sent_grows: "ipc_step n g s t \<Longrightarrow> length (sent s) \<le> length (sent t)"
  by (cases rule: ipc_step.cases) auto

lemma counts_step:
  assumes "ipc_step 1 True s t" "counts_ok s" "length (sent t) < 2 ^ 64"
  shows "counts_ok t"
  using assms by cases (auto simp: counts_ok_def reading_def r_token_def)

lemma empty_message [simp]: "message []"
  by (simp add: message_def)

lemma data_step:
  assumes "ipc_step 1 True s t" "counts_ok s" "data_ok s" "length (sent t) < 2 ^ 64"
  shows "data_ok t"
  using assms(1)
proof cases
  case (w_copy msg d)
  have m: "message msg" "length (sent s) < length (received s 0) + 4096"
    using assms(2,3) w_copy by (auto simp: data_ok_def counts_ok_def)
  have d: "d = put_slot (data (buf s)) (length (sent s)) msg"
    using w_copy assms(2) m(1) by (simp add: counts_ok_def message_def copy_in_slot)
  have "slot_holds d i (sent s ! i)" if "length (received s 0) \<le> i" "i < length (sent s)" for i
    unfolding d using assms(3) that m in_window [of i "length (sent s)"]
    by (intro put_slot_other) (auto simp: data_ok_def message_def)
  then show ?thesis
    using assms(3) w_copy m(1) put_slot_holds by (auto simp: data_ok_def d)
next
  case (w_advance msg)
  then show ?thesis
    using assms(2,3)
    by (auto simp: data_ok_def counts_ok_def reading_def nth_append less_Suc_eq take_append)
next
  case (r_copy k len msg)
  have "length (received s 0) < length (sent s)" "k = 0"
    using assms(2) r_copy by (auto simp: counts_ok_def reading_def)
  moreover from this have "slot_holds (data (buf s)) (rpos s 0) (sent s ! length (received s 0))"
    "message (sent s ! length (received s 0))"
    using assms(2,3) by (auto simp: data_ok_def counts_ok_def)
  from copy_out_slot [OF this] r_copy have "msg = sent s ! length (received s 0)" using \<open>k = 0\<close> by simp
  ultimately show ?thesis using assms(3) r_copy by (auto simp: data_ok_def)
next
  case (r_advance k msg)
  then have "length (received s 0) < length (sent s)" "k = 0"
    using assms(2) by (auto simp: counts_ok_def reading_def)
  then show ?thesis using assms(3) r_advance by (auto simp: data_ok_def take_Suc_conv_app_nth)
qed (use assms in \<open>auto simp: data_ok_def message_def\<close>)

interpretation ipc: invariant_of ipc_init "ipc_step 1 True" ipc_inv
proof
  show "ipc_inv s" if "ipc_init s" for s
    using that by (simp add: ipc_init_def ipc_inv_def counts_ok_def data_ok_def fresh_buffer_def
        reading_def r_token_def)
  show "ipc_inv t" if "ipc_step 1 True s t" "ipc_inv s" for s t
    using that sent_grows [OF that(1)] counts_step [OF that(1)] data_step [OF that(1)] by (auto simp: ipc_inv_def)
qed

section \<open>Whole calls as runs\<close>

lemma write_run:
  assumes r: "reachable ipc_init (ipc_step n g) s"
    and s: "wpc_of s = W_Idle" "0 < sem_empty (buf s)" "sem_mutex (buf s) = 1" "message m"
  shows "reachable ipc_init (ipc_step n g) (s\<lparr>buf := (buf s)\<lparr>data := put_slot (data (buf s)) (write_pos (buf s)) m,
      write_pos := next_pos (write_pos (buf s)), sem_full := sem_full (buf s) + 1,
      sem_empty := sem_empty (buf s) - 1\<rparr>, sent := sent s @ [m]\<rparr>)"
proof -
  let ?b = "(buf s)\<lparr>sem_empty := sem_empty (buf s) - 1\<rparr>"
  let ?d = "put_slot (data (buf s)) (write_pos (buf s)) m"
  have m: "length m < 256" "NUL \<notin> set m" using s(4) by (simp_all add: message_def)
  have 1: "reachable ipc_init (ipc_step n g) (s\<lparr>wpc_of := W_Start m\<rparr>)"
    by (rule reach_via [OF r], rule w_call [where msg = m]) (use s m in simp_all)
  have 2: "reachable ipc_init (ipc_step n g) (s\<lparr>buf := ?b, wpc_of := W_Slot m\<rparr>)"
    by (rule reach_via [OF 1], rule w_empty [where msg = m]) (use s in simp_all)
  have 3: "reachable ipc_init (ipc_step n g) (s\<lparr>buf := ?b\<lparr>sem_mutex := 0\<rparr>, wpc_of := W_Locked m\<rparr>)"
    by (rule reach_via [OF 2], rule w_mutex [where msg = m]) (use s in simp_all)
  have 4: "reachable ipc_init (ipc_step n g) (s\<lparr>buf := ?b\<lparr>sem_mutex := 0, data := ?d\<rparr>, wpc_of := W_Copied m\<rparr>)"
    by (rule reach_via [OF 3], rule w_copy [where msg = m and d = ?d]) (use s m in \<open>simp_all add: copy_in_slot\<close>)
  have 5: "reachable ipc_init (ipc_step n g) (s\<lparr>buf := ?b\<lparr>sem_mutex := 0, data := ?d,
      write_pos := next_pos (write_pos (buf s))\<rparr>, wpc_of := W_Advanced, sent := sent s @ [m]\<rparr>)"
    by (rule reach_via [OF 4], rule w_advance [where msg = m]) simp_all
  have 6: "reachable ipc_init (ipc_step n g) (s\<lparr>buf := ?b\<lparr>sem_mutex := 1, data := ?d,
      write_pos := next_pos (write_pos (buf s))\<rparr>, wpc_of := W_Released, sent := sent s @ [m]\<rparr>)"
    by (rule reach_via [OF 5], rule w_unlock) simp_all
  show ?thesis
    by (rule reach_via [OF 6], rule w_full) (use s in simp_all)
qed

text \<open>From \<open>R_Ready\<close> on, the rest of \<open>buffer_read\<close> by consumer \<open>k\<close>.\<close>

lemma finish_read:
  assumes r: "reachable ipc_init (ipc_step n g) (s\<lparr>rpc_of := (rpc_of s)(k := R_Ready)\<rparr>)"
    and k: "k < n" "rpc_of s k = R_Idle" "slot_holds (data (buf s)) (rpos s k) m" "message m"
  shows "reachable ipc_init (ipc_step n g) (s\<lparr>buf := (buf s)\<lparr>sem_empty := sem_empty (buf s) + 1\<rparr>,
      rpos := (rpos s)(k := next_pos (rpos s k)), received := (received s)(k := received s k @ [m])\<rparr>)"
proof -
  have 1: "reachable ipc_init (ipc_step n g) (s\<lparr>rpc_of := (rpc_of s)(k := R_Copied m)\<rparr>)"
    by (rule reach_via [OF r], rule r_copy [where k = k and msg = m and len = "int (length m)"])
       (use k copy_out_slot [OF k(3,4)] in simp_all)
  have 2: "reachable ipc_init (ipc_step n g) (s\<lparr>rpc_of := (rpc_of s)(k := R_Post),
      rpos := (rpos s)(k := next_pos (rpos s k)), received := (received s)(k := received s k @ [m])\<rparr>)"
    by (rule reach_via [OF 1], rule r_advance [where k = k and msg = m]) (use k in simp_all)
  have "(rpc_of s)(k := R_Idle) = rpc_of s" using k(2) by (simp add: fun_upd_idem)
  then show ?thesis
    by (intro reach_via [OF 2 r_post [where k = k]]) (use k in simp_all)
qed

lemma read_run:
  assumes r: "reachable ipc_init (ipc_step n g) s"
    and k: "k < n" "rpc_of s k = R_Idle" "rpos s k < write_pos (buf s)"
      "slot_holds (data (buf s)) (rpos s k) m" "message m"
  shows "reachable ipc_init (ipc_step n g) (s\<lparr>buf := (buf s)\<lparr>sem_empty := sem_empty (buf s) + 1\<rparr>,
      rpos := (rpos s)(k := next_pos (rpos s k)), received := (received s)(k := received s k @ [m])\<rparr>)"
proof (rule finish_read [OF _ k(1,2,4,5)])
  show "reachable ipc_init (ipc_step n g) (s\<lparr>rpc_of := (rpc_of s)(k := R_Ready)\<rparr>)"
    by (rule reach_via [OF r], rule r_call [where k = k]) (use k in simp_all)
qed

definition start_state :: ipc where
  "start_state = \<lparr>buf = fresh_buffer, wpc_of = W_Idle, rpc_of = (\<lambda>_. R_Idle), rpos = (\<lambda>_. 0),
     sent = [], received = (\<lambda>_. [])\<rparr>"

lemma start_reachable: "reachable ipc_init (ipc_step n g) start_state"
  by (rule reach_init) (simp add: ipc_init_def start_state_def)

text \<open>One message written and read by consumer 0.\<close>

definition one_round :: ipc where
  "one_round = \<lparr>buf = \<lparr>data = put_slot (\<lambda>_. NUL) 0 ''a'', write_pos = 1, sem_full = 1, sem_empty = 4096, sem_mutex = 1\<rparr>,
     wpc_of = W_Idle, rpc_of = (\<lambda>_. R_Idle), rpos = (\<lambda>_. 0)(0 := 1), sent = [''a''], received = (\<lambda>_. [])(0 := [''a''])\<rparr>"

lemma message_ab [simp]: "message ''a''" "message ''b''"
  by (simp_all add: message_def NUL_def)

lemma one_round_reachable: "0 < n \<Longrightarrow> reachable ipc_init (ipc_step n g) one_round"
proof -
  assume n: "0 < n"
  have w: "reachable ipc_init (ipc_step n g) (start_state\<lparr>buf := fresh_buffer\<lparr>data := put_slot (\<lambda>_. NUL) 0 ''a'',
      write_pos := 1, sem_full := 1, sem_empty := 4095\<rparr>, sent := [''a'']\<rparr>)"
    using write_run [OF start_reachable, of "''a''" n g] by (simp add: start_state_def fresh_buffer_def)
  from read_run [OF w n, of "''a''"] put_slot_holds [of "\<lambda>_. NUL" 0 "''a''"] show ?thesis
    by (simp add: one_round_def start_state_def fresh_buffer_def)
qed

text \<open>Any number of messages written and read by consumer 0 while consumer 1 does nothing.\<close>

lemma many_rounds:
  "k < 2 ^ 63 \<Longrightarrow> \<exists>s. reachable ipc_init (ipc_step 2 True) s \<and> wpc_of s = W_Idle \<and> rpc_of s = (\<lambda>_. R_Idle) \<and>
     write_pos (buf s) = Suc k \<and> rpos s 0 = Suc k \<and> rpos s 1 = 0 \<and> received s 1 = [] \<and>
     sem_empty (buf s) = 4096 \<and> sem_mutex (buf s) = 1 \<and> sent s = ''a'' # replicate k ''b'' \<and>
     (0 < k \<longrightarrow> slot_holds (data (buf s)) k ''b'')"
proof (induction k)
  case 0
  show ?case
    by (rule exI [of _ one_round]) (simp add: one_round_reachable, simp add: one_round_def)
next
  case (Suc k)
  then obtain s where s: "reachable ipc_init (ipc_step 2 True) s" "wpc_of s = W_Idle" "rpc_of s = (\<lambda>_. R_Idle)"
    "write_pos (buf s) = Suc k" "rpos s 0 = Suc k" "rpos s 1 = 0" "received s 1 = []"
    "sem_empty (buf s) = 4096" "sem_mutex (buf s) = 1" "sent s = ''a'' # replicate k ''b''"
    by auto
  let ?d = "put_slot (data (buf s)) (Suc k) ''b''"
  let ?t = "s\<lparr>buf := (buf s)\<lparr>data := ?d, write_pos := Suc (Suc k), sem_full := sem_full (buf s) + 1,
      sem_empty := 4095\<rparr>, sent := sent s @ [''b'']\<rparr>"
  have n: "next_pos (Suc k) = Suc (Suc k)" using Suc.prems by (simp add: next_pos_def)
  have t: "reachable ipc_init (ipc_step 2 True) ?t"
    using write_run [OF s(1,2) _ s(9), of "''b''"] s(4,8) n by simp
  have h: "slot_holds ?d (Suc k) ''b''" by (rule put_slot_holds)
  let ?u = "?t\<lparr>buf := (buf ?t)\<lparr>sem_empty := 4096\<rparr>, rpos := (rpos s)(0 := Suc (Suc k)),
      received := (received s)(0 := received s 0 @ [''b''])\<rparr>"
  have "reachable ipc_init (ipc_step 2 True) ?u"
    using read_run [OF t, of 0 "''b''"] s(3,5) h n by simp
  then show ?case
    using s h by (intro exI [of _ ?u]) (simp add: replicate_append_same)
qed

section \<open>Opening and closing\<close>

text \<open>
  The resources \<open>buffer_open\<close> deals with: the shared memory object and its descriptor, the
  mapping, and for each of the three semaphores the named object and the handle of the process.
  \<open>sem_open\<close> with \<open>O_CREAT\<close> makes both.
\<close>

datatype ipc_resource = Shm_Object | Shm_Fd | Mapping | Sem_Object nat | Sem_Handle nat

text \<open>Which of the system calls succeed.\<close>

record open_calls =
  shm_ok :: bool
  trunc_ok :: bool
  map_ok :: bool
  full_ok :: bool
  empty_ok :: bool
  mutex_ok :: bool

definition new_sem :: "nat \<Rightarrow> ipc_resource resource_event list" where
  "new_sem i = [Acquire (Sem_Object i), Acquire (Sem_Handle i)]"

definition open_producer :: "open_calls \<Rightarrow> bool \<times> ipc_resource resource_event list" where
  "open_producer x =
     (if \<not> shm_ok x then (False, [])
      else let shm = [Acquire Shm_Object, Acquire Shm_Fd] in
        if \<not> trunc_ok x then (False, shm @ [Release Shm_Object])
        else if \<not> map_ok x then (False, shm @ [Release Shm_Object])
        else let mapped = shm @ [Acquire Mapping] in
          if \<not> full_ok x then (False, mapped @ [Release Mapping, Release Shm_Object])
          else if \<not> empty_ok x
          then (False, mapped @ new_sem 0 @ [Release (Sem_Object 0), Release Mapping, Release Shm_Object])
          else if \<not> mutex_ok x
          then (False, mapped @ new_sem 0 @ new_sem 1 @
                 [Release (Sem_Object 0), Release (Sem_Object 1), Release Mapping, Release Shm_Object])
          else (True, mapped @ new_sem 0 @ new_sem 1 @ new_sem 2))"

definition open_sem :: "bool \<Rightarrow> nat \<Rightarrow> ipc_resource resource_event list" where
  "open_sem b i = (if b then [Acquire (Sem_Handle i)] else [])"

definition open_consumer :: "open_calls \<Rightarrow> bool \<times> ipc_resource resource_event list" where
  "open_consumer x =
     (if \<not> shm_ok x then (False, [])
      else if \<not> map_ok x then (False, [Acquire Shm_Fd])
      else let opened = [Acquire Shm_Fd, Acquire Mapping] @
               open_sem (full_ok x) 0 @ open_sem (empty_ok x) 1 @ open_sem (mutex_ok x) 2 in
        if \<not> full_ok x \<or> \<not> empty_ok x \<or> \<not> mutex_ok x then (False, opened @ [Release Mapping])
        else (True, opened))"

definition buffer_open :: "bool \<Rightarrow> open_calls \<Rightarrow> bool \<times> ipc_resource resource_event list" where
  "buffer_open create x = (if create then open_producer x else open_consumer x)"

text \<open>After a successful \<open>buffer_open\<close>, the descriptor is not negative.\<close>

definition buffer_close :: "ipc_resource resource_event list" where
  "buffer_close = [Release Mapping, Release Shm_Fd]"

definition buffer_unlink :: "ipc_resource resource_event list" where
  "buffer_unlink = [Release Shm_Object, Release (Sem_Object 0), Release (Sem_Object 1), Release (Sem_Object 2)]"

lemmas open_defs = buffer_open_def open_producer_def open_consumer_def new_sem_def open_sem_def
  buffer_close_def buffer_unlink_def Let_def

section \<open>The main programs\<close>

text \<open>The text of the message with number \<open>i\<close>, \<open>"msg_%ld"\<close>; the numbers are not negative.\<close>

definition producer_msg :: "nat \<Rightarrow> string" where
  "producer_msg i = ''msg_'' @ decimal i"

text \<open>The attempts of a consumer to open the buffer; \<open>ok i\<close> says whether attempt \<open>i\<close> succeeds.\<close>

fun connect :: "(nat \<Rightarrow> bool) \<Rightarrow> nat \<Rightarrow> nat \<Rightarrow> bool" where
  "connect ok i retries =
     (if retries = 0 then False
      else if ok i then True
      else if retries > 1 then connect ok (i + 1) (retries - 1)
      else False)"

declare connect.simps [simp del]

text \<open>
  The read loop of a consumer. Each iteration sees \<open>running\<close>, the value of \<open>write_pos\<close>, and what
  \<open>buffer_read\<close> returns if it is called; the loop ends when it is told to stop or after 100
  iterations in a row without a new message.
\<close>

record consumer =
  idle_count :: int
  my_read_pos :: nat
  messages_read :: int

definition consumer_iteration :: "consumer \<Rightarrow> nat \<Rightarrow> int \<Rightarrow> consumer" where
  "consumer_iteration c wpos len =
     (if wpos \<le> my_read_pos c then c\<lparr>idle_count := idle_count c + 1\<rparr>
      else c\<lparr>idle_count := 0, my_read_pos := (if len < 0 then my_read_pos c else next_pos (my_read_pos c)),
             messages_read := (if len > 0 then messages_read c + 1 else messages_read c)\<rparr>)"

fun consumer_loop :: "consumer \<Rightarrow> (bool \<times> nat \<times> int) list \<Rightarrow> consumer \<times> (bool \<times> nat \<times> int) list" where
  "consumer_loop c [] = (c, [])"
| "consumer_loop c ((running, wpos, len) # xs) =
     (if running \<and> idle_count c < 100 then consumer_loop (consumer_iteration c wpos len) xs
      else (c, (running, wpos, len) # xs))"

section \<open>Properties\<close>



text \<open>
  C15: \<open>buffer_write\<close> and \<open>buffer_read\<close> are inverse: a message of at most 255 characters written to a
  buffer with an empty slot is what a reader at that position gets, unchanged, with its length as
  the return value of both calls.
\<close>

theorem write_read_roundtrip:
  assumes "length msg < MSG_SIZE" "NUL \<notin> set msg" "0 < sem_empty b" "sem_mutex b = 1" "write_pos b < 2 ^ 64 - 1"
  shows "\<exists>b1 b2. buffer_write b msg (int (length msg)) = Some (Inr (int (length msg), b1)) \<and>
           buffer_read b1 (int MSG_SIZE) (write_pos b) = Some (Inr (int (length msg), msg, write_pos b + 1, b2))"
proof -
  let ?b1 = "b\<lparr>sem_empty := sem_empty b - 1, data := put_slot (data b) (write_pos b) msg,
     write_pos := write_pos b + 1, sem_full := sem_full b + 1\<rparr>"
  have n: "next_pos (write_pos b) = write_pos b + 1" using assms(5) by (simp add: next_pos_def)
  have "buffer_write b msg (int (length msg)) = Some (Inr (int (length msg), ?b1))"
    using assms n copy_in_slot [of msg "data b" "write_pos b"] by (simp add: buffer_write_def Let_def)
  moreover have "copy_out (put_slot (data b) (write_pos b) msg) (slot_offset (write_pos b)) 256 =
      Inr (int (length msg), msg)"
    using assms(1,2) by (intro copy_out_slot put_slot_holds) (simp add: message_def)
  then have "buffer_read ?b1 (int MSG_SIZE) (write_pos b) = Some (Inr (int (length msg), msg, write_pos b + 1,
      ?b1\<lparr>sem_empty := sem_empty b\<rparr>))"
    using assms(3) n by (simp add: buffer_read_def)
  ultimately show ?thesis by blast
qed

theorem write_read_roundtrip_witness:
  "\<exists>b1 b2. buffer_write fresh_buffer ''ab'' 2 = Some (Inr (2, b1)) \<and>
     buffer_read b1 256 0 = Some (Inr (2, ''ab'', 1, b2))"
  using write_read_roundtrip [of "''ab''" fresh_buffer] by (simp add: fresh_buffer_def NUL_def)

text \<open>
  With two consumers, each of which frees a slot for every message it reads, a slot is taken as
  empty as soon as one of them has read it. A consumer that falls behind loses messages: there is
  a run in which the first message it gets is not the first message sent.
\<close>

theorem ipc_two_consumers_lose:
  "\<exists>s. reachable ipc_init (ipc_step 2 True) s \<and> received s 1 = [''b''] \<and> hd (sent s) = ''a'' \<and>
     received s 1 \<noteq> take (length (received s 1)) (sent s)"
proof -
  obtain s where s: "reachable ipc_init (ipc_step 2 True) s" "rpc_of s = (\<lambda>_. R_Idle)"
    "write_pos (buf s) = 4097" "rpos s 1 = 0" "received s 1 = []" "sent s = ''a'' # replicate 4096 ''b''"
    "slot_holds (data (buf s)) 4096 ''b''"
    using many_rounds [of 4096] by auto
  have h: "slot_holds (data (buf s)) 0 ''b''" using s(7) by (simp add: slot_holds_def slot_offset_def)
  let ?t = "s\<lparr>buf := (buf s)\<lparr>sem_empty := sem_empty (buf s) + 1\<rparr>, rpos := (rpos s)(1 := 1),
      received := (received s)(1 := [''b''])\<rparr>"
  have "reachable ipc_init (ipc_step 2 True) ?t"
    using read_run [OF s(1), of 1 "''b''"] s(2,3,4,5) h by simp
  then show ?thesis by (intro exI [of _ ?t]) (simp add: s(6))
qed

text \<open>
  \<open>buffer_read\<close> waits on \<open>sem_full\<close> only when the reader has caught up, and leaves the counter
  alone otherwise. A reader that relies on it to block, without the check of \<open>consumer.c\<close>, is let
  through by the count of a message it has already read: it gets a message that was never sent,
  and its position runs ahead of \<open>write_pos\<close>.
\<close>

theorem ipc_read_ahead:
  "\<exists>s. reachable ipc_init (ipc_step 1 False) s \<and> received s 0 = [''a'', []] \<and> sent s = [''a''] \<and>
     write_pos (buf s) < rpos s 0"
proof -
  let ?s1 = "one_round\<lparr>rpc_of := (rpc_of one_round)(0 := R_Wait)\<rparr>"
  let ?s2 = "one_round\<lparr>buf := (buf one_round)\<lparr>sem_full := 0\<rparr>\<rparr>"
  have 0: "reachable ipc_init (ipc_step 1 False) one_round" by (rule one_round_reachable) simp
  have 1: "reachable ipc_init (ipc_step 1 False) ?s1"
    by (rule reach_via [OF 0], rule r_call [where k = 0]) (simp_all add: one_round_def)
  have 2: "reachable ipc_init (ipc_step 1 False) (?s2\<lparr>rpc_of := (rpc_of ?s2)(0 := R_Ready)\<rparr>)"
    by (rule reach_via [OF 1], rule r_full [where k = 0]) (simp_all add: one_round_def)
  have h: "slot_holds (data (buf ?s2)) (rpos ?s2 0) []"
    by (simp add: slot_holds_def one_round_def put_slot_def slot_offset_def)
  let ?t = "?s2\<lparr>buf := (buf ?s2)\<lparr>sem_empty := 4097\<rparr>, rpos := (\<lambda>_. 0)(0 := next_pos (Suc 0)),
      received := (\<lambda>_. [])(0 := [''a'', []])\<rparr>"
  have "reachable ipc_init (ipc_step 1 False) ?t"
    using finish_read [OF 2 _ _ h] by (simp add: one_round_def)
  then show ?thesis by (intro exI [of _ ?t]) (simp add: one_round_def next_pos_def)
qed

text \<open>
  Closing and unlinking after a successful \<open>buffer_open (1)\<close> releases the descriptor, the
  mapping, the memory object and the semaphore names, but not the three semaphore handles; and
  every failure after \<open>shm_open\<close> has succeeded leaves its descriptor open, in both roles.
\<close>

theorem buffer_open_leaks:
  "(\<forall>x ev. buffer_open True x = (True, ev) \<longrightarrow>
      live (ev @ buffer_close @ buffer_unlink) [] = Some [Sem_Handle 2, Sem_Handle 1, Sem_Handle 0]) \<and>
   (\<forall>create x ev. buffer_open create x = (False, ev) \<and> shm_ok x \<longrightarrow>
      (\<exists>held. live ev [] = Some held \<and> Shm_Fd \<in> set held))"
  by (auto simp: open_defs split: if_splits)

theorem buffer_open_leaks_witness:
  "live (snd (buffer_open True \<lparr>shm_ok = True, trunc_ok = False, map_ok = True, full_ok = True, empty_ok = True,
      mutex_ok = True\<rparr>)) [] = Some [Shm_Fd] \<and>
   live (snd (buffer_open True \<lparr>shm_ok = True, trunc_ok = True, map_ok = True, full_ok = True, empty_ok = True,
      mutex_ok = True\<rparr>) @ buffer_close @ buffer_unlink) [] = Some [Sem_Handle 2, Sem_Handle 1, Sem_Handle 0]"
  using buffer_open_leaks by (auto simp: open_defs)

text \<open>
  What the producer sends is well formed: the text of every message fits into a slot and
  contains no terminator, so that \<open>buffer_write\<close> accepts it and a reader gets all of it, and
  different messages have different texts.
\<close>

theorem producer_messages:
  "(i < 2 ^ 63 \<longrightarrow> length (producer_msg i) < MSG_SIZE \<and> NUL \<notin> set (producer_msg i)) \<and>
   (producer_msg i = producer_msg j \<longrightarrow> i = j)"
proof -
  have "length (producer_msg i) < MSG_SIZE \<and> NUL \<notin> set (producer_msg i)" if "i < 2 ^ 63"
  proof -
    have "length (decimal i) \<le> 20" using that by (intro decimal_bound) simp_all
    moreover have "NUL \<noteq> digit k" for k
    proof
      assume "NUL = digit k"
      then have "of_char NUL = 48 + k mod 10" using digit_code by metis
      then show False by (simp add: NUL_def)
    qed
    then have "NUL \<notin> set (decimal i)" using decimal_digits by metis
    moreover have "NUL \<notin> set ''msg_''" by (simp add: NUL_def)
    ultimately show ?thesis by (simp add: producer_msg_def)
  qed
  moreover have "i = j" if "producer_msg i = producer_msg j"
  proof -
    have "decimal i = decimal j" using that by (simp add: producer_msg_def)
    then show ?thesis by (metis undecimal_decimal)
  qed
  ultimately show ?thesis by blast
qed

theorem producer_messages_witness:
  "producer_msg 42 = ''msg_42'' \<and> NUL \<notin> set (producer_msg 42)"
  using producer_messages [of 42 42]
  by (simp add: producer_msg_def decimal.simps [of 42] decimal.simps [of 4] digit_def char_of_def bit_Suc_0_iff)

lemma connect_iff: "connect ok i r \<longleftrightarrow> (\<exists>j<r. ok (i + j))"
proof (induction ok i r rule: connect.induct)
  case (1 ok i r)
  show ?case
  proof (cases "r = 0 \<or> ok i \<or> r = 1")
    case True
    then show ?thesis by (subst connect.simps) (use less_one in fastforce)
  next
    case False
    then have "connect ok i r = connect ok (i + 1) (r - 1)" by (subst connect.simps) simp
    also have "\<dots> \<longleftrightarrow> (\<exists>j<r - 1. ok (i + 1 + j))" using False by (intro 1) auto
    also have "\<dots> \<longleftrightarrow> (\<exists>j<r. ok (i + j))"
    proof
      assume "\<exists>j<r - 1. ok (i + 1 + j)"
      then obtain j where "j < r - 1" "ok (i + 1 + j)" by blast
      then show "\<exists>j<r. ok (i + j)" by (intro exI [of _ "Suc j"]) auto
    next
      assume "\<exists>j<r. ok (i + j)"
      then obtain j where j: "j < r" "ok (i + j)" by blast
      with False have "j \<noteq> 0" by (metis add_0_right)
      with j show "\<exists>j<r - 1. ok (i + 1 + j)" by (intro exI [of _ "j - 1"]) auto
    qed
    finally show ?thesis .
  qed
qed

lemma consumer_loop_idle:
  assumes "consumer_loop c obs = (c', rest)" "rest \<noteq> []" "fst (hd rest)" "0 \<le> idle_count c" "idle_count c \<le> 100"
  shows "\<exists>xs ys. obs = xs @ ys @ rest \<and> (\<forall>y\<in>set ys. fst (snd y) \<le> my_read_pos c') \<and>
     (length ys = 100 \<or> xs = [] \<and> int (length ys) + idle_count c = 100 \<and> my_read_pos c' = my_read_pos c)"
  using assms
proof (induction obs arbitrary: c)
  case (Cons x obs)
  obtain running wpos len where x: "x = (running, wpos, len)" by (cases x)
  show ?case
  proof (cases "running \<and> idle_count c < 100")
    case True
    let ?c = "consumer_iteration c wpos len"
    have "consumer_loop ?c obs = (c', rest)" using Cons.prems(1) True x by simp
    moreover have "0 \<le> idle_count ?c" "idle_count ?c \<le> 100"
      using True Cons.prems(4) by (simp_all add: consumer_iteration_def)
    ultimately obtain xs ys where *: "obs = xs @ ys @ rest" "\<forall>y\<in>set ys. fst (snd y) \<le> my_read_pos c'"
      "length ys = 100 \<or> xs = [] \<and> int (length ys) + idle_count ?c = 100 \<and> my_read_pos c' = my_read_pos ?c"
      using Cons.IH [of ?c] Cons.prems(2,3) by blast
    show ?thesis
    proof (cases "length ys = 100")
      case True
      with * show ?thesis by (intro exI [of _ "x # xs"] exI [of _ ys]) simp
    next
      case False
      with * have e: "xs = []" "int (length ys) + idle_count ?c = 100" "my_read_pos c' = my_read_pos ?c" by auto
      with False have idle: "wpos \<le> my_read_pos c" by (auto simp: consumer_iteration_def split: if_splits)
      with * e x show ?thesis
        by (intro exI [of _ "[]"] exI [of _ "x # ys"]) (simp add: consumer_iteration_def)
    qed
  next
    case False
    then have "c' = c" "rest = x # obs" using Cons.prems(1) x by auto
    with False Cons.prems x show ?thesis by (intro exI [of _ "[]"]) auto
  qed
qed simp

text \<open>
  A consumer gives up neither too early nor too late: it fails to start only when ten attempts
  to open the buffer have failed, and once started, unless it is told to stop, its loop ends only
  after 100 iterations in a row that saw no message beyond its read position.
\<close>

theorem consumer_patience:
  assumes "consumer_loop \<lparr>idle_count = 0, my_read_pos = 0, messages_read = 0\<rparr> obs = (c', rest)"
    and "rest \<noteq> []" "fst (hd rest)"
  shows "(connect ok 0 10 \<longleftrightarrow> (\<exists>j<10. ok j)) \<and>
     (\<exists>xs ys. obs = xs @ ys @ rest \<and> length ys = 100 \<and> (\<forall>y\<in>set ys. fst (snd y) \<le> my_read_pos c'))"
proof -
  obtain xs ys where *: "obs = xs @ ys @ rest" "\<forall>y\<in>set ys. fst (snd y) \<le> my_read_pos c'"
    "length ys = 100 \<or> int (length ys) = 100"
    using consumer_loop_idle [OF assms] by auto
  then have "length ys = 100" by auto
  with * show ?thesis by (auto simp: connect_iff)
qed

theorem consumer_patience_witness:
  "\<exists>c' xs ys. consumer_loop \<lparr>idle_count = 0, my_read_pos = 0, messages_read = 0\<rparr>
       (replicate 100 (True, 0, 0) @ [(True, 0, 0)]) = (c', [(True, 0, 0)]) \<and>
     replicate 100 (True, 0, 0) @ [(True, 0, 0)] = xs @ ys @ [(True, 0, 0 :: int)] \<and> length ys = 100 \<and>
     (\<forall>y\<in>set ys. fst (snd y) \<le> my_read_pos c')"
proof -
  have idle: "consumer_loop c (replicate k (True, 0, 0) @ [(True, 0, 0)]) =
      (c\<lparr>idle_count := 100\<rparr>, [(True, 0, 0)])" if "idle_count c = 100 - int k" for k c
    using that
  proof (induction k arbitrary: c)
    case (Suc k)
    then show ?case by (simp add: consumer_iteration_def)
  qed simp
  have l: "consumer_loop \<lparr>idle_count = 0, my_read_pos = 0, messages_read = 0\<rparr>
       (replicate 100 (True, 0, 0) @ [(True, 0, 0)]) =
     (\<lparr>idle_count = 100, my_read_pos = 0, messages_read = 0\<rparr>, [(True, 0, 0)])"
    using idle [of "\<lparr>idle_count = 0, my_read_pos = 0, messages_read = 0\<rparr>" 100] by simp
  have "[(True, 0::nat, 0::int)] \<noteq> []" "fst (hd [(True, 0::nat, 0::int)])" by simp_all
  from consumer_patience [OF l this, of "\<lambda>_. True", THEN conjunct2] obtain xs ys where
    "replicate 100 (True, 0, 0) @ [(True, 0, 0)] = xs @ ys @ [(True, 0, 0 :: int)]" "length ys = 100"
    "\<forall>y\<in>set ys. fst (snd y) \<le> my_read_pos \<lparr>idle_count = 100, my_read_pos = 0, messages_read = 0\<rparr>"
    by (elim exE conjE)
  with l show ?thesis by (intro exI conjI)
qed

end
