(* ===== verification/Ipc_Programs.thy ===== *)
theory Ipc_Programs
  imports Shared_Buffer
begin

text \<open>
  The programs \<open>producer.c\<close> and \<open>consumer.c\<close> of \<open>08_advanced/shared_memory_ipc\<close> as two processes that run
  side by side: their loops, the flags their signal handlers set, and, inside their calls of
  \<open>buffer_write\<close> and \<open>buffer_read\<close>, the atomic steps of theory \<open>Shared_Buffer\<close>. The second part is
  what the two programs acquire and release around the loops.

  The argument of the producer is a \<open>long\<close>; the number of messages is below \<open>2^63\<close>.
\<close>

section \<open>The loops\<close>

datatype producer_pc =
    P_Loop      \<comment> \<open>before the test of the \<open>for\<close> loop\<close>
  | P_Write     \<comment> \<open>in \<open>buffer_write\<close>\<close>
  | P_Report    \<comment> \<open>after the loop\<close>
  | P_Hold      \<comment> \<open>in the loop that keeps the process alive\<close>
  | P_Exit

datatype consumer_pc =
    C_Loop      \<comment> \<open>before the test of the \<open>while\<close> loop\<close>
  | C_Read      \<comment> \<open>in \<open>buffer_read\<close>\<close>
  | C_Exit

text \<open>
  \<open>produced\<close> is the variable \<open>i\<close> of the producer, \<open>reported\<close> the number it prints as sent. \<open>seen\<close> is a
  history variable: the number of messages that had been sent when the consumer last found none.
\<close>

record programs =
  shm :: ipc
  producer_at :: producer_pc
  p_running :: bool
  produced :: nat
  reported :: "int option"
  consumer_at :: consumer_pc
  c_running :: bool
  idle :: nat
  reads :: nat
  seen :: nat

definition programs_init :: "programs \<Rightarrow> bool" where
  "programs_init s \<longleftrightarrow> s = \<lparr>shm = start_state, producer_at = P_Loop, p_running = True, produced = 0, reported = None,
     consumer_at = C_Loop, c_running = True, idle = 0, reads = 0, seen = 0\<rparr>"

text \<open>The steps of \<open>ipc_step\<close> that the producer takes, and those of the consumer.\<close>

definition by_producer :: "ipc \<Rightarrow> ipc \<Rightarrow> bool" where
  "by_producer x y \<longleftrightarrow> ipc_step 1 True x y \<and> wpc_of x \<noteq> W_Idle \<and> wpc_of y \<noteq> wpc_of x"

definition by_consumer :: "ipc \<Rightarrow> ipc \<Rightarrow> bool" where
  "by_consumer x y \<longleftrightarrow> ipc_step 1 True x y \<and> rpc_of x 0 \<noteq> R_Idle \<and> rpc_of y 0 \<noteq> rpc_of x 0"

text \<open>
  \<open>buffer_write\<close> returns its length from \<open>W_Released\<close> on and \<open>-1\<close> when it becomes idle before that;
  \<open>buffer_read\<close> returns the length of the message it has appended last.
\<close>

inductive programs_step :: "int \<Rightarrow> programs \<Rightarrow> programs \<Rightarrow> bool" for num_messages :: int where
  p_signal: "programs_step num_messages s (s\<lparr>p_running := False\<rparr>)"
| p_write: "producer_at s = P_Loop \<Longrightarrow> int (produced s) < num_messages \<Longrightarrow> p_running s \<Longrightarrow>
    programs_step num_messages s (s\<lparr>shm := (shm s)\<lparr>wpc_of := W_Start (producer_msg (produced s))\<rparr>, producer_at := P_Write\<rparr>)"
| p_inside: "producer_at s = P_Write \<Longrightarrow> by_producer (shm s) x \<Longrightarrow> wpc_of x \<noteq> W_Idle \<Longrightarrow>
    programs_step num_messages s (s\<lparr>shm := x\<rparr>)"
| p_written: "producer_at s = P_Write \<Longrightarrow> by_producer (shm s) x \<Longrightarrow> wpc_of x = W_Idle \<Longrightarrow> wpc_of (shm s) = W_Released \<Longrightarrow>
    programs_step num_messages s (s\<lparr>shm := x, producer_at := P_Loop, produced := produced s + 1\<rparr>)"
| p_failed: "producer_at s = P_Write \<Longrightarrow> by_producer (shm s) x \<Longrightarrow> wpc_of x = W_Idle \<Longrightarrow> wpc_of (shm s) \<noteq> W_Released \<Longrightarrow>
    programs_step num_messages s (s\<lparr>shm := x, producer_at := P_Report\<rparr>)"
| p_leave: "producer_at s = P_Loop \<Longrightarrow> \<not> (int (produced s) < num_messages \<and> p_running s) \<Longrightarrow>
    programs_step num_messages s (s\<lparr>producer_at := P_Report\<rparr>)"
| p_report: "producer_at s = P_Report \<Longrightarrow>
    programs_step num_messages s (s\<lparr>producer_at := P_Hold, reported := Some num_messages\<rparr>)"
| p_exit: "producer_at s = P_Hold \<Longrightarrow> \<not> p_running s \<Longrightarrow> programs_step num_messages s (s\<lparr>producer_at := P_Exit\<rparr>)"
| c_signal: "programs_step num_messages s (s\<lparr>c_running := False\<rparr>)"
| c_nothing: "consumer_at s = C_Loop \<Longrightarrow> c_running s \<Longrightarrow> idle s < 100 \<Longrightarrow> write_pos (buf (shm s)) \<le> rpos (shm s) 0 \<Longrightarrow>
    programs_step num_messages s (s\<lparr>idle := idle s + 1, seen := length (sent (shm s))\<rparr>)"
| c_call: "consumer_at s = C_Loop \<Longrightarrow> c_running s \<Longrightarrow> idle s < 100 \<Longrightarrow> rpos (shm s) 0 < write_pos (buf (shm s)) \<Longrightarrow>
    programs_step num_messages s (s\<lparr>shm := (shm s)\<lparr>rpc_of := (rpc_of (shm s))(0 := R_Ready)\<rparr>, consumer_at := C_Read, idle := 0\<rparr>)"
| c_inside: "consumer_at s = C_Read \<Longrightarrow> by_consumer (shm s) x \<Longrightarrow> rpc_of x 0 \<noteq> R_Idle \<Longrightarrow>
    programs_step num_messages s (s\<lparr>shm := x\<rparr>)"
| c_returned: "consumer_at s = C_Read \<Longrightarrow> by_consumer (shm s) x \<Longrightarrow> rpc_of x 0 = R_Idle \<Longrightarrow>
    programs_step num_messages s (s\<lparr>shm := x, consumer_at := C_Loop,
      reads := (if last (received x 0) \<noteq> [] then reads s + 1 else reads s)\<rparr>)"
| c_leave: "consumer_at s = C_Loop \<Longrightarrow> \<not> (c_running s \<and> idle s < 100) \<Longrightarrow>
    programs_step num_messages s (s\<lparr>consumer_at := C_Exit\<rparr>)"

section \<open>The programs take steps of the buffer\<close>




















section \<open>A run to the end\<close>













section \<open>Properties of the two programs\<close>


definition start_programs :: programs where
  "start_programs = \<lparr>shm = start_state, producer_at = P_Loop, p_running = True, produced = 0, reported = None,
     consumer_at = C_Loop, c_running = True, idle = 0, reads = 0, seen = 0\<rparr>"


lemma start_programs_init: "programs_init start_programs"
  by (simp add: programs_init_def start_programs_def)





text \<open>
  The number the producer prints is not the number it has sent: it prints its argument, also when
  the loop was left early because of a signal.
\<close>

theorem producer_misreports:
  assumes "0 < num" "num < 2 ^ 63"
  shows "\<exists>s. reachable programs_init (programs_step num) s \<and> reported s = Some num \<and> sent (shm s) = [] \<and> produced s = 0"
proof -
  let ?a = "start_programs\<lparr>p_running := False\<rparr>"
  let ?b = "?a\<lparr>producer_at := P_Report\<rparr>"
  let ?c = "?a\<lparr>producer_at := P_Hold, reported := Some num\<rparr>"
  have 0: "reachable programs_init (programs_step num) start_programs"
    by (rule reach_init) (rule start_programs_init)
  have a: "reachable programs_init (programs_step num) ?a" by (rule reach_via [OF 0], rule p_signal) simp
  have b: "reachable programs_init (programs_step num) ?b"
    by (rule reach_via [OF a], rule p_leave) (simp_all add: start_programs_def)
  have "reachable programs_init (programs_step num) ?c" by (rule reach_via [OF b], rule p_report) simp_all
  moreover have "reported ?c = Some num" "sent (shm ?c) = []" "produced ?c = 0"
    by (simp_all add: start_programs_def start_state_def)
  ultimately show ?thesis by blast
qed

theorem producer_misreports_witness:
  "\<exists>s. reachable programs_init (programs_step 7) s \<and> reported s = Some 7 \<and> produced s = 0"
  using producer_misreports [of 7] by auto

section \<open>What the programs acquire and release\<close>

text \<open>The exit status and the events of the producer; the loop between opening and closing acquires nothing.\<close>

definition producer_main :: "open_calls \<Rightarrow> int \<times> ipc_resource resource_event list" where
  "producer_main x =
     (case buffer_open True x of
        (False, ev) \<Rightarrow> (1, ev)
      | (True, ev) \<Rightarrow> (0, ev @ buffer_close @ buffer_unlink))"

text \<open>The attempts of the consumer: the system calls of attempt \<open>i\<close> have the results \<open>x i\<close>.\<close>

fun open_attempts :: "(nat \<Rightarrow> open_calls) \<Rightarrow> nat \<Rightarrow> nat \<Rightarrow> bool \<times> ipc_resource resource_event list" where
  "open_attempts x i retries =
     (if retries = 0 then (False, [])
      else case buffer_open False (x i) of
        (True, ev) \<Rightarrow> (True, ev)
      | (False, ev) \<Rightarrow>
          if retries > 1 then (case open_attempts x (i + 1) (retries - 1) of (b, es) \<Rightarrow> (b, ev @ es))
          else (False, ev))"

declare open_attempts.simps [simp del]

definition consumer_main :: "(nat \<Rightarrow> open_calls) \<Rightarrow> int \<times> ipc_resource resource_event list" where
  "consumer_main x =
     (case open_attempts x 0 10 of
        (False, es) \<Rightarrow> (1, es)
      | (True, es) \<Rightarrow> (0, es @ buffer_close))"

text \<open>What an attempt leaves behind.\<close>

definition handles :: "open_calls \<Rightarrow> ipc_resource multiset" where
  "handles x = (if full_ok x then {#Sem_Handle 0#} else {#}) + (if empty_ok x then {#Sem_Handle 1#} else {#}) +
     (if mutex_ok x then {#Sem_Handle 2#} else {#})"

lemma attempt_holds:
  "net (snd (buffer_open False x)) M = Some (M +
     (if fst (buffer_open False x) then {#Shm_Fd, Mapping#} + handles x
      else if \<not> shm_ok x then {#} else if \<not> map_ok x then {#Shm_Fd#} else {#Shm_Fd#} + handles x))"
  by (auto simp: open_defs handles_def)

lemma attempts_fail_first:
  assumes "\<forall>k<j. \<not> fst (buffer_open False (x (i + k))) \<and> shm_ok (x (i + k))" "fst (buffer_open False (x (i + j)))" "j < r"
  shows "\<exists>es H. open_attempts x i r = (True, es) \<and> net es M = Some (M + replicate_mset (Suc j) Shm_Fd + {#Mapping#} + H) \<and>
    Shm_Fd \<notin># H \<and> Mapping \<notin># H"
  using assms
proof (induction j arbitrary: i r M)
  case 0
  obtain ev where ev: "buffer_open False (x i) = (True, ev)" using 0(2) by (cases "buffer_open False (x i)") auto
  then have "net ev M = Some (M + ({#Shm_Fd, Mapping#} + handles (x i)))" using attempt_holds [of "x i" M] by simp
  moreover have "open_attempts x i r = (True, ev)" using 0(3) ev by (subst open_attempts.simps) simp
  ultimately show ?case by (intro exI [of _ ev] exI [of _ "handles (x i)"]) (simp add: handles_def)
next
  case (Suc j)
  have f: "\<not> fst (buffer_open False (x i))" "shm_ok (x i)" using Suc.prems(1) by force+
  obtain ev where ev: "buffer_open False (x i) = (False, ev)" using f(1) by (cases "buffer_open False (x i)") auto
  define L where "L = (if \<not> map_ok (x i) then {#} else handles (x i))"
  have L: "net ev M = Some (add_mset Shm_Fd (M + L))" using attempt_holds [of "x i" M] ev f(2) by (simp add: L_def)
  have nx: "\<forall>k<j. \<not> fst (buffer_open False (x (i + 1 + k))) \<and> shm_ok (x (i + 1 + k))"
    using Suc.prems(1) by (metis add.assoc add.commute Suc_less_eq plus_1_eq_Suc)
  have "fst (buffer_open False (x (i + 1 + j)))" "j < r - 1" using Suc.prems(2,3) by simp_all
  from Suc.IH [OF nx this, of "add_mset Shm_Fd (M + L)"] obtain es H where es: "open_attempts x (i + 1) (r - 1) = (True, es)"
    "net es (add_mset Shm_Fd (M + L)) = Some (add_mset Shm_Fd (M + L) + replicate_mset (Suc j) Shm_Fd + {#Mapping#} + H)"
    "Shm_Fd \<notin># H" "Mapping \<notin># H" by blast
  have "open_attempts x i r = (True, ev @ es)" using Suc.prems(3) ev es(1) by (subst open_attempts.simps) simp
  moreover have "Shm_Fd \<notin># L + H" "Mapping \<notin># L + H" using es(3,4) by (simp_all add: L_def handles_def)
  ultimately show ?case using L es(2)
    by (intro exI [of _ "ev @ es"] exI [of _ "L + H"]) (simp add: net_append)
qed

text \<open>
  A consumer that starts before the producer loses a descriptor with every attempt to open the
  buffer that fails after \<open>shm_open\<close>: after \<open>j\<close> such attempts and a success it ends with \<open>j\<close> descriptors
  of the shared memory still open. The producer, when it can open the buffer, gives back the
  descriptor, the mapping and all names.
\<close>

theorem consumer_retries_leak:
  assumes "j < 10" "\<forall>i<j. shm_ok (x i) \<and> \<not> fst (buffer_open False (x i))" "fst (buffer_open False (x j))"
  shows "\<exists>es H. consumer_main x = (0, es) \<and> net es {#} = Some H \<and> count H Shm_Fd = j \<and> count H Mapping = 0"
proof -
  obtain es H where es: "open_attempts x 0 10 = (True, es)"
    "net es {#} = Some ({#} + replicate_mset (Suc j) Shm_Fd + {#Mapping#} + H)" "Shm_Fd \<notin># H" "Mapping \<notin># H"
    using attempts_fail_first [of j x 0 10 "{#}"] assms by auto
  have "consumer_main x = (0, es @ buffer_close)" using es(1) by (simp add: consumer_main_def)
  moreover have "net (es @ buffer_close) {#} = Some (replicate_mset j Shm_Fd + H)"
    using es(2) by (simp add: net_append buffer_close_def)
  moreover have "count (replicate_mset j Shm_Fd + H) Shm_Fd = j" "count (replicate_mset j Shm_Fd + H) Mapping = 0"
    using es(3,4) by (simp_all add: not_in_iff)
  ultimately show ?thesis by blast
qed

theorem consumer_retries_leak_witness:
  "\<exists>es H. consumer_main (\<lambda>i. \<lparr>shm_ok = True, trunc_ok = True, map_ok = True, full_ok = True, empty_ok = 2 \<le> i, mutex_ok = 2 \<le> i\<rparr>) =
     (0, es) \<and> net es {#} = Some H \<and> count H Shm_Fd = 2"
  using consumer_retries_leak [of 2 "\<lambda>i. \<lparr>shm_ok = True, trunc_ok = True, map_ok = True, full_ok = True, empty_ok = 2 \<le> i, mutex_ok = 2 \<le> i\<rparr>"]
  by (auto simp: open_defs)

text \<open>The attempts succeed exactly when one of the ten does.\<close>

lemma open_attempts_connect: "fst (open_attempts x i r) = connect (\<lambda>i. fst (buffer_open False (x i))) i r"
proof (induction x i r rule: open_attempts.induct)
  case (1 x i r)
  let ?ok = "\<lambda>i. fst (buffer_open False (x i))"
  obtain b ev where ev: "buffer_open False (x i) = (b, ev)" by fastforce
  show ?case
  proof (cases "r = 0 \<or> b \<or> r = 1")
    case True
    with ev show ?thesis by (subst open_attempts.simps, subst connect.simps) auto
  next
    case False
    then have "fst (open_attempts x i r) = fst (open_attempts x (i + 1) (r - 1))"
      using ev by (subst open_attempts.simps) (simp split: prod.splits)
    also have "\<dots> = connect ?ok (i + 1) (r - 1)" using 1 [OF _ ev [symmetric]] False by simp
    finally show ?thesis using False ev by (subst connect.simps) simp
  qed
qed

theorem ipc_main_status:
  "(fst (producer_main x) = 0 \<longleftrightarrow> fst (buffer_open True x)) \<and>
   (fst (consumer_main y) = 0 \<longleftrightarrow> (\<exists>i<10. fst (buffer_open False (y i))))"
proof -
  have "fst (producer_main x) = 0 \<longleftrightarrow> fst (buffer_open True x)"
    by (simp add: producer_main_def split: prod.splits bool.splits)
  moreover have "fst (consumer_main y) = 0 \<longleftrightarrow> fst (open_attempts y 0 10)"
    by (simp add: consumer_main_def split: prod.splits bool.splits)
  ultimately show ?thesis by (simp add: open_attempts_connect connect_iff)
qed

end
