(* ===== verification/Mini_Shell.thy ===== *)
theory Mini_Shell
  imports Prelude
begin

text \<open>
  The shell of \<open>01_processes/mini_shell/shell.c\<close>. Lines are character lists without the terminating
  zero, and the input contains no zero byte. The first part translates the parsing of a line, the removal of redirections, the file
  descriptors of a pipeline, and what the main loop makes of a line. The second part compares the
  tokeniser with a reference definition, shows that a pipeline is connected as intended, and what
  becomes of redirections and of the two places where the main loop passes wrong pointers.

  What the operating system does is a parameter: the result of \<open>open\<close> and the descriptors that
  \<open>pipe\<close> returns. The programs that are run are not modelled.
\<close>

section \<open>The code\<close>

definition MAX_CMD_LEN :: nat where
  "MAX_CMD_LEN = 1024"

definition MAX_ARGS :: nat where
  "MAX_ARGS = 64"

definition MAX_PIPES :: nat where
  "MAX_PIPES = 10"

subsection \<open>Tokens\<close>

text \<open>
  One call of \<open>strtok\<close> on the text that is left: skip delimiters, take the token, step over the
  delimiter that ends it. The result is the token and the text left for the next call.
\<close>

definition strtok :: "char list \<Rightarrow> string \<Rightarrow> (string \<times> string) option" where
  "strtok ds s =
     (let t = dropWhile (\<lambda>c. c \<in> set ds) s in
      if t = [] then None
      else Some (takeWhile (\<lambda>c. c \<notin> set ds) t, drop 1 (dropWhile (\<lambda>c. c \<notin> set ds) t)))"

lemma strtok_shorter: "strtok ds s = Some (t, r) \<Longrightarrow> length r < length s"
proof -
  assume a: "strtok ds s = Some (t, r)"
  let ?u = "dropWhile (\<lambda>c. c \<in> set ds) s"
  have u: "?u \<noteq> []" "r = drop 1 (dropWhile (\<lambda>c. c \<notin> set ds) ?u)"
    using a by (auto simp: strtok_def Let_def split: if_splits)
  have "length (dropWhile (\<lambda>c. c \<notin> set ds) ?u) \<le> length ?u" by (rule length_dropWhile_le)
  moreover have "length ?u \<le> length s" by (rule length_dropWhile_le)
  moreover have "length ?u > 0" using u(1) by simp
  ultimately show ?thesis unfolding u(2) length_drop by linarith
qed

definition blanks :: "char list" where
  "blanks = [CHR '' '', CHR 0x09, CHR 0x0A]"

text \<open>The loop of \<open>parse_command\<close>: the text left, the arguments so far, the background flag.\<close>

function parse_loop :: "string \<Rightarrow> string list \<Rightarrow> bool \<Rightarrow> string list \<times> bool" where
  "parse_loop s args background =
     (case strtok blanks s of
        None \<Rightarrow> (args, background)
      | Some (token, rest) \<Rightarrow>
          if length args < MAX_ARGS - 1
          then (if token = ''&'' then parse_loop rest args True
                else parse_loop rest (args @ [token]) background)
          else (args, background))"
  by auto
termination by (relation "measure (\<lambda>(s, args, b). length s)") (auto dest: strtok_shorter)

declare parse_loop.simps [simp del]

definition parse_command :: "string \<Rightarrow> string list \<times> bool" where
  "parse_command line = parse_loop line [] False"

fun count_pipes :: "string \<Rightarrow> nat" where
  "count_pipes [] = 0"
| "count_pipes (c # line) = (if c = CHR ''|'' then 1 + count_pipes line else count_pipes line)"

text \<open>The loop of \<open>main\<close> that splits a line at the pipe symbols and drops leading blanks.\<close>

function split_pipes :: "string \<Rightarrow> string list \<Rightarrow> string list" where
  "split_pipes s commands =
     (case strtok ''|'' s of
        None \<Rightarrow> commands
      | Some (token, rest) \<Rightarrow>
          if length commands < MAX_PIPES + 1
          then split_pipes rest (commands @ [dropWhile (\<lambda>c. c = CHR '' '') token])
          else commands)"
  by auto
termination by (relation "measure (\<lambda>(s, cs). length s)") (auto dest: strtok_shorter)

declare split_pipes.simps [simp del]

text \<open>The argument vector a child of a pipeline builds from its command.\<close>

function child_loop :: "string \<Rightarrow> string list \<Rightarrow> string list" where
  "child_loop s args =
     (if length args < MAX_ARGS - 1
      then case strtok [CHR '' '', CHR 0x09] s of
             None \<Rightarrow> args
           | Some (token, rest) \<Rightarrow> child_loop rest (args @ [token])
      else args)"
  by auto
termination by (relation "measure (\<lambda>(s, cs). length s)") (auto dest: strtok_shorter)

declare child_loop.simps [simp del]

text \<open>\<open>args[0]\<close> is null when there is no token at all.\<close>

definition child_args :: "string \<Rightarrow> string option \<times> string list" where
  "child_args command =
     (case strtok [CHR '' '', CHR 0x09] command of
        None \<Rightarrow> (None, [])
      | Some (token, rest) \<Rightarrow> (Some token, child_loop rest [token]))"

subsection \<open>Redirection\<close>

datatype open_mode = Trunc | Append

text \<open>The loop \<open>while (j + 2 < *arg_count) args[j] = args[j + 2]\<close>.\<close>

function shift_args :: "'a list \<Rightarrow> nat \<Rightarrow> nat \<Rightarrow> 'a list" where
  "shift_args args n j = (if j + 2 < n then shift_args (args[j := args ! (j + 2)]) n (j + 1) else args)"
  by auto
termination by (relation "measure (\<lambda>(args, n, j). n - j)") auto

declare shift_args.simps [simp del]

text \<open>
  \<open>args\<close> are the entries of the array up to its first null pointer, \<open>arg_count\<close> is the counter the
  caller passes by reference, \<open>opn\<close> is the result of \<open>open\<close>. The result is the new array, the new
  counter and what \<open>*redir_out\<close> is set to; \<open>*redir_in\<close> is always \<open>-1\<close>.
\<close>

function redirect_loop ::
  "(string \<Rightarrow> open_mode \<Rightarrow> int) \<Rightarrow> string list \<Rightarrow> nat \<Rightarrow> int \<Rightarrow> nat \<Rightarrow> string list \<times> nat \<times> int" where
  "redirect_loop opn args arg_count redir_out i =
     (if i < arg_count then
        (let mode = (if args ! i = ''>'' then Some Trunc
                     else if args ! i = ''>>'' then Some Append else None) in
         case mode of
           None \<Rightarrow> redirect_loop opn args arg_count redir_out (i + 1)
         | Some m \<Rightarrow>
             if i + 1 < arg_count then
               (let fd = opn (args ! (i + 1)) m in
                if fd < 0 then (args, arg_count, fd)
                else redirect_loop opn (shift_args args arg_count i) i fd (i + 1))
             else redirect_loop opn args arg_count redir_out (i + 1))
      else (args, arg_count, redir_out))"
  by auto
termination by (relation "measure (\<lambda>(opn, args, n, r, i). n - i)") (auto simp: Let_def split: if_splits)

declare redirect_loop.simps [simp del]

definition extract_redirection ::
  "(string \<Rightarrow> open_mode \<Rightarrow> int) \<Rightarrow> string list \<Rightarrow> nat \<Rightarrow> string list \<times> nat \<times> int" where
  "extract_redirection opn args arg_count = redirect_loop opn args arg_count (- 1) 0"

subsection \<open>Descriptors\<close>

text \<open>What a descriptor of a process refers to.\<close>

datatype open_file = Terminal nat | Opened int | Pipe_Read nat | Pipe_Write nat

type_synonym fd_table = "nat \<Rightarrow> open_file option"

definition dup2 :: "nat \<Rightarrow> nat \<Rightarrow> fd_table \<Rightarrow> fd_table" where
  "dup2 old new t = t(new := t old)"

definition close_fd :: "nat \<Rightarrow> fd_table \<Rightarrow> fd_table" where
  "close_fd fd t = t(fd := None)"

text \<open>The descriptors of the child in \<open>execute_single_command\<close> when it calls \<open>execvp\<close>.\<close>

definition redirect_fd :: "int \<Rightarrow> nat \<Rightarrow> fd_table \<Rightarrow> fd_table" where
  "redirect_fd redir target t =
     (if 0 \<le> redir then close_fd (nat redir) (dup2 (nat redir) target t) else t)"

definition execute_single_command :: "int \<Rightarrow> int \<Rightarrow> fd_table \<Rightarrow> fd_table" where
  "execute_single_command redir_in redir_out t = redirect_fd redir_out 1 (redirect_fd redir_in 0 t)"

text \<open>The descriptors of the shell after it has waited for that child.\<close>

definition single_parent :: "int \<Rightarrow> int \<Rightarrow> fd_table \<Rightarrow> fd_table" where
  "single_parent redir_in redir_out t =
     (let t = (if 0 \<le> redir_in then close_fd (nat redir_in) t else t)
      in if 0 \<le> redir_out then close_fd (nat redir_out) t else t)"

text \<open>
  \<open>fds\<close> are the pairs \<open>pipe\<close> has returned. The descriptors of the shell after the pipes are made,
  of its child number \<open>i\<close> when it calls \<open>execvp\<close>, and of the shell when it waits for its children.
\<close>

definition open_pipes :: "(nat \<times> nat) list \<Rightarrow> fd_table \<Rightarrow> fd_table" where
  "open_pipes fds t =
     fold (\<lambda>k t. t(fst (fds ! k) \<mapsto> Pipe_Read k, snd (fds ! k) \<mapsto> Pipe_Write k)) [0..<length fds] t"

definition close_pipes :: "(nat \<times> nat) list \<Rightarrow> fd_table \<Rightarrow> fd_table" where
  "close_pipes fds t = fold (\<lambda>p t. close_fd (snd p) (close_fd (fst p) t)) fds t"

definition child_setup :: "(nat \<times> nat) list \<Rightarrow> nat \<Rightarrow> nat \<Rightarrow> fd_table \<Rightarrow> fd_table" where
  "child_setup fds num_commands i t =
     (let t = (if i > 0 then dup2 (fst (fds ! (i - 1))) 0 t else t);
          t = (if i < num_commands - 1 then dup2 (snd (fds ! i)) 1 t else t)
      in close_pipes fds t)"

definition pipeline_child :: "(nat \<times> nat) list \<Rightarrow> nat \<Rightarrow> nat \<Rightarrow> fd_table \<Rightarrow> fd_table" where
  "pipeline_child fds num_commands i t = child_setup fds num_commands i (open_pipes fds t)"

definition pipeline_parent :: "(nat \<times> nat) list \<Rightarrow> fd_table \<Rightarrow> fd_table" where
  "pipeline_parent fds t = close_pipes fds (open_pipes fds t)"

text \<open>
  \<open>main\<close> passes its two-dimensional array of command texts, cast to \<open>char **\<close>: \<open>commands_array[i]\<close> is
  not the address of row \<open>i\<close>, but the number that the bytes \<open>8 * i .. 8 * i + 7\<close> of the array form,
  lowest byte first. They all lie in the row of the first command; \<open>junk\<close> is what that row holds
  behind the text.
\<close>

definition command_byte :: "(nat \<Rightarrow> char) \<Rightarrow> string list \<Rightarrow> nat \<Rightarrow> char" where
  "command_byte junk commands j =
     (let c = hd commands in if j < length c then c ! j else if j = length c then CHR 0x00 else junk j)"

definition commands_element :: "(nat \<Rightarrow> char) \<Rightarrow> string list \<Rightarrow> nat \<Rightarrow> nat" where
  "commands_element junk commands i =
     (\<Sum>k\<leftarrow>[0..<8]. of_char (command_byte junk commands (8 * i + k)) * 256 ^ k)"

subsection \<open>The main loop\<close>

text \<open>\<open>fgets\<close> and the removal of the newline: the line, and the input left.\<close>

fun fgets :: "nat \<Rightarrow> string \<Rightarrow> (string \<times> string) option" where
  "fgets n [] = None"
| "fgets n s =
     (let w = take (n - 1) s; l = takeWhile (\<lambda>c. c \<noteq> CHR 0x0A) w in
      Some (l, if length l < length w then drop (length l + 1) s else drop (n - 1) s))"

text \<open>What the shell does with a line.\<close>

datatype action =
    Nothing
  | Exit
  | Change_Directory string
  | Change_Home
  | Help
  | Pipeline "string list"
  | Single "string list"

definition dispatch :: "string \<Rightarrow> action" where
  "dispatch line =
     (if line = [] then Nothing
      else let args = fst (parse_command line) in
        if args = [] then Nothing
        else if hd args = ''exit'' then Exit
        else if hd args = ''cd'' then (if length args > 1 then Change_Directory (args ! 1) else Change_Home)
        else if hd args = ''help'' then Help
        else if count_pipes line > 0 then Pipeline (split_pipes line [])
        else Single args)"

text \<open>
  A single command. The address \<open>&args[k]\<close> that is passed for the results of the first call of
  \<open>extract_redirection\<close> has to lie in the array; the second call gets local variables. The result
  is the argument vector for \<open>execvp\<close> and the descriptors for the child.
\<close>

definition args_address :: "int \<Rightarrow> unit c_result" where
  "args_address k = (if 0 \<le> k \<and> k < int MAX_ARGS then Inr () else Inl Out_Of_Bounds)"

definition run_single ::
  "(string \<Rightarrow> open_mode \<Rightarrow> int) \<Rightarrow> string list \<Rightarrow> fd_table \<Rightarrow> (string list \<times> fd_table) c_result" where
  "run_single opn args t =
     bind_r (args_address (- 1)) (\<lambda>_.
     bind_r (args_address (- 2)) (\<lambda>_.
       let (args, arg_count, _) = extract_redirection opn args (length args);
           (args, arg_count, redir_out) = extract_redirection opn args arg_count
       in Inr (args, execute_single_command (- 1) redir_out t)))"

lemma fgets_shorter: "1 < n \<Longrightarrow> fgets n s = Some (l, r) \<Longrightarrow> length r < length s"
  by (cases s) (auto simp: Let_def split: if_splits)

text \<open>The lines of a session, up to \<open>exit\<close> or the end of the input, and what is done with them.\<close>

function shell_session :: "string \<Rightarrow> action list" where
  "shell_session input =
     (case fgets MAX_CMD_LEN input of
        None \<Rightarrow> []
      | Some (line, rest) \<Rightarrow>
          if dispatch line = Exit then [Exit] else dispatch line # shell_session rest)"
  by auto
termination by (relation "measure length") (auto simp: MAX_CMD_LEN_def intro: fgets_shorter [of 1024])

declare shell_session.simps [simp del]

section \<open>The tokeniser\<close>

text \<open>The reference: cut the text at every delimiter and drop the empty pieces.\<close>

fun fields :: "char list \<Rightarrow> string \<Rightarrow> string list" where
  "fields ds [] = [[]]"
| "fields ds (c # s) =
     (if c \<in> set ds then [] # fields ds s else (c # hd (fields ds s)) # tl (fields ds s))"

definition words :: "char list \<Rightarrow> string \<Rightarrow> string list" where
  "words ds s = filter (\<lambda>w. w \<noteq> []) (fields ds s)"

named_theorems tok "facts about tokens"

lemma fields_nonempty [simp]: "fields ds s \<noteq> []"
  by (cases s) auto

lemma words_Nil [tok, simp]: "words ds [] = []"
  by (simp add: words_def)

lemma words_delimiter [tok]: "c \<in> set ds \<Longrightarrow> words ds (c # s) = words ds s"
  by (simp add: words_def)

lemma words_skip: "words ds (dropWhile (\<lambda>c. c \<in> set ds) s) = words ds s"
  by (induction s) (auto simp: tok)

lemma fields_piece: "\<forall>c\<in>set a. c \<notin> set ds \<Longrightarrow> fields ds (a @ s) = (a @ hd (fields ds s)) # tl (fields ds s)"
  by (induction a) auto

lemma words_piece [tok]:
  assumes "\<forall>c\<in>set a. c \<notin> set ds" "a \<noteq> []"
  shows "words ds a = [a]" "d \<in> set ds \<Longrightarrow> words ds (a @ d # s) = a # words ds s"
  using assms fields_piece [OF assms(1), of "[]"] fields_piece [OF assms(1), of "d # s"]
  by (simp_all add: words_def)

lemma strtok_words:
  "words ds s = (case strtok ds s of None \<Rightarrow> [] | Some (t, r) \<Rightarrow> t # words ds r)"
proof (cases "dropWhile (\<lambda>c. c \<in> set ds) s = []")
  case True
  then have "words ds s = []" using words_skip [of ds s] by (simp del: dropWhile_eq_Nil_conv)
  with True show ?thesis by (simp add: strtok_def)
next
  case False
  define u where "u = dropWhile (\<lambda>c. c \<in> set ds) s"
  define a where "a = takeWhile (\<lambda>c. c \<notin> set ds) u"
  define b where "b = dropWhile (\<lambda>c. c \<notin> set ds) u"
  have a: "\<forall>c\<in>set a. c \<notin> set ds" by (auto simp: a_def dest: set_takeWhileD)
  have "hd u \<notin> set ds" using hd_dropWhile [OF False] by (simp add: u_def)
  moreover have "u \<noteq> []" using False unfolding u_def .
  ultimately have ne: "a \<noteq> []" by (cases u) (auto simp: a_def)
  have "words ds s = words ds u" unfolding u_def by (rule words_skip [symmetric])
  also have "u = a @ b" by (simp add: a_def b_def)
  also have "words ds (a @ b) = a # words ds (drop 1 b)"
  proof (cases b)
    case Nil
    then show ?thesis using words_piece(1) [OF a ne] by simp
  next
    case (Cons d r)
    then have "d \<in> set ds" using hd_dropWhile [of "\<lambda>c. c \<notin> set ds" u] by (simp add: b_def)
    with Cons show ?thesis using words_piece(2) [OF a ne] by simp
  qed
  finally have "words ds s = a # words ds (drop 1 b)" .
  moreover have "strtok ds s = Some (a, drop 1 b)"
    using \<open>u \<noteq> []\<close> unfolding strtok_def Let_def u_def [symmetric] a_def [symmetric] b_def [symmetric] by simp
  ultimately show ?thesis by simp
qed

text \<open>
  The tokens \<open>parse_command\<close> looks at while fewer than \<open>n\<close> arguments are stored; the token \<open>&\<close> is
  not an argument.
\<close>

fun seen :: "nat \<Rightarrow> string list \<Rightarrow> string list" where
  "seen n [] = []"
| "seen n (t # ts) = (if n = 0 then [] else t # seen (if t = ''&'' then n else n - 1) ts)"

lemma seen_args: "filter (\<lambda>t. t \<noteq> ''&'') (seen n ts) = take n (filter (\<lambda>t. t \<noteq> ''&'') ts)"
proof (induction n ts rule: seen.induct)
  case (2 n t ts)
  then show ?case by (cases n) auto
qed simp

lemma seen_all: "length (filter (\<lambda>t. t \<noteq> ''&'') ts) < n \<Longrightarrow> seen n ts = ts"
  by (induction n ts rule: seen.induct) auto

lemma parse_loop_words:
  assumes "length args \<le> 63"
  shows "parse_loop s args b =
    (args @ filter (\<lambda>t. t \<noteq> ''&'') (seen (63 - length args) (words blanks s)),
     b \<or> ''&'' \<in> set (seen (63 - length args) (words blanks s)))"
  using assms
proof (induction s args b rule: parse_loop.induct)
  case (1 s args b)
  show ?case
  proof (cases "strtok blanks s")
    case None
    then show ?thesis using strtok_words [of blanks s] by (simp add: parse_loop.simps)
  next
    case (Some p)
    obtain t r where p: "p = (t, r)" by (cases p)
    have w: "words blanks s = t # words blanks r" using strtok_words [of blanks s] Some p by simp
    show ?thesis
    proof (cases "length args < 63")
      case True
      show ?thesis
      proof (cases "t = ''&''")
        case amp: True
        with 1(1) [OF Some p [symmetric]] True Some p show ?thesis
          by (subst parse_loop.simps) (simp add: MAX_ARGS_def w)
      next
        case False
        with 1(2) [OF Some p [symmetric]] True Some p show ?thesis
          by (subst parse_loop.simps) (simp add: MAX_ARGS_def w Suc_diff_Suc)
      qed
    next
      case False
      then show ?thesis using 1(3) Some p by (subst parse_loop.simps) (simp add: MAX_ARGS_def w)
    qed
  qed
qed

lemma split_pipes_words:
  assumes "length cs \<le> 11"
  shows "split_pipes s cs = take 11 (cs @ map (dropWhile (\<lambda>c. c = CHR '' '')) (words ''|'' s))"
  using assms
proof (induction s cs rule: split_pipes.induct)
  case (1 s cs)
  show ?case
  proof (cases "strtok ''|'' s")
    case None
    then show ?thesis using strtok_words [of "''|''" s] 1(2) by (simp add: split_pipes.simps)
  next
    case (Some p)
    obtain t r where p: "p = (t, r)" by (cases p)
    have w: "words ''|'' s = t # words ''|'' r" using strtok_words [of "''|''" s] Some p by simp
    show ?thesis
    proof (cases "length cs < 11")
      case True
      with 1(1) [OF Some p [symmetric]] Some p show ?thesis
        by (subst split_pipes.simps) (simp add: MAX_PIPES_def w)
    next
      case False
      then show ?thesis using 1(2) Some p by (subst split_pipes.simps) (simp add: MAX_PIPES_def)
    qed
  qed
qed

lemma length_fields: "length (fields ''|'' s) = count_pipes s + 1"
  by (induction s) auto

section \<open>Descriptors of a pipeline\<close>

text \<open>
  What \<open>pipe\<close> guarantees: the descriptors are new, in particular none of the standard three, and
  all different.
\<close>

definition new_fds :: "(nat \<times> nat) list \<Rightarrow> bool" where
  "new_fds fds \<longleftrightarrow> distinct (map fst fds @ map snd fds) \<and> (\<forall>p\<in>set fds. 3 \<le> fst p \<and> 3 \<le> snd p)"

definition pipe_fds :: "(nat \<times> nat) list \<Rightarrow> nat set" where
  "pipe_fds fds = fst ` set fds \<union> snd ` set fds"

lemma close_pipes_eq: "close_pipes fds t = (\<lambda>x. if x \<in> pipe_fds fds then None else t x)"
  unfolding close_pipes_def pipe_fds_def by (induction fds arbitrary: t) (auto simp: close_fd_def)

lemma open_pipes_other: "x \<notin> pipe_fds fds \<Longrightarrow> open_pipes fds t x = t x"
proof -
  assume x: "x \<notin> pipe_fds fds"
  have "fold (\<lambda>k t. t(fst (fds ! k) \<mapsto> Pipe_Read k, snd (fds ! k) \<mapsto> Pipe_Write k)) ks t x = t x"
    if "\<forall>k\<in>set ks. k < length fds" for ks
    using that
  proof (induction ks arbitrary: t)
    case (Cons k ks)
    then have "x \<noteq> fst (fds ! k)" "x \<noteq> snd (fds ! k)" using x by (auto simp: pipe_fds_def)
    with Cons show ?case by simp
  qed simp
  then show ?thesis by (simp add: open_pipes_def)
qed

lemma open_pipes_ends:
  assumes "new_fds fds" "i < length fds"
  shows "open_pipes fds t (fst (fds ! i)) = Some (Pipe_Read i)"
    "open_pipes fds t (snd (fds ! i)) = Some (Pipe_Write i)"
proof -
  let ?f = "\<lambda>k t. t(fst (fds ! k) \<mapsto> Pipe_Read k, snd (fds ! k) \<mapsto> Pipe_Write k)"
  have d: "distinct (map fst fds)" "distinct (map snd fds)" "set (map fst fds) \<inter> set (map snd fds) = {}"
    using assms(1) by (auto simp: new_fds_def)
  have ne: "fst (fds ! j) \<noteq> fst (fds ! k)" "snd (fds ! j) \<noteq> snd (fds ! k)"
    if "j < length fds" "k < length fds" "j \<noteq> k" for j k
    using d(1,2) that by (auto simp: distinct_conv_nth)
  have fs: "fst (fds ! j) \<noteq> snd (fds ! k)" if "j < length fds" "k < length fds" for j k
    using d(3) that nth_mem [of j fds] nth_mem [of k fds] by (force simp: disjoint_iff)
  have keep: "fold ?f ks t' x = t' x"
    if "\<forall>k\<in>set ks. x \<noteq> fst (fds ! k) \<and> x \<noteq> snd (fds ! k)" for ks t' x
    using that by (induction ks arbitrary: t') auto
  have split: "[0..<length fds] = [0..<i] @ i # [Suc i..<length fds]"
    using assms(2) by (metis upt_conv_Cons upt_add_eq_append le_add_diff_inverse le0 less_imp_le)
  have "open_pipes fds t = fold ?f [Suc i..<length fds] (?f i (fold ?f [0..<i] t))"
    unfolding open_pipes_def split by simp
  moreover have "\<forall>k\<in>set [Suc i..<length fds]. fst (fds ! i) \<noteq> fst (fds ! k) \<and> fst (fds ! i) \<noteq> snd (fds ! k)"
    "\<forall>k\<in>set [Suc i..<length fds]. snd (fds ! i) \<noteq> fst (fds ! k) \<and> snd (fds ! i) \<noteq> snd (fds ! k)"
    using ne fs assms(2) by (auto, metis)
  ultimately show "open_pipes fds t (fst (fds ! i)) = Some (Pipe_Read i)"
    "open_pipes fds t (snd (fds ! i)) = Some (Pipe_Write i)"
    using keep [of "[Suc i..<length fds]" "fst (fds ! i)"] keep [of "[Suc i..<length fds]" "snd (fds ! i)"]
      fs [OF assms(2) assms(2)] by simp_all
qed

lemma std_not_pipe: "new_fds fds \<Longrightarrow> x < 3 \<Longrightarrow> x \<notin> pipe_fds fds"
  by (auto simp: new_fds_def pipe_fds_def)

section \<open>Redirection\<close>

lemma shift_args_keeps:
  "length (shift_args args n j) = length args" "k < j \<Longrightarrow> shift_args args n j ! k = args ! k"
proof (induction args n j rule: shift_args.induct)
  case (1 args n j)
  case 1
  then show ?case using "1.IH"(1) by (subst shift_args.simps) simp
next
  case (1 args n j)
  case 2
  then show ?case using "1.IH"(2) by (subst shift_args.simps) simp
qed

lemma redirect_loop_plain:
  assumes "\<forall>k. i \<le> k \<and> k < n \<longrightarrow> args ! k \<noteq> ''>'' \<and> args ! k \<noteq> ''>>''"
  shows "redirect_loop opn args n r i = (args, n, r)"
  using assms
proof (induction "n - i" arbitrary: i)
  case 0
  then show ?case by (subst redirect_loop.simps) simp
next
  case (Suc d)
  then have "redirect_loop opn args n r (i + 1) = (args, n, r)" by simp
  with Suc.prems Suc.hyps(2) show ?case by (subst redirect_loop.simps) (simp add: Let_def)
qed

text \<open>A redirection behind \<open>pre\<close>: the loop reaches it, and stops right after it.\<close>

lemma redirect_loop_found:
  assumes "\<forall>a\<in>set pre. a \<noteq> ''>'' \<and> a \<noteq> ''>>''" "op = ''>'' \<and> m = Trunc \<or> op = ''>>'' \<and> m = Append"
    and "0 \<le> opn f m" "i \<le> length pre" "args = pre @ op # f # post"
  shows "redirect_loop opn args (length args) r i =
     (shift_args args (length args) (length pre), length pre, opn f m)"
  using assms(4)
proof (induction "length pre - i" arbitrary: i)
  case 0
  then have "i = length pre" by simp
  moreover have "redirect_loop opn a (length pre) x (Suc (length pre)) = (a, length pre, x)" for a x
    by (subst redirect_loop.simps) simp
  ultimately show ?case using assms(2,3,5) by (subst redirect_loop.simps) (auto simp: Let_def nth_append)
next
  case (Suc d)
  then have "i < length pre" by simp
  then have "args ! i \<in> set pre" using assms(5) by (simp add: nth_append)
  then have "args ! i \<noteq> ''>''" "args ! i \<noteq> ''>>''" using assms(1) by auto
  moreover have "redirect_loop opn args (length args) r (i + 1) =
     (shift_args args (length args) (length pre), length pre, opn f m)"
    using Suc by simp
  ultimately show ?case using \<open>i < length pre\<close> assms(5) by (subst redirect_loop.simps) (simp add: Let_def)
qed

section \<open>Properties\<close>

text \<open>
  C16: \<open>parse_command\<close> agrees with the reference tokeniser: its arguments are the first 63 blank
  separated words of the line other than \<open>&\<close>, and with fewer than 63 arguments the background
  flag is set exactly when \<open>&\<close> is one of the words. The array of 64 pointers is never overrun.
\<close>

theorem parse_command_words:
  "fst (parse_command line) = take (MAX_ARGS - 1) (filter (\<lambda>w. w \<noteq> ''&'') (words blanks line)) \<and>
   length (fst (parse_command line)) + 1 \<le> MAX_ARGS \<and>
   (length (fst (parse_command line)) + 1 < MAX_ARGS \<longrightarrow>
      snd (parse_command line) = (''&'' \<in> set (words blanks line)))"
proof -
  let ?ws = "words blanks line" and ?f = "filter (\<lambda>w. w \<noteq> ''&'')"
  have p: "parse_command line = (?f (seen 63 ?ws), ''&'' \<in> set (seen 63 ?ws))"
    using parse_loop_words [of "[]" line False] by (simp add: parse_command_def)
  have a: "fst (parse_command line) = take 63 (?f ?ws)" using p by (simp add: seen_args)
  moreover have "snd (parse_command line) = (''&'' \<in> set ?ws)" if "length (take 63 (?f ?ws)) < 63"
  proof -
    have "length (?f ?ws) < 63" using that by (simp split: if_splits)
    then show ?thesis using p seen_all [of ?ws 63] by simp
  qed
  ultimately show ?thesis by (simp add: MAX_ARGS_def)
qed

theorem parse_command_words_witness:
  "parse_command ''sleep  10 &'' = ([''sleep'', ''10''], True)"
proof -
  have w: "words blanks ''sleep  10 &'' = [''sleep'', ''10'', ''&'']"
    by (simp add: words_def blanks_def)
  have "fst (parse_command ''sleep  10 &'') = [''sleep'', ''10'']"
    using parse_command_words [of "''sleep  10 &''"] unfolding w by (simp add: MAX_ARGS_def)
  moreover from this have "snd (parse_command ''sleep  10 &'')"
    using parse_command_words [of "''sleep  10 &''"] unfolding w by (simp add: MAX_ARGS_def)
  ultimately show ?thesis by (simp add: prod_eq_iff)
qed

definition join_args :: "string list \<Rightarrow> string" where
  "join_args ws = concat (map (\<lambda>w. w @ '' '') ws)"

lemma words_join:
  "\<forall>w\<in>set ws. w \<noteq> [] \<and> (\<forall>c\<in>set w. c \<notin> set blanks) \<Longrightarrow> words blanks (join_args ws) = ws"
proof (induction ws)
  case (Cons w ws)
  have "CHR '' '' \<in> set blanks" by (simp add: blanks_def)
  with Cons words_piece(2) [of w blanks "CHR '' ''" "join_args ws"] show ?case by (simp add: join_args_def)
qed (simp add: join_args_def)

text \<open>
  Parsing undoes printing: a command line made of at most 63 words without blanks, written with
  a blank after each word, is parsed back into exactly these words.
\<close>

theorem parse_command_roundtrip:
  assumes "\<forall>w\<in>set ws. w \<noteq> [] \<and> w \<noteq> ''&'' \<and> (\<forall>c\<in>set w. c \<notin> set blanks)" "length ws \<le> MAX_ARGS - 1"
  shows "fst (parse_command (join_args ws)) = ws"
proof -
  have "words blanks (join_args ws) = ws" using assms(1) by (intro words_join) auto
  moreover have "filter (\<lambda>w. w \<noteq> ''&'') ws = ws" using assms(1) by (simp add: filter_id_conv)
  ultimately show ?thesis
    using parse_loop_words [of "[]" "join_args ws" False] assms(2)
    by (simp add: parse_command_def seen_args MAX_ARGS_def)
qed

theorem parse_command_roundtrip_witness:
  "fst (parse_command (join_args [''ls'', ''-l''])) = [''ls'', ''-l''] \<and> join_args [''ls'', ''-l''] = ''ls -l ''"
  using parse_command_roundtrip [of "[''ls'', ''-l'']"] by (simp add: blanks_def MAX_ARGS_def join_args_def)

text \<open>
  Splitting a line at the pipe symbols gives the non-empty pieces between them, in order and
  without leading blanks, at most eleven of them; so a pipeline never needs more than \<open>MAX_PIPES\<close>
  pipes or more children than the arrays have room for, however many symbols the line has.
\<close>

theorem split_pipes_bound:
  "split_pipes line [] = take (MAX_PIPES + 1) (map (dropWhile (\<lambda>c. c = CHR '' '')) (words ''|'' line)) \<and>
   length (split_pipes line []) - 1 \<le> MAX_PIPES \<and> length (split_pipes line []) \<le> count_pipes line + 1"
proof -
  have s: "split_pipes line [] = take 11 (map (dropWhile (\<lambda>c. c = CHR '' '')) (words ''|'' line))"
    using split_pipes_words [of "[]" line] by simp
  moreover have "length (words ''|'' line) \<le> count_pipes line + 1"
    using length_filter_le [of "\<lambda>w. w \<noteq> []" "fields ''|'' line"] length_fields [of line] by (simp add: words_def)
  ultimately show ?thesis by (auto simp: MAX_PIPES_def)
qed

lemma pipeline_descriptors:
  assumes "new_fds fds" "length fds = n - 1" "i < n"
  shows "pipeline_child fds n i t 0 = (if i = 0 then t 0 else Some (Pipe_Read (i - 1))) \<and>
     pipeline_child fds n i t 1 = (if i = n - 1 then t 1 else Some (Pipe_Write i)) \<and>
     (\<forall>x. x \<noteq> 0 \<and> x \<noteq> 1 \<longrightarrow> pipeline_child fds n i t x = (if x \<in> pipe_fds fds then None else t x)) \<and>
     pipeline_parent fds t = (\<lambda>x. if x \<in> pipe_fds fds then None else t x)"
proof -
  have std: "0 \<notin> pipe_fds fds" "1 \<notin> pipe_fds fds" using std_not_pipe [OF assms(1)] by auto
  have ends: "open_pipes fds t (fst (fds ! j)) = Some (Pipe_Read j)"
    "open_pipes fds t (snd (fds ! j)) = Some (Pipe_Write j)" "snd (fds ! j) \<noteq> 0" if "j < n - 1" for j
  proof -
    have j: "j < length fds" using that assms(2) by simp
    show "open_pipes fds t (fst (fds ! j)) = Some (Pipe_Read j)"
      "open_pipes fds t (snd (fds ! j)) = Some (Pipe_Write j)"
      using open_pipes_ends [OF assms(1) j] by auto
    show "snd (fds ! j) \<noteq> 0" using assms(1) nth_mem [OF j] unfolding new_fds_def by fastforce
  qed
  let ?c = "pipeline_child fds n i t"
  have "?c 0 = (if i = 0 then t 0 else Some (Pipe_Read (i - 1)))"
    using std ends(1) [of "i - 1"] open_pipes_other [OF std(1)] assms(3)
    by (simp add: pipeline_child_def child_setup_def Let_def close_pipes_eq dup2_def)
  moreover have "?c 1 = (if i = n - 1 then t 1 else Some (Pipe_Write i))"
  proof (cases "i < n - 1")
    case True
    with std ends(2,3) [OF True] show ?thesis
      by (auto simp: pipeline_child_def child_setup_def Let_def close_pipes_eq dup2_def)
  next
    case False
    then have "i = n - 1" using assms(3) by simp
    with False std open_pipes_other [OF std(2), of t] show ?thesis
      by (auto simp: pipeline_child_def child_setup_def Let_def close_pipes_eq dup2_def)
  qed
  moreover have "?c x = (if x \<in> pipe_fds fds then None else t x)" if "x \<noteq> 0" "x \<noteq> 1" for x
    using that open_pipes_other [of x fds t] by (simp add: pipeline_child_def child_setup_def Let_def close_pipes_eq dup2_def)
  moreover have "pipeline_parent fds t = (\<lambda>x. if x \<in> pipe_fds fds then None else t x)"
    using open_pipes_other by (auto simp: pipeline_parent_def close_pipes_eq)
  ultimately show ?thesis by blast
qed

text \<open>
  A pipeline is connected as intended: child \<open>i\<close> reads from the pipe behind it (the first one
  from the standard input of the shell) and writes to the pipe before it (the last one to the
  standard output), and neither a child nor the shell keeps any other end of a pipe open, so that
  every reader sees the end of its input when its writer ends.
\<close>

theorem pipeline_connected:
  assumes "new_fds fds" "length fds = n - 1" "i < n"
  shows "pipeline_child fds n i t 0 = (if i = 0 then t 0 else Some (Pipe_Read (i - 1))) \<and>
     pipeline_child fds n i t 1 = (if i = n - 1 then t 1 else Some (Pipe_Write i)) \<and>
     (\<forall>x. x \<noteq> 0 \<and> x \<noteq> 1 \<longrightarrow> pipeline_child fds n i t x = (if x \<in> pipe_fds fds then None else t x)) \<and>
     pipeline_parent fds t = (\<lambda>x. if x \<in> pipe_fds fds then None else t x)"
  using pipeline_descriptors [OF assms] by blast

theorem pipeline_connected_witness:
  "pipeline_child [(3, 4), (5, 6)] 3 1 (\<lambda>x. if x < 3 then Some (Terminal x) else None) 0 = Some (Pipe_Read 0) \<and>
   pipeline_child [(3, 4), (5, 6)] 3 1 (\<lambda>x. if x < 3 then Some (Terminal x) else None) 1 = Some (Pipe_Write 1)"
  using pipeline_connected [of "[(3, 4), (5, 6)]" 3 1 "\<lambda>x. if x < 3 then Some (Terminal x) else None"]
  by (simp add: new_fds_def)

text \<open>
  Output redirection does not work. For a command \<open>pre > file post\<close> the first call of
  \<open>extract_redirection\<close> opens the file and cuts the counter, but leaves the array as long as it
  was; the second call, whose result is used, no longer sees the operator. So the output goes to
  the terminal, and the program is run with the operator and the file name among its arguments
  whenever nothing follows them.
\<close>

theorem redirection_lost:
  assumes "\<forall>a\<in>set pre. a \<noteq> ''>'' \<and> a \<noteq> ''>>''" "op = ''>'' \<and> m = Trunc \<or> op = ''>>'' \<and> m = Append"
    and "0 \<le> opn f m" "args = pre @ op # f # post"
    and "extract_redirection opn args (length args) = (args1, n1, fd1)"
    and "extract_redirection opn args1 n1 = (args2, n2, fd2)"
  shows "fd1 = opn f m \<and> fd2 = - 1 \<and> n2 = length pre \<and> length args2 = length args \<and>
     (post = [] \<longrightarrow> args2 = args)"
proof -
  have e: "args1 = shift_args args (length args) (length pre)" "n1 = length pre" "fd1 = opn f m"
    using redirect_loop_found [where r = "- 1" and opn = opn and f = f, OF assms(1-3) le0 assms(4)] assms(5)
    unfolding extract_redirection_def by (metis prod.inject)+
  have "args1 ! k = pre ! k" if "k < length pre" for k
    using that by (simp add: e(1) shift_args_keeps(2) assms(4) nth_append)
  then have "redirect_loop opn args1 n1 (- 1) 0 = (args1, n1, - 1)"
    using assms(1) e(2) by (intro redirect_loop_plain) auto
  then have "args2 = args1" "n2 = n1" "fd2 = - 1" using assms(6) by (simp_all add: extract_redirection_def)
  moreover have "args1 = args" if "post = []"
    using that assms(4) by (simp add: e(1) shift_args.simps)
  ultimately show ?thesis using e by (simp add: shift_args_keeps(1))
qed

theorem redirection_lost_witness:
  "extract_redirection (\<lambda>_ _. 3) [''ls'', ''>'', ''out''] 3 = ([''ls'', ''>'', ''out''], 1, 3) \<and>
   extract_redirection (\<lambda>_ _. 3) [''ls'', ''>'', ''out''] 1 = ([''ls'', ''>'', ''out''], 1, - 1)"
proof -
  let ?args = "[''ls''] @ ''>'' # ''out'' # []"
  have 1: "extract_redirection (\<lambda>_ _. 3) ?args (length ?args) = (?args, 1, 3)"
    by (simp add: extract_redirection_def redirect_loop.simps shift_args.simps)
  have 2: "extract_redirection (\<lambda>_ _. 3) ?args 1 = (?args, 1, - 1)"
    by (simp add: extract_redirection_def redirect_loop.simps)
  have "(- 1 :: int) = - 1 \<and> ?args = ?args"
    using redirection_lost [of "[''ls'']" "''>''" Trunc "\<lambda>_ _. 3" "''out''", OF _ _ _ refl 1 2] by simp
  with 1 2 show ?thesis by (simp add: numeral_3_eq_3)
qed

lemma fgets_line:
  assumes "CHR 0x0A \<notin> set l" "length l + 1 < n"
  shows "fgets n (l @ CHR 0x0A # s) = Some (l, s)"
proof -
  let ?s = "l @ CHR 0x0A # s"
  have t: "take (n - 1) ?s = l @ CHR 0x0A # take (n - 2 - length l) s"
    using assms(2) by (simp add: take_Cons' Suc_diff_Suc numeral_2_eq_2)
  have "takeWhile (\<lambda>c. c \<noteq> CHR 0x0A) (l @ CHR 0x0A # u) = l" for u
    using assms(1) by (subst takeWhile_append2) auto
  then have "takeWhile (\<lambda>c. c \<noteq> CHR 0x0A) (take (n - 1) ?s) = l" unfolding t .
  moreover have "length l < length (take (n - 1) ?s)" unfolding t by simp
  moreover obtain c u where cu: "?s = c # u" by (cases ?s) auto
  have "fgets n ?s = (let w = take (n - 1) ?s; l' = takeWhile (\<lambda>c. c \<noteq> CHR 0x0A) w in
      Some (l', if length l' < length w then drop (length l' + 1) ?s else drop (n - 1) ?s))"
    unfolding cu by (rule fgets.simps(2))
  moreover have "drop (length l + 1) ?s = s" by simp
  ultimately show ?thesis unfolding Let_def by (simp only: if_True)
qed

text \<open>
  The shell works line by line: on an input of lines of at most 1022 characters it does for each
  line what \<open>dispatch\<close> says, in order, and stops after the first line whose first word is
  \<open>exit\<close> or at the end of the input.
\<close>

theorem session_lines:
  assumes "\<forall>l\<in>set ls. CHR 0x0A \<notin> set l \<and> length l + 1 < MAX_CMD_LEN" "\<forall>l\<in>set ls. dispatch l \<noteq> Exit"
    and "CHR 0x0A \<notin> set fin" "length fin + 1 < MAX_CMD_LEN" "dispatch fin = Exit"
  shows "shell_session (concat (map (\<lambda>l. l @ [CHR 0x0A]) ls)) = map dispatch ls \<and>
     shell_session (concat (map (\<lambda>l. l @ [CHR 0x0A]) (ls @ [fin])) @ rest) = map dispatch (ls @ [fin])"
  using assms(1,2)
proof (induction ls)
  case Nil
  show ?case using fgets_line [OF assms(3,4), of rest] assms(5)
    by (simp add: shell_session.simps)
next
  case (Cons l ls)
  then have f: "fgets MAX_CMD_LEN (l @ CHR 0x0A # s) = Some (l, s)" for s by (intro fgets_line) auto
  have "shell_session (l @ CHR 0x0A # s) = dispatch l # shell_session s" for s
    using Cons.prems(2) by (subst shell_session.simps) (simp add: f)
  with Cons show ?case by simp
qed

theorem session_lines_witness:
  "shell_session ''help\<newline>exit\<newline>ls\<newline>'' = [Help, Exit]"
proof -
  have "dispatch ''help'' = Help" "dispatch ''exit'' = Exit"
    using parse_loop_words [of "[]" "''help''" False] parse_loop_words [of "[]" "''exit''" False]
    by (simp_all add: dispatch_def parse_command_def words_def blanks_def Let_def)
  with session_lines [of "[''help'']" "''exit''" "''ls'' @ [CHR 0x0A]"] show ?thesis
    by (simp add: MAX_CMD_LEN_def)
qed

text \<open>
  A pipeline is run on a wild pointer: when the first command has at least eight characters, the
  pointer that \<open>execute_piped_commands\<close> gives to \<open>strtok\<close> for the first child is made of these
  characters and lies above every address of a process, which are below \<open>2^47\<close>.
\<close>

theorem pipeline_wild_pointer:
  assumes "commands = c # cs" "8 \<le> length c" "CHR 0x00 \<notin> set c"
  shows "2 ^ 56 \<le> commands_element junk commands 0"
proof -
  have byte: "command_byte junk commands k = c ! k" if "k < 8" for k
    using that assms(1,2) by (simp add: command_byte_def)
  have "c ! 7 \<in> set c" using assms(2) by simp
  then have "c ! 7 \<noteq> CHR 0x00" using assms(3) by metis
  then have "of_char (c ! 7) \<noteq> (of_char (CHR 0x00) :: nat)" by (simp only: of_char_eq_iff not_False_eq_True)
  then have "1 \<le> (of_char (c ! 7) :: nat)" by simp
  then have "2 ^ 56 \<le> (of_char (c ! 7) :: nat) * 256 ^ 7" by simp
  moreover have "[0..<8] = [0, 1, 2, 3, 4, 5, 6, 7]" by (simp add: upt_rec)
  ultimately show ?thesis using byte [of 7] by (simp add: commands_element_def)
qed

theorem pipeline_wild_pointer_witness:
  "2 ^ 56 \<le> commands_element (\<lambda>_. CHR ''x'') [''ls -l /tmp'', ''wc''] 0"
  by (rule pipeline_wild_pointer [OF refl]) simp_all

text \<open>
  Given the descriptors of its input and output files, \<open>execute_single_command\<close> does what it should:
  the child reads from the one and writes to the other and has no further descriptor of them, and
  the shell closes both.
\<close>

theorem single_command_connected:
  assumes "redir_in = - 1 \<or> 2 < redir_in" "redir_out = - 1 \<or> 2 < redir_out" "redir_in \<noteq> redir_out \<or> redir_in = - 1"
  shows "execute_single_command redir_in redir_out t = (\<lambda>x.
       if x = 0 then (if redir_in = - 1 then t 0 else t (nat redir_in))
       else if x = 1 then (if redir_out = - 1 then t 1 else t (nat redir_out))
       else if int x = redir_in \<or> int x = redir_out then None else t x) \<and>
     single_parent redir_in redir_out t = (\<lambda>x. if int x = redir_in \<or> int x = redir_out then None else t x)"
proof -
  have "\<exists>i. fd = - 1 \<or> fd = int i \<and> 2 < i" if "fd = - 1 \<or> 2 < fd" for fd
    using that by (intro exI [of _ "nat fd"]) auto
  then obtain i j where i: "redir_in = - 1 \<or> redir_in = int i \<and> 2 < i"
    and j: "redir_out = - 1 \<or> redir_out = int j \<and> 2 < j"
    using assms(1,2) by metis
  note defs = execute_single_command_def single_parent_def redirect_fd_def dup2_def close_fd_def Let_def
  from i j assms(3) show ?thesis
    by (elim disjE conjE) (simp_all add: defs fun_eq_iff)
qed

theorem single_command_connected_witness:
  "execute_single_command (- 1) 3 (\<lambda>x. if x < 3 then Some (Terminal x) else if x = 3 then Some (Opened 3) else None) 1 =
     Some (Opened 3)"
  using single_command_connected [of "- 1" 3] by simp

end
