(* ===== verification/Shell_Processes.thy ===== *)
theory Shell_Processes
  imports Mini_Shell
begin

text \<open>
  The processes of \<open>01_processes/mini_shell/shell.c\<close>: \<open>execute_piped_commands\<close> as a step relation of the
  shell and its children, and \<open>execute_single_command\<close> with the failure of \<open>fork\<close>.

  Each process has a table of descriptors; the functions on tables are those of theory \<open>Mini_Shell\<close>.
  What the programs do is a choice of the step relation, except that a program in the set
  \<open>filters\<close> ends only when it has reached the end of its input. A reader of a pipe reaches the end of
  its input when no process has a write end of the pipe open. A process that ends closes all its
  descriptors. \<open>fork\<close> copies the table, \<open>pipe\<close> returns two descriptors that are not in use.
\<close>

section \<open>The code\<close>

datatype shell_pc =
    S_Pipes      \<comment> \<open>in the loop that makes the pipes\<close>
  | S_Fork       \<comment> \<open>in the loop that forks the children\<close>
  | S_Wait nat   \<comment> \<open>in the loop of \<open>waitpid\<close>\<close>
  | S_Returned
  | S_Exited     \<comment> \<open>after \<open>exit (EXIT_FAILURE)\<close>\<close>

datatype child_pc =
    Not_Forked
  | Forked       \<comment> \<open>before its descriptors are set up\<close>
  | Executing    \<comment> \<open>after \<open>execvp\<close>\<close>
  | Exited
  | Reaped       \<comment> \<open>after \<open>waitpid\<close>\<close>

record pipeline =
  shell_at :: shell_pc
  shell_fds :: fd_table
  pipes :: "(nat \<times> nat) list"
  forked :: nat
  child_at :: "nat \<Rightarrow> child_pc"
  child_fds :: "nat \<Rightarrow> fd_table"

definition pipeline_init :: "fd_table \<Rightarrow> pipeline \<Rightarrow> bool" where
  "pipeline_init t s \<longleftrightarrow> s = \<lparr>shell_at = S_Pipes, shell_fds = t, pipes = [], forked = 0,
     child_at = (\<lambda>_. Not_Forked), child_fds = (\<lambda>_ _. None)\<rparr>"

text \<open>A read from descriptor 0 of child \<open>i\<close> returns 0.\<close>

definition end_of_input :: "pipeline \<Rightarrow> nat \<Rightarrow> bool" where
  "end_of_input s i \<longleftrightarrow> (\<forall>j. child_fds s i 0 = Some (Pipe_Read j) \<longrightarrow>
     Some (Pipe_Write j) \<notin> range (shell_fds s) \<and> (\<forall>k. Some (Pipe_Write j) \<notin> range (child_fds s k)))"

definition process_ends :: "nat \<Rightarrow> pipeline \<Rightarrow> pipeline" where
  "process_ends i s = s\<lparr>child_at := (child_at s)(i := Exited), child_fds := (child_fds s)(i := (\<lambda>_. None))\<rparr>"

inductive pipeline_step :: "nat \<Rightarrow> nat set \<Rightarrow> pipeline \<Rightarrow> pipeline \<Rightarrow> bool" for num_commands :: nat and filters :: "nat set" where
  make_pipe: "shell_at s = S_Pipes \<Longrightarrow> length (pipes s) < num_commands - 1 \<Longrightarrow>
    shell_fds s r = None \<Longrightarrow> shell_fds s w = None \<Longrightarrow> r \<noteq> w \<Longrightarrow>
    pipeline_step num_commands filters s
      (s\<lparr>shell_fds := (shell_fds s)(r \<mapsto> Pipe_Read (length (pipes s)), w \<mapsto> Pipe_Write (length (pipes s))),
         pipes := pipes s @ [(r, w)]\<rparr>)"
| pipe_fails: "shell_at s = S_Pipes \<Longrightarrow> length (pipes s) < num_commands - 1 \<Longrightarrow>
    pipeline_step num_commands filters s (s\<lparr>shell_at := S_Exited, shell_fds := (\<lambda>_. None)\<rparr>)"
| pipes_made: "shell_at s = S_Pipes \<Longrightarrow> \<not> length (pipes s) < num_commands - 1 \<Longrightarrow>
    pipeline_step num_commands filters s (s\<lparr>shell_at := S_Fork\<rparr>)"
| fork_child: "shell_at s = S_Fork \<Longrightarrow> forked s < num_commands \<Longrightarrow>
    pipeline_step num_commands filters s
      (s\<lparr>forked := forked s + 1, child_at := (child_at s)(forked s := Forked),
         child_fds := (child_fds s)(forked s := shell_fds s)\<rparr>)"
| fork_fails: "shell_at s = S_Fork \<Longrightarrow> forked s < num_commands \<Longrightarrow>
    pipeline_step num_commands filters s (s\<lparr>shell_at := S_Exited, shell_fds := (\<lambda>_. None)\<rparr>)"
| all_forked: "shell_at s = S_Fork \<Longrightarrow> \<not> forked s < num_commands \<Longrightarrow>
    pipeline_step num_commands filters s (s\<lparr>shell_at := S_Wait 0, shell_fds := close_pipes (pipes s) (shell_fds s)\<rparr>)"
| child_exec: "child_at s i = Forked \<Longrightarrow>
    pipeline_step num_commands filters s
      (s\<lparr>child_at := (child_at s)(i := Executing),
         child_fds := (child_fds s)(i := child_setup (pipes s) num_commands i (child_fds s i))\<rparr>)"
| exec_fails: "child_at s i = Forked \<Longrightarrow> pipeline_step num_commands filters s (process_ends i s)"
| child_ends: "child_at s i = Executing \<Longrightarrow> i \<in> filters \<longrightarrow> end_of_input s i \<Longrightarrow>
    pipeline_step num_commands filters s (process_ends i s)"
| wait_child: "shell_at s = S_Wait i \<Longrightarrow> i < num_commands \<Longrightarrow> child_at s i = Exited \<Longrightarrow>
    pipeline_step num_commands filters s (s\<lparr>shell_at := S_Wait (i + 1), child_at := (child_at s)(i := Reaped)\<rparr>)"
| all_waited: "shell_at s = S_Wait i \<Longrightarrow> \<not> i < num_commands \<Longrightarrow>
    pipeline_step num_commands filters s (s\<lparr>shell_at := S_Returned\<rparr>)"

text \<open>\<open>execute_single_command\<close>: what becomes of the shell, and of the child if there is one.\<close>

datatype shell_outcome =
    Shell_Exits
  | Shell_Continues fd_table

definition single_command :: "int \<Rightarrow> int \<Rightarrow> int \<Rightarrow> fd_table \<Rightarrow> shell_outcome \<times> fd_table option" where
  "single_command fork_ret redir_in redir_out t =
     (if fork_ret < 0 then (Shell_Exits, None)
      else (Shell_Continues (single_parent redir_in redir_out t), Some (execute_single_command redir_in redir_out t)))"

section \<open>The invariant\<close>

text \<open>The table of the shell before the pipeline: standard descriptors, and no ends of pipes.\<close>

definition plain_table :: "fd_table \<Rightarrow> bool" where
  "plain_table t \<longleftrightarrow> finite (dom t) \<and> (\<forall>x<3. t x \<noteq> None) \<and> (\<forall>k. Some (Pipe_Read k) \<notin> range t \<and> Some (Pipe_Write k) \<notin> range t)"

lemma open_pipes_snoc:
  "open_pipes (fds @ [p]) t = (open_pipes fds t)(fst p \<mapsto> Pipe_Read (length fds), snd p \<mapsto> Pipe_Write (length fds))"
proof -
  have "fold (\<lambda>k t. t(fst ((fds @ [p]) ! k) \<mapsto> Pipe_Read k, snd ((fds @ [p]) ! k) \<mapsto> Pipe_Write k)) [0..<length fds] t =
      fold (\<lambda>k t. t(fst (fds ! k) \<mapsto> Pipe_Read k, snd (fds ! k) \<mapsto> Pipe_Write k)) [0..<length fds] t"
    by (intro fold_cong) (auto simp: nth_append)
  then show ?thesis by (simp add: open_pipes_def)
qed

text \<open>The tables of the shell and of child \<open>i\<close>, by where they are.\<close>

fun shell_table :: "(nat \<times> nat) list \<Rightarrow> fd_table \<Rightarrow> shell_pc \<Rightarrow> fd_table" where
  "shell_table fds t S_Pipes = open_pipes fds t"
| "shell_table fds t S_Fork = open_pipes fds t"
| "shell_table fds t S_Exited = (\<lambda>_. None)"
| "shell_table fds t _ = pipeline_parent fds t"

fun child_table :: "(nat \<times> nat) list \<Rightarrow> nat \<Rightarrow> fd_table \<Rightarrow> nat \<Rightarrow> child_pc \<Rightarrow> fd_table" where
  "child_table fds n t i Forked = open_pipes fds t"
| "child_table fds n t i Executing = pipeline_child fds n i t"
| "child_table fds n t i _ = (\<lambda>_. None)"

definition pipes_ok :: "nat \<Rightarrow> fd_table \<Rightarrow> pipeline \<Rightarrow> bool" where
  "pipes_ok n t s \<longleftrightarrow> new_fds (pipes s) \<and> length (pipes s) \<le> n - 1 \<and>
     (shell_at s \<noteq> S_Pipes \<and> shell_at s \<noteq> S_Exited \<longrightarrow> length (pipes s) = n - 1) \<and>
     shell_fds s = shell_table (pipes s) t (shell_at s)"

definition children_ok :: "nat \<Rightarrow> fd_table \<Rightarrow> pipeline \<Rightarrow> bool" where
  "children_ok n t s \<longleftrightarrow> forked s \<le> n \<and> (0 < forked s \<longrightarrow> length (pipes s) = n - 1) \<and>
     (\<forall>k. (child_at s k = Not_Forked \<longleftrightarrow> forked s \<le> k) \<and>
       child_fds s k = child_table (pipes s) n t k (child_at s k))"

definition waits_ok :: "nat \<Rightarrow> pipeline \<Rightarrow> bool" where
  "waits_ok n s \<longleftrightarrow> (shell_at s = S_Pipes \<longrightarrow> forked s = 0) \<and>
     (case shell_at s of S_Wait i \<Rightarrow> forked s = n \<and> (\<forall>k<n. child_at s k = Reaped \<longleftrightarrow> k < i)
       | S_Returned \<Rightarrow> (\<forall>k<n. child_at s k = Reaped)
       | _ \<Rightarrow> (\<forall>k. child_at s k \<noteq> Reaped))"

definition pipeline_inv :: "nat \<Rightarrow> fd_table \<Rightarrow> pipeline \<Rightarrow> bool" where
  "pipeline_inv n t s \<longleftrightarrow> plain_table t \<and> pipes_ok n t s \<and> children_ok n t s \<and> waits_ok n s"

lemma fresh_new_fds:
  assumes "new_fds fds" "plain_table t" "open_pipes fds t r = None" "open_pipes fds t w = None" "r \<noteq> w"
  shows "new_fds (fds @ [(r, w)])"
proof -
  have "3 \<le> x \<and> x \<notin> pipe_fds fds" if x: "open_pipes fds t x = None" for x
  proof -
    have p: "x \<notin> pipe_fds fds"
    proof
      assume "x \<in> pipe_fds fds"
      then obtain k where "k < length fds" "x = fst (fds ! k) \<or> x = snd (fds ! k)"
        by (auto simp: pipe_fds_def in_set_conv_nth)
      with open_pipes_ends [OF assms(1), of k t] x show False by auto
    qed
    then have "t x = None" using open_pipes_other [OF p] x by simp
    then have "\<not> x < 3" using assms(2) unfolding plain_table_def by blast
    with p show ?thesis by simp
  qed
  from this [OF assms(3)] this [OF assms(4)] assms(1,5) show ?thesis
    by (auto simp: new_fds_def pipe_fds_def)
qed

lemma pipes_keep:
  "pipeline_step n F s s' \<Longrightarrow> plain_table t \<Longrightarrow> pipes_ok n t s \<Longrightarrow> pipes_ok n t s'"
proof (induction rule: pipeline_step.induct)
  case (make_pipe s r w)
  then have "shell_fds s = open_pipes (pipes s) t" "new_fds (pipes s)" by (simp_all add: pipes_ok_def)
  moreover from this make_pipe have "new_fds (pipes s @ [(r, w)])" by (intro fresh_new_fds [of _ t]) simp_all
  ultimately show ?case using make_pipe by (simp add: pipes_ok_def open_pipes_snoc)
qed (auto simp: pipes_ok_def process_ends_def pipeline_parent_def)

lemma children_frame:
  "children_ok n t s \<Longrightarrow> forked s' = forked s \<Longrightarrow> pipes s' = pipes s \<Longrightarrow> child_at s' = child_at s \<Longrightarrow>
     child_fds s' = child_fds s \<Longrightarrow> children_ok n t s'"
  by (simp add: children_ok_def)

lemma children_update:
  assumes "children_ok n t s" "child_at s i \<noteq> Not_Forked" "p \<noteq> Not_Forked"
    and "f = child_table (pipes s) n t i p"
  shows "children_ok n t (s\<lparr>child_at := (child_at s)(i := p), child_fds := (child_fds s)(i := f)\<rparr>)"
  using assms unfolding children_ok_def by (simp add: fun_upd_def)

lemma children_keep:
  "pipeline_step n F s s' \<Longrightarrow> pipes_ok n t s \<Longrightarrow> waits_ok n s \<Longrightarrow> children_ok n t s \<Longrightarrow> children_ok n t s'"
proof (induction rule: pipeline_step.induct)
  case (make_pipe s r w)
  then have "forked s = 0" by (simp add: waits_ok_def)
  with make_pipe show ?case by (simp add: children_ok_def)
next
  case (fork_child s)
  then have f: "shell_fds s = open_pipes (pipes s) t" "length (pipes s) = n - 1" by (simp_all add: pipes_ok_def)
  have c: "(child_at s k = Not_Forked \<longleftrightarrow> forked s \<le> k) \<and> child_fds s k = child_table (pipes s) n t k (child_at s k)" for k
    using fork_child(5) unfolding children_ok_def by blast
  have "(((child_at s)(forked s := Forked)) k = Not_Forked \<longleftrightarrow> forked s + 1 \<le> k) \<and>
      ((child_fds s)(forked s := shell_fds s)) k = child_table (pipes s) n t k (((child_at s)(forked s := Forked)) k)" for k
    using c [of k] f(1) by (cases "k = forked s") auto
  with fork_child(2) f(2) show ?case unfolding children_ok_def by simp
next
  case (child_exec s i)
  then have "child_fds s i = open_pipes (pipes s) t" by (simp add: children_ok_def)
  then have "child_setup (pipes s) n i (child_fds s i) = pipeline_child (pipes s) n i t" by (simp add: pipeline_child_def)
  with child_exec show ?case using children_update [of n t s i Executing] by simp
next
  case (exec_fails s i)
  then show ?case unfolding process_ends_def by (intro children_update) simp_all
next
  case (child_ends s i)
  then show ?case unfolding process_ends_def by (intro children_update) simp_all
next
  case (wait_child s i)
  then have "child_fds s i = (\<lambda>_. None)" by (simp add: children_ok_def)
  then have e: "(child_fds s)(i := (\<lambda>_. None)) = child_fds s" by (rule fun_upd_idem)
  have "children_ok n t (s\<lparr>child_at := (child_at s)(i := Reaped), child_fds := (child_fds s)(i := (\<lambda>_. None))\<rparr>)"
    using wait_child by (intro children_update) simp_all
  then have "children_ok n t (s\<lparr>child_at := (child_at s)(i := Reaped)\<rparr>)" unfolding e by (rule children_frame) simp_all
  then show ?case by (rule children_frame) simp_all
qed (rule children_frame, assumption, simp_all)+

lemma waits_keep:
  "pipeline_step n F s s' \<Longrightarrow> children_ok n t s \<Longrightarrow> waits_ok n s \<Longrightarrow> waits_ok n s'"
proof (induction rule: pipeline_step.induct)
  case (all_forked s)
  then have "forked s = n" by (simp add: children_ok_def)
  with all_forked show ?case by (simp add: waits_ok_def)
next
  case (wait_child s i)
  then show ?case by (auto simp: waits_ok_def less_Suc_eq)
next
  case (all_waited s i)
  then show ?case by (auto simp: waits_ok_def)
qed (auto simp: waits_ok_def process_ends_def split: shell_pc.splits)

interpretation pipeline: invariant_of "\<lambda>s. plain_table t \<and> pipeline_init t s" "pipeline_step n F" "pipeline_inv n t"
  for t :: fd_table and n :: nat and F :: "nat set"
proof unfold_locales
  fix s assume "plain_table t \<and> pipeline_init t s"
  then show "pipeline_inv n t s"
    by (simp add: pipeline_init_def pipeline_inv_def pipes_ok_def children_ok_def waits_ok_def open_pipes_def new_fds_def)
next
  fix s s' assume "pipeline_step n F s s'" "pipeline_inv n t s"
  then show "pipeline_inv n t s'"
    unfolding pipeline_inv_def using pipes_keep children_keep waits_keep by metis
qed

section \<open>Ends of pipes\<close>

text \<open>Only child \<open>j\<close> has a write end of pipe \<open>j\<close>, once all processes have set up their descriptors.\<close>

lemma pipe_ends_of_tables:
  assumes "plain_table t" "new_fds fds" "length fds = n - 1" "i < n"
  shows "Some (Pipe_Write j) \<in> range (pipeline_child fds n i t) \<longleftrightarrow> i = j \<and> i \<noteq> n - 1"
    and "Some (Pipe_Read j) \<in> range (pipeline_child fds n i t) \<longleftrightarrow> i = Suc j"
    and "Some (Pipe_Write j) \<notin> range (pipeline_parent fds t)" "Some (Pipe_Read j) \<notin> range (pipeline_parent fds t)"
proof -
  let ?c = "pipeline_child fds n i t"
  have t: "t x \<noteq> Some (Pipe_Read j)" "t x \<noteq> Some (Pipe_Write j)" for x
    using assms(1) unfolding plain_table_def by (metis rangeI)+
  have c: "?c 0 = (if i = 0 then t 0 else Some (Pipe_Read (i - 1)))" "?c 1 = (if i = n - 1 then t 1 else Some (Pipe_Write i))"
    "\<And>x. x \<noteq> 0 \<Longrightarrow> x \<noteq> 1 \<Longrightarrow> ?c x = (if x \<in> pipe_fds fds then None else t x)"
    and p: "pipeline_parent fds t = (\<lambda>x. if x \<in> pipe_fds fds then None else t x)"
    using pipeline_descriptors [OF assms(2-4), of t] by blast+
  have w: "?c x = Some (Pipe_Write j) \<longleftrightarrow> x = 1 \<and> i = j \<and> i \<noteq> n - 1" for x
    using c t by (cases "x = 0"; cases "x = 1") auto
  have r: "?c x = Some (Pipe_Read j) \<longleftrightarrow> x = 0 \<and> i = Suc j" for x
    using c t by (cases "x = 0"; cases "x = 1") auto
  show "Some (Pipe_Write j) \<in> range ?c \<longleftrightarrow> i = j \<and> i \<noteq> n - 1" using w by (metis (no_types, lifting) rangeE rangeI)
  show "Some (Pipe_Read j) \<in> range ?c \<longleftrightarrow> i = Suc j" using r by (metis (no_types, lifting) rangeE rangeI)
  show "Some (Pipe_Write j) \<notin> range (pipeline_parent fds t)" "Some (Pipe_Read j) \<notin> range (pipeline_parent fds t)"
    unfolding p using t [THEN not_sym] by (auto split: if_splits)
qed

text \<open>The state in which the shell waits and no child is about to set up its descriptors.\<close>

definition settled :: "pipeline \<Rightarrow> bool" where
  "settled s \<longleftrightarrow> (\<exists>i. shell_at s = S_Wait i) \<and> (\<forall>k. child_at s k \<noteq> Forked)"

lemma settled_writers:
  assumes "pipeline_inv n t s" "settled s"
  shows "Some (Pipe_Write j) \<notin> range (shell_fds s)"
    and "Some (Pipe_Write j) \<in> range (child_fds s k) \<longleftrightarrow> k = j \<and> child_at s j = Executing \<and> j < n - 1"
    and "Some (Pipe_Read j) \<in> range (child_fds s k) \<longleftrightarrow> k = Suc j \<and> child_at s k = Executing"
proof -
  have inv: "plain_table t" "new_fds (pipes s)" "length (pipes s) = n - 1" "forked s \<le> n"
    "shell_fds s = pipeline_parent (pipes s) t"
    using assms by (auto simp: pipeline_inv_def pipes_ok_def children_ok_def settled_def)
  have ch: "child_at s k = Not_Forked \<longleftrightarrow> forked s \<le> k" "child_fds s k = child_table (pipes s) n t k (child_at s k)" for k
    using assms(1) unfolding pipeline_inv_def children_ok_def by blast+
  have n: "k < n" if "child_at s k = Executing" for k using ch(1) [of k] that inv(4) by (simp add: not_le)
  note ends = pipe_ends_of_tables [OF inv(1-3)]
  show "Some (Pipe_Write j) \<in> range (child_fds s k) \<longleftrightarrow> k = j \<and> child_at s j = Executing \<and> j < n - 1"
  proof (cases "child_at s k = Executing")
    case True
    with ends(1) [OF n [OF True], of j] ch(2) [of k] n [OF True] show ?thesis by auto
  next
    case False
    then have "child_fds s k = (\<lambda>_. None)" using ch(2) [of k] assms(2) by (cases "child_at s k") (auto simp: settled_def)
    with False show ?thesis by auto
  qed
  show "Some (Pipe_Read j) \<in> range (child_fds s k) \<longleftrightarrow> k = Suc j \<and> child_at s k = Executing"
  proof (cases "child_at s k = Executing")
    case True
    with ends(2) [OF n [OF True], of j] ch(2) [of k] show ?thesis by auto
  next
    case False
    then have "child_fds s k = (\<lambda>_. None)" using ch(2) [of k] assms(2) by (cases "child_at s k") (auto simp: settled_def)
    with False show ?thesis by auto
  qed
  show "Some (Pipe_Write j) \<notin> range (shell_fds s)"
  proof (cases n)
    case 0
    then show ?thesis using inv by (auto simp: pipeline_parent_def close_pipes_def open_pipes_def plain_table_def)
  next
    case (Suc m)
    then show ?thesis using ends(3) [of 0 j] inv(5) by simp
  qed
qed

lemma settled_input:
  assumes "pipeline_inv n t s" "settled s" "Suc j < n" "child_at s (Suc j) = Executing"
  shows "end_of_input s (Suc j) \<longleftrightarrow> child_at s j \<noteq> Executing"
proof -
  have "child_fds s (Suc j) = pipeline_child (pipes s) n (Suc j) t" "new_fds (pipes s)" "length (pipes s) = n - 1"
    using assms(1,2,4) by (auto simp: pipeline_inv_def children_ok_def pipes_ok_def settled_def)
  then have "child_fds s (Suc j) 0 = Some (Pipe_Read j)"
    using pipeline_descriptors [of "pipes s" n "Suc j" t] assms(3) by simp
  then show ?thesis
    using settled_writers [OF assms(1,2)] assms(3) by (auto simp: end_of_input_def)
qed

section \<open>Progress\<close>

fun child_rank :: "child_pc \<Rightarrow> nat" where
  "child_rank Not_Forked = 4"
| "child_rank Forked = 3"
| "child_rank Executing = 2"
| "child_rank Exited = 1"
| "child_rank Reaped = 0"

fun shell_rank :: "shell_pc \<Rightarrow> nat" where
  "shell_rank S_Pipes = 3"
| "shell_rank S_Fork = 2"
| "shell_rank (S_Wait i) = 1"
| "shell_rank _ = 0"

definition rank :: "nat \<Rightarrow> pipeline \<Rightarrow> nat" where
  "rank n s = (n - length (pipes s)) + (\<Sum>k<n. child_rank (child_at s k)) + shell_rank (shell_at s)"

lemma rank_child:
  assumes "(i::nat) < n" "child_rank p < child_rank (f i)"
  shows "(\<Sum>k<n. child_rank ((f(i := p)) k)) < (\<Sum>k<n. child_rank (f k))"
  using assms by (intro sum_strict_mono_ex1) auto

lemma finite_open_pipes: "finite (dom t) \<Longrightarrow> finite (dom (open_pipes fds t))"
proof -
  assume "finite (dom t)"
  then have "finite (dom t \<union> pipe_fds fds)" by (simp add: pipe_fds_def)
  moreover have "dom (open_pipes fds t) \<subseteq> dom t \<union> pipe_fds fds"
    using open_pipes_other [of _ fds t] by (auto simp: domIff)
  ultimately show ?thesis by (rule rev_finite_subset)
qed

lemma progress_pipes:
  assumes "pipeline_inv n t s" "shell_at s = S_Pipes"
  shows "\<exists>s'. pipeline_step n F s s' \<and> shell_at s' \<noteq> S_Exited \<and> rank n s' < rank n s"
proof (cases "length (pipes s) < n - 1")
  case True
  have "finite (dom (shell_fds s))"
    using assms finite_open_pipes by (simp add: pipeline_inv_def pipes_ok_def plain_table_def)
  then obtain r w where rw: "r \<notin> dom (shell_fds s)" "w \<notin> insert r (dom (shell_fds s))"
    using ex_new_if_finite [OF infinite_UNIV_nat] by (metis finite_insert)
  from make_pipe [OF assms(2) True, of r w F] rw show ?thesis
    using True assms(2) by (intro exI conjI) (assumption | auto simp: rank_def)+
next
  case False
  with assms(2) pipes_made [of s n F] show ?thesis by (intro exI conjI) (auto simp: rank_def)
qed

lemma progress_fork:
  assumes "pipeline_inv n t s" "shell_at s = S_Fork"
  shows "\<exists>s'. pipeline_step n F s s' \<and> shell_at s' \<noteq> S_Exited \<and> rank n s' < rank n s"
proof (cases "forked s < n")
  case True
  have "child_at s (forked s) = Not_Forked" using assms(1) by (simp add: pipeline_inv_def children_ok_def)
  then have "(\<Sum>k<n. child_rank (((child_at s)(forked s := Forked)) k)) < (\<Sum>k<n. child_rank (child_at s k))"
    using True by (intro rank_child) simp_all
  with fork_child [OF assms(2) True, of F] assms(2) show ?thesis by (intro exI conjI) (assumption | simp add: rank_def)+
next
  case False
  with all_forked [OF assms(2) False, of F] assms(2) show ?thesis by (intro exI conjI) (assumption | simp add: rank_def)+
qed

lemma progress_child:
  assumes "i < n" "shell_at s' = shell_at s" "pipes s' = pipes s" "child_at s' = (child_at s)(i := p)"
    and "child_rank p < child_rank (child_at s i)"
  shows "rank n s' < rank n s"
  using rank_child [OF assms(1), of p "child_at s"] assms(2-5) by (simp add: rank_def)

lemma progress_wait:
  assumes "pipeline_inv n t s" "shell_at s = S_Wait i"
  shows "\<exists>s'. pipeline_step n F s s' \<and> shell_at s' \<noteq> S_Exited \<and> rank n s' < rank n s"
proof (cases "i < n")
  case False
  with all_waited [OF assms(2) False, of F] assms(2) show ?thesis by (intro exI conjI) (assumption | simp add: rank_def)+
next
  case True
  have w: "forked s = n" "\<And>k. k < n \<Longrightarrow> child_at s k = Reaped \<longleftrightarrow> k < i"
    using assms by (auto simp: pipeline_inv_def waits_ok_def)
  have nf: "child_at s k = Not_Forked \<longleftrightarrow> n \<le> k" for k
    using assms(1) w(1) unfolding pipeline_inv_def children_ok_def by blast
  show ?thesis
  proof (cases "\<exists>k. child_at s k = Forked")
    case True
    then obtain k where k: "child_at s k = Forked" "k < n" using nf by (metis child_pc.distinct(1) not_le)
    from child_exec [OF k(1), of n F] k progress_child [OF k(2)] assms(2) show ?thesis
      by (intro exI conjI) (assumption | simp)+
  next
    case none: False
    show ?thesis
    proof (cases "child_at s i = Exited")
      case True
      have "(\<Sum>k<n. child_rank (((child_at s)(i := Reaped)) k)) < (\<Sum>k<n. child_rank (child_at s k))"
        using True \<open>i < n\<close> by (intro rank_child) simp_all
      with wait_child [OF assms(2) \<open>i < n\<close> True, of F] assms(2) show ?thesis
        by (intro exI conjI) (assumption | simp add: rank_def)+
    next
      case False
      then have e: "child_at s i = Executing" using none w(2) [OF \<open>i < n\<close>] nf [of i] \<open>i < n\<close> by (cases "child_at s i") auto
      have "end_of_input s i"
      proof (cases i)
        case 0
        have "child_fds s 0 = pipeline_child (pipes s) n 0 t" "new_fds (pipes s)" "length (pipes s) = n - 1" "plain_table t"
          using assms e 0 by (auto simp: pipeline_inv_def children_ok_def pipes_ok_def)
        then show ?thesis using pipeline_descriptors [of "pipes s" n 0 t] \<open>i < n\<close>
          by (simp add: end_of_input_def 0 plain_table_def) (metis rangeI)
      next
        case (Suc j)
        have "settled s" using none assms(2) by (simp add: settled_def)
        from settled_input [OF assms(1) this, of j] Suc e \<open>i < n\<close> w(2) [of j] show ?thesis by simp
      qed
      with child_ends [OF e, of F n] progress_child [OF \<open>i < n\<close>, of "process_ends i s" s Exited] e assms(2) show ?thesis
        by (intro exI [of _ "process_ends i s"]) (simp add: process_ends_def)
    qed
  qed
qed

text \<open>As long as the pipeline is not finished and no call fails, there is a step that brings it closer to its end.\<close>

lemma pipeline_completes:
  assumes "pipeline_inv n t s" "shell_at s \<noteq> S_Exited"
  shows "\<exists>s'. (pipeline_step n F)\<^sup>*\<^sup>* s s' \<and> shell_at s' = S_Returned"
  using assms
proof (induction "rank n s" arbitrary: s rule: less_induct)
  case less
  show ?case
  proof (cases "shell_at s = S_Returned")
    case False
    with less.prems obtain u where u: "pipeline_step n F s u" "shell_at u \<noteq> S_Exited" "rank n u < rank n s"
      using progress_pipes [OF less.prems(1), of F] progress_fork [OF less.prems(1), of F] progress_wait [OF less.prems(1), of _ F]
      by (cases "shell_at s") auto
    have "pipeline_inv n t u" by (rule pipeline.inv_step [OF u(1) less.prems(1)])
    with less.hyps [OF u(3)] u(1,2) show ?thesis by (meson converse_rtranclp_into_rtranclp)
  qed auto
qed

section \<open>Properties\<close>

text \<open>
  C24: A pipeline always comes to its end. Whatever the children have done so far and whichever of
  them read their input to the end before they exit, \<open>execute_piped_commands\<close> can return from every
  reachable state in which no \<open>pipe\<close> and no \<open>fork\<close> has failed, and when it does, every child has been
  waited for and no end of a pipe is open in the shell. No order of the steps leads into a
  deadlock.
\<close>

theorem pipeline_terminates:
  assumes "plain_table t" "reachable (pipeline_init t) (pipeline_step n F) s" "shell_at s \<noteq> S_Exited"
  shows "\<exists>s'. (pipeline_step n F)\<^sup>*\<^sup>* s s' \<and> shell_at s' = S_Returned \<and> (\<forall>k<n. child_at s' k = Reaped) \<and>
    (\<forall>j. Some (Pipe_Read j) \<notin> range (shell_fds s') \<and> Some (Pipe_Write j) \<notin> range (shell_fds s'))"
proof -
  have inv: "pipeline_inv n t s" using pipeline.reachable_inv [of t n F s] assms(1,2) by simp
  then obtain s' where s': "(pipeline_step n F)\<^sup>*\<^sup>* s s'" "shell_at s' = S_Returned"
    using pipeline_completes [OF inv assms(3)] by blast
  have inv': "pipeline_inv n t s'" by (rule pipeline.steps_inv [OF s'(1) inv])
  then have "shell_fds s' = pipeline_parent (pipes s') t" using s'(2) by (simp add: pipeline_inv_def pipes_ok_def)
  then have "shell_fds s' x = t x \<or> shell_fds s' x = None" for x
    using open_pipes_other by (auto simp: pipeline_parent_def close_pipes_eq)
  then have sub: "Some y \<in> range (shell_fds s') \<Longrightarrow> Some y \<in> range t" for y
    by (metis option.distinct(1) rangeE rangeI)
  have "\<forall>j. Some (Pipe_Read j) \<notin> range (shell_fds s') \<and> Some (Pipe_Write j) \<notin> range (shell_fds s')"
    using assms(1) sub unfolding plain_table_def by blast
  moreover have "\<forall>k<n. child_at s' k = Reaped" using inv' s'(2) by (simp add: pipeline_inv_def waits_ok_def)
  ultimately show ?thesis using s' by blast
qed

definition terminal_table :: fd_table where
  "terminal_table = (\<lambda>x. if x < 3 then Some (Terminal x) else None)"

lemma terminal_plain: "plain_table terminal_table"
proof -
  have "dom terminal_table = {..<3}" by (auto simp: terminal_table_def split: if_splits)
  then have "finite (dom terminal_table)" by simp
  moreover have "\<forall>k. Some (Pipe_Read k) \<notin> range terminal_table \<and> Some (Pipe_Write k) \<notin> range terminal_table"
    by (auto simp: terminal_table_def split: if_splits)
  ultimately show ?thesis by (simp add: plain_table_def terminal_table_def)
qed

theorem pipeline_terminates_witness:
  "\<exists>s'. (pipeline_step 3 {1, 2})\<^sup>*\<^sup>* \<lparr>shell_at = S_Pipes, shell_fds = terminal_table, pipes = [], forked = 0,
      child_at = (\<lambda>_. Not_Forked), child_fds = (\<lambda>_ _. None)\<rparr> s' \<and> shell_at s' = S_Returned \<and> child_at s' 2 = Reaped"
proof -
  let ?s = "\<lparr>shell_at = S_Pipes, shell_fds = terminal_table, pipes = [], forked = 0, child_at = (\<lambda>_. Not_Forked),
      child_fds = (\<lambda>_ _. None)\<rparr>"
  have r: "reachable (pipeline_init terminal_table) (pipeline_step 3 {1, 2}) ?s"
    by (rule reach_init) (simp add: pipeline_init_def)
  have "shell_at ?s \<noteq> S_Exited" by simp
  from pipeline_terminates [OF terminal_plain r this] obtain s' where "(pipeline_step 3 {1, 2})\<^sup>*\<^sup>* ?s s'"
    "shell_at s' = S_Returned" "\<forall>k<3. child_at s' k = Reaped" by blast
  then show ?thesis by (intro exI [of _ s']) simp
qed




text \<open>
  A failure of \<open>fork\<close> ends the shell itself, which does not wait for the children it has already
  started.
\<close>

theorem fork_failure_abandons:
  "\<exists>s. reachable (pipeline_init terminal_table) (pipeline_step 2 {}) s \<and> shell_at s = S_Exited \<and> child_at s 0 = Forked"
proof -
  let ?R = "reachable (pipeline_init terminal_table) (pipeline_step 2 {})"
  let ?a = "\<lparr>shell_at = S_Pipes, shell_fds = terminal_table, pipes = [], forked = 0, child_at = (\<lambda>_. Not_Forked),
      child_fds = (\<lambda>_ _. None)\<rparr>"
  have a: "?R ?a" by (rule reach_init) (simp add: pipeline_init_def)
  let ?T = "terminal_table(3 \<mapsto> Pipe_Read 0, 4 \<mapsto> Pipe_Write 0)"
  let ?b = "?a\<lparr>shell_fds := ?T, pipes := [(3, 4)]\<rparr>"
  have b: "?R ?b" by (rule reach_via [OF a], rule make_pipe [where r = 3 and w = 4]) (simp_all add: terminal_table_def)
  have c: "?R (?b\<lparr>shell_at := S_Fork\<rparr>)" by (rule reach_via [OF b], rule pipes_made) simp_all
  let ?d = "?b\<lparr>shell_at := S_Fork, forked := 1, child_at := (\<lambda>_. Not_Forked)(0 := Forked), child_fds := (\<lambda>_ _. None)(0 := ?T)\<rparr>"
  have d: "?R ?d" by (rule reach_via [OF c], rule fork_child) simp_all
  let ?e = "?d\<lparr>shell_at := S_Exited, shell_fds := (\<lambda>_. None)\<rparr>"
  have e: "?R ?e" by (rule reach_via [OF d], rule fork_fails) simp_all
  show ?thesis by (intro exI [of _ ?e] conjI) (rule e, simp_all)
qed

end
