(* ===== verification/Mmap_Search.thy ===== *)
theory Mmap_Search
  imports Prelude "HOL-Library.Sublist"
begin

text \<open>
  The programs of \<open>02_memory/mmap_playground\<close>. \<open>benchmark.c\<close> counts the occurrences of a word in a
  file in three ways: with \<open>read\<close> into a buffer of 4096 bytes, with \<open>mmap\<close>, and with \<open>mmap\<close> and
  \<open>madvise\<close>; it makes the files itself. \<open>vm_study.c\<close> walks over a mapped file page by page and in
  randomly placed blocks.

  A file is a list of characters. What the operating system does is a parameter: which calls
  succeed, the pieces \<open>read\<close> returns, the page size and the numbers \<open>random\<close> returns. A mapped file is
  readable up to the end of its last page, the bytes behind the end of the file are zero, and an
  access beyond that page is out of bounds. A query is a C string and contains no zero byte.
\<close>

section \<open>The code of \<open>benchmark.c\<close>\<close>

definition ZERO :: char where
  "ZERO = CHR 0x00"

definition read_byte :: "string \<Rightarrow> nat \<Rightarrow> char c_result" where
  "read_byte mem i = (if i < length mem then Inr (mem ! i) else Inl Out_Of_Bounds)"

text \<open>\<open>query[0]\<close>, which is the terminator when the query is empty.\<close>

definition query_first :: "string \<Rightarrow> char" where
  "query_first query = (if query = [] then ZERO else hd query)"

text \<open>
  \<open>strncmp (&mem[i], query, strlen (query)) == 0\<close>: compare byte by byte and stop at the first
  difference. The query has no zero byte, so a zero byte in memory is a difference.
\<close>

fun strncmp_eq :: "string \<Rightarrow> nat \<Rightarrow> string \<Rightarrow> bool c_result" where
  "strncmp_eq mem i [] = Inr True"
| "strncmp_eq mem i (q # query) =
     bind_r (read_byte mem i) (\<lambda>c. if c = q then strncmp_eq mem (i + 1) query else Inr False)"

subsection \<open>Searching with \<open>read\<close>\<close>

text \<open>The body of the inner loop, for index \<open>i\<close> of the bytes that the last \<open>read\<close> has returned.\<close>

definition read_body :: "string \<Rightarrow> string \<Rightarrow> nat \<Rightarrow> int \<Rightarrow> int c_result" where
  "read_body buffer query i matches =
     bind_r (read_byte buffer i) (\<lambda>c.
       if c = query_first query then
         if i + length query \<le> length buffer then
           bind_r (strncmp_eq buffer i query) (\<lambda>eq. if eq then c_int (matches + 1) else Inr matches)
         else Inr matches
       else Inr matches)"

function read_inner :: "string \<Rightarrow> string \<Rightarrow> nat \<Rightarrow> int \<Rightarrow> int c_result" where
  "read_inner buffer query i matches =
     (if i < length buffer
      then bind_r (read_body buffer query i matches) (read_inner buffer query (i + 1))
      else Inr matches)"
  by auto
termination by (relation "measure (\<lambda>(b, q, i, m). length b - i)") auto

text \<open>The outer loop over the pieces that \<open>read\<close> returns until it returns zero or an error.\<close>

fun read_outer :: "string list \<Rightarrow> string \<Rightarrow> int \<Rightarrow> int c_result" where
  "read_outer [] query matches = Inr matches"
| "read_outer (piece # pieces) query matches =
     bind_r (read_inner piece query 0 matches) (read_outer pieces query)"

datatype search_resource = File_Fd | File_Map

text \<open>The value that is returned, and the descriptors and mappings acquired and released.\<close>

definition search_with_read ::
  "bool \<Rightarrow> string list \<Rightarrow> string \<Rightarrow> int c_result \<times> search_resource resource_event list" where
  "search_with_read open_ok pieces query =
     (if \<not> open_ok then (Inr (- 1), [])
      else (read_outer pieces query 0, [Acquire File_Fd, Release File_Fd]))"

subsection \<open>Searching with \<open>mmap\<close>\<close>

text \<open>The loop bound \<open>file_size - strlen (query) + 1\<close>, computed in \<open>size_t\<close>.\<close>

definition loop_bound :: "nat \<Rightarrow> string \<Rightarrow> nat" where
  "loop_bound file_size query = unat (of_nat file_size - of_nat (length query) + 1 :: 64 word)"

definition map_body :: "string \<Rightarrow> string \<Rightarrow> nat \<Rightarrow> int \<Rightarrow> int c_result" where
  "map_body mem query i matches =
     bind_r (read_byte mem i) (\<lambda>c.
       if c = query_first query then
         bind_r (strncmp_eq mem i query) (\<lambda>eq. if eq then c_int (matches + 1) else Inr matches)
       else Inr matches)"

function map_loop :: "string \<Rightarrow> string \<Rightarrow> nat \<Rightarrow> nat \<Rightarrow> int \<Rightarrow> int c_result" where
  "map_loop mem query bound i matches =
     (if i < bound
      then bind_r (map_body mem query i matches) (map_loop mem query bound (i + 1))
      else Inr matches)"
  by auto
termination by (relation "measure (\<lambda>(m, q, b, i, k). b - i)") auto

declare read_inner.simps [simp del] map_loop.simps [simp del]

text \<open>The bytes that can be read through a mapping of the whole file.\<close>

definition mapped :: "nat \<Rightarrow> string \<Rightarrow> string" where
  "mapped page f = f @ replicate ((page - length f mod page) mod page) ZERO"

record search_calls =
  open_ok :: bool
  fstat_ok :: bool
  mmap_ok :: bool

text \<open>\<open>mmap\<close> of no bytes fails.\<close>

definition search_with_mmap ::
  "search_calls \<Rightarrow> nat \<Rightarrow> string \<Rightarrow> string \<Rightarrow> int c_result \<times> search_resource resource_event list" where
  "search_with_mmap x page f query =
     (if \<not> open_ok x then (Inr (- 1), [])
      else if \<not> fstat_ok x then (Inr (- 1), [Acquire File_Fd, Release File_Fd])
      else if \<not> mmap_ok x \<or> f = [] then (Inr (- 1), [Acquire File_Fd, Release File_Fd])
      else (map_loop (mapped page f) query (loop_bound (length f) query) 0 0,
            [Acquire File_Fd, Acquire File_Map, Release File_Map, Release File_Fd]))"

text \<open>\<open>madvise\<close> changes nothing that the program can see.\<close>

definition search_with_mmap_advise ::
  "search_calls \<Rightarrow> nat \<Rightarrow> string \<Rightarrow> string \<Rightarrow> int c_result \<times> search_resource resource_event list" where
  "search_with_mmap_advise x page f query =
     (if \<not> open_ok x then (Inr (- 1), [])
      else if \<not> fstat_ok x then (Inr (- 1), [Acquire File_Fd, Release File_Fd])
      else if \<not> mmap_ok x \<or> f = [] then (Inr (- 1), [Acquire File_Fd, Release File_Fd])
      else (map_loop (mapped page f) query (loop_bound (length f) query) 0 0,
            [Acquire File_Fd, Acquire File_Map, Release File_Map, Release File_Fd]))"

subsection \<open>Making the files\<close>

definition pattern :: string where
  "pattern = ''The quick brown fox jumps over the lazy dog. ''"

lemma length_pattern [simp]: "length pattern = 45"
  by (simp add: pattern_def)

text \<open>The loop of \<open>create_test_file\<close>; the bound \<open>size_mb * 1e6\<close> is exact in a double.\<close>

function test_file_loop :: "nat \<Rightarrow> nat \<Rightarrow> string \<Rightarrow> string" where
  "test_file_loop limit bytes_written f =
     (if bytes_written < limit then
        let to_write = length pattern;
            to_write = (if bytes_written + to_write > limit then limit - bytes_written else to_write)
        in test_file_loop limit (bytes_written + to_write) (f @ take to_write pattern)
      else f)"
  by auto
termination by (relation "measure (\<lambda>(l, b, f). l - b)") (auto simp: Let_def)

declare test_file_loop.simps [simp del]

definition create_test_file :: "nat \<Rightarrow> string" where
  "create_test_file size_mb = test_file_loop (size_mb * 1000000) 0 []"

section \<open>The code of \<open>vm_study.c\<close>\<close>

definition demo_data :: string where
  "demo_data = ''ABCDEFGHIJKLMNOPQRSTUVWXYZ0123456789''"

definition create_demo_file :: "nat \<Rightarrow> string" where
  "create_demo_file sz = map (\<lambda>i. demo_data ! (i mod length demo_data)) [0..<sz]"

text \<open>
  One pass of \<open>demonstrate_page_faults\<close>: the sum of a byte of every page, and the offsets touched.
  A step of zero would never end.
\<close>

partial_function (option) touch_loop ::
  "string \<Rightarrow> nat \<Rightarrow> nat \<Rightarrow> nat \<Rightarrow> 8 word \<Rightarrow> nat list \<Rightarrow> (8 word \<times> nat list) c_result option" where
  [code]: "touch_loop mem file_size page_size i acc touched =
     (if i < file_size then
        case read_byte mem i of
          Inl e \<Rightarrow> Some (Inl e)
        | Inr c \<Rightarrow> touch_loop mem file_size page_size ((i + page_size) mod 2 ^ 64)
                     (acc + of_nat (of_char c)) (touched @ [i])
      else Some (Inr (acc, touched)))"

text \<open>The number of pages that is printed, \<open>(file_size + page_size - 1) / page_size\<close>.\<close>

definition page_count :: "nat \<Rightarrow> nat \<Rightarrow> nat" where
  "page_count file_size page_size = (file_size + page_size - 1) div page_size"

text \<open>\<open>random () % (file_size - 1024)\<close>, computed in \<open>size_t\<close>.\<close>

definition random_offset :: "nat \<Rightarrow> nat \<Rightarrow> nat c_result" where
  "random_offset file_size r =
     (let m = unat (of_nat file_size - 1024 :: 64 word) in
      if m = 0 then Inl Division_By_Zero else Inr (r mod m))"

text \<open>The inner loop over the 1024 bytes of a block of the mapping.\<close>

function block_loop :: "string \<Rightarrow> nat \<Rightarrow> nat \<Rightarrow> 8 word \<Rightarrow> 8 word c_result" where
  "block_loop mem offset j acc =
     (if j < 1024 then bind_r (read_byte mem (offset + j)) (\<lambda>c.
        block_loop mem offset (j + 1) (acc + of_nat (of_char c)))
      else Inr acc)"
  by auto
termination by (relation "measure (\<lambda>(m, p, j, s). 1024 - j)") auto

declare block_loop.simps [simp del]

text \<open>The two methods of \<open>demonstrate_random_access\<close>, for the numbers \<open>random\<close> returns.\<close>

fun random_reads :: "string \<Rightarrow> nat list \<Rightarrow> string list c_result" where
  "random_reads f [] = Inr []"
| "random_reads f (r # rs) =
     bind_r (random_offset (length f) r) (\<lambda>offset.
       bind_r (random_reads f rs) (\<lambda>blocks. Inr (take 1024 (drop offset f) # blocks)))"

fun random_sums :: "nat \<Rightarrow> string \<Rightarrow> nat list \<Rightarrow> 8 word \<Rightarrow> 8 word c_result" where
  "random_sums page f [] acc = Inr acc"
| "random_sums page f (r # rs) acc =
     bind_r (random_offset (length f) r) (\<lambda>offset.
       bind_r (block_loop (mapped page f) offset 0 acc) (random_sums page f rs))"

text \<open>
  \<open>demonstrate_shared_memory\<close> maps the file twice, without looking whether that succeeds, and gives
  both mappings back; \<open>munmap\<close> of a mapping that failed does nothing.
\<close>

definition demonstrate_shared_memory :: "bool \<Rightarrow> bool \<Rightarrow> bool \<Rightarrow> search_resource resource_event list" where
  "demonstrate_shared_memory opened ok1 ok2 =
     (if \<not> opened then []
      else [Acquire File_Fd] @ (if ok1 then [Acquire File_Map] else []) @ (if ok2 then [Acquire File_Map] else []) @
        (if ok1 then [Release File_Map] else []) @ (if ok2 then [Release File_Map] else []) @ [Release File_Fd])"

lemma demonstrate_shared_memory_balanced: "live (demonstrate_shared_memory opened ok1 ok2) [] = Some []"
  by (simp add: demonstrate_shared_memory_def)

section \<open>Counting occurrences\<close>

text \<open>The reference: the number of positions of the text at which the query begins.\<close>

fun occurrences :: "'a list \<Rightarrow> 'a list \<Rightarrow> nat" where
  "occurrences q [] = 0"
| "occurrences q (c # s) = (if prefix q (c # s) then 1 else 0) + occurrences q s"

lemma occurrences_card: "occurrences q s = card {i. i < length s \<and> prefix q (drop i s)}"
proof (induction s)
  case (Cons c s)
  have "{i. i < length (c # s) \<and> prefix q (drop i (c # s))} =
      (if prefix q (c # s) then {0} else {}) \<union> Suc ` {i. i < length s \<and> prefix q (drop i s)}"
    (is "?l = ?r")
  proof (rule set_eqI)
    fix i show "i \<in> ?l \<longleftrightarrow> i \<in> ?r" by (cases i) auto
  qed
  with Cons show ?case by (simp add: card_image card_insert_if image_iff)
qed simp

lemma occurrences_short: "length s < length q \<Longrightarrow> occurrences q s = 0"
  by (induction s) (auto dest: prefix_length_le)

lemma occurrences_append_le: "occurrences q a + occurrences q b \<le> occurrences q (a @ b)"
  by (induction a) (auto dest: prefix_prefix)

lemma occurrences_append_ge:
  "occurrences q (a @ b) \<le> occurrences q a + occurrences q b + min (length a) (length q - 1)"
proof (induction a)
  case (Cons c a)
  show ?case
  proof (cases "prefix q ((c # a) @ b) \<and> \<not> prefix q (c # a)")
    case True
    then have "length (c # a) < length q"
      using prefix_length_prefix [of q "(c # a) @ b" "c # a"] by (metis not_less prefixI)
    with Cons show ?thesis by auto
  next
    case False
    with Cons show ?thesis by auto
  qed
qed simp

lemma occurrences_straddle:
  assumes "u \<noteq> []" "v \<noteq> []"
  shows "occurrences (u @ v) (a @ u) + occurrences (u @ v) (v @ b) < occurrences (u @ v) (a @ u @ v @ b)"
proof (induction a)
  case Nil
  obtain c u' where u: "u = c # u'" using assms(1) by (cases u) auto
  have "\<not> prefix (u @ v) u" using assms(2) by (auto dest: prefix_length_le)
  then show ?case using occurrences_append_le [of "u @ v" u' "v @ b"] u by auto
next
  case (Cons c a)
  have "prefix (u @ v) (c # a @ u) \<Longrightarrow> prefix (u @ v) (c # a @ u @ v @ b)"
    by (metis append_Cons append_assoc prefix_prefix)
  with Cons show ?case by auto
qed

text \<open>A loop whose body adds one at the positions where the query begins.\<close>

lemma count_loop:
  fixes loop body :: "nat \<Rightarrow> int \<Rightarrow> int c_result"
  assumes "\<And>i m. loop i m = (if i < bound then bind_r (body i m) (loop (i + 1)) else Inr m)"
    and "\<And>i m. i < bound \<Longrightarrow> body i m = (if prefix q (drop i s) then c_int (m + 1) else Inr m)"
    and "bound \<le> length s" "occurrences q (drop bound s) = 0"
    and "i \<le> bound" "0 \<le> m" "m + int (occurrences q (drop i s)) \<le> INT_MAX"
  shows "loop i m = Inr (m + int (occurrences q (drop i s)))"
  using assms(5-7)
proof (induction "bound - i" arbitrary: i m)
  case 0
  then show ?case using assms(4) by (simp add: assms(1) [of i])
next
  case (Suc k)
  then have i: "i < bound" "i < length s" using assms(3) by simp_all
  let ?hit = "prefix q (drop i s)"
  have o: "occurrences q (drop i s) = (if ?hit then 1 else 0) + occurrences q (drop (i + 1) s)"
    using i(2) by (simp add: Cons_nth_drop_Suc [symmetric])
  have "body i m = Inr (m + (if ?hit then 1 else 0))"
    using assms(2) [OF i(1)] Suc.prems o by (cases ?hit) (simp_all add: INT_MIN_def)
  then have "loop i m = loop (i + 1) (m + (if ?hit then 1 else 0))" using i(1) by (simp add: assms(1) [of i])
  also have "\<dots> = Inr (m + (if ?hit then 1 else 0) + int (occurrences q (drop (i + 1) s)))"
    using Suc.hyps(1) [of "i + 1" "m + (if ?hit then 1 else 0)"] Suc.hyps(2) Suc.prems i o
    by (cases ?hit) simp_all
  finally show ?case using o by simp
qed

lemma strncmp_prefix:
  "i + length q \<le> length mem \<Longrightarrow> strncmp_eq mem i q = Inr (prefix q (drop i mem))"
proof (induction q arbitrary: i)
  case (Cons c q)
  then have "drop i mem = mem ! i # drop (i + 1) mem" by (simp add: Cons_nth_drop_Suc)
  with Cons show ?case by (simp add: read_byte_def)
qed simp

lemma first_differs:
  "i < length mem \<Longrightarrow> q \<noteq> [] \<Longrightarrow> mem ! i \<noteq> query_first q \<Longrightarrow> \<not> prefix q (drop i mem)"
  by (cases q) (auto simp: query_first_def Cons_nth_drop_Suc [symmetric])

lemma read_body_eq:
  assumes "q \<noteq> []" "i < length b"
  shows "read_body b q i m = (if prefix q (drop i b) then c_int (m + 1) else Inr m)"
proof -
  have "\<not> prefix q (drop i b)" if "\<not> i + length q \<le> length b"
    using that assms(2) by (auto dest: prefix_length_le)
  then show ?thesis
    using assms first_differs [OF assms(2,1)] strncmp_prefix [of i q b]
    by (auto simp: read_body_def read_byte_def)
qed

lemma prefix_append_short: "length q \<le> length a \<Longrightarrow> prefix q (a @ b) \<longleftrightarrow> prefix q a"
  by (meson prefixI prefix_length_prefix prefix_prefix)

lemma map_body_eq:
  assumes "q \<noteq> []" "i + length q \<le> length f"
  shows "map_body (f @ pad) q i m = (if prefix q (drop i f) then c_int (m + 1) else Inr m)"
proof -
  have i: "i < length f" using assms by (cases q) auto
  have "strncmp_eq (f @ pad) i q = Inr (prefix q (drop i f))"
    using strncmp_prefix [of i q "f @ pad"] assms prefix_append_short [of q "drop i f" pad] i by simp
  then show ?thesis
    using i assms first_differs [OF i assms(1)]
    by (auto simp: map_body_def read_byte_def nth_append)
qed

lemma read_inner_counts:
  assumes "q \<noteq> []" "0 \<le> m" "m + int (occurrences q b) \<le> INT_MAX"
  shows "read_inner b q 0 m = Inr (m + int (occurrences q b))"
proof -
  have "read_inner b q 0 m = Inr (m + int (occurrences q (drop 0 b)))"
    by (rule count_loop [where body = "read_body b q" and bound = "length b"], rule read_inner.simps)
      (use assms read_body_eq [OF assms(1)] in simp_all)
  then show ?thesis by simp
qed

lemma map_loop_counts:
  assumes "q \<noteq> []" "length q \<le> length f + 1" "int (occurrences q f) \<le> INT_MAX"
  shows "map_loop (f @ pad) q (length f + 1 - length q) 0 0 = Inr (int (occurrences q f))"
proof -
  let ?b = "length f + 1 - length q"
  have q: "length q > 0" using assms(1) by simp
  then have "occurrences q (drop ?b f) = 0"
    using assms(2) by (intro occurrences_short) (unfold length_drop, linarith)
  moreover have "map_body (f @ pad) q i m = (if prefix q (drop i f) then c_int (m + 1) else Inr m)"
    if "i < ?b" for i m
    using that by (intro map_body_eq [OF assms(1)]) simp
  moreover have "?b \<le> length f" using q by linarith
  ultimately have "map_loop (f @ pad) q ?b 0 0 = Inr (0 + int (occurrences q (drop 0 f)))"
    using assms(3)
    by (intro count_loop [where body = "map_body (f @ pad) q" and bound = ?b], intro map_loop.simps) simp_all
  then show ?thesis by simp
qed

lemma read_outer_counts:
  assumes "q \<noteq> []" "0 \<le> m" "m + int (\<Sum>p\<leftarrow>pieces. occurrences q p) \<le> INT_MAX"
  shows "read_outer pieces q m = Inr (m + int (\<Sum>p\<leftarrow>pieces. occurrences q p))"
  using assms(2,3)
proof (induction pieces arbitrary: m)
  case (Cons p pieces)
  then show ?case using read_inner_counts [OF assms(1), of m p] by simp
qed simp

section \<open>The loop bound\<close>

lemma loop_bound_fits:
  assumes "length q \<le> n + 1" "n + 1 < 2 ^ 64"
  shows "loop_bound n q = n + 1 - length q"
proof -
  have "(of_nat n - of_nat (length q) + 1 :: 64 word) = of_nat (n + 1 - length q)"
    using assms(1) by (simp add: of_nat_diff)
  moreover have "unat (of_nat (n + 1 - length q) :: 64 word) = n + 1 - length q"
    using assms(2) by (intro of_nat_inverse [OF refl]) simp
  ultimately show ?thesis by (simp only: loop_bound_def)
qed

lemma loop_bound_wraps:
  assumes "n + 1 < length q" "length q \<le> 2 ^ 64"
  shows "loop_bound n q = 2 ^ 64 + n + 1 - length q"
proof -
  have "(of_nat (2 ^ 64 + n + 1 - length q) :: 64 word) = of_nat (2 ^ 64 + n + 1) - of_nat (length q)"
    using assms by (intro of_nat_diff) simp
  also have "of_nat (2 ^ 64 + n + 1) = (of_nat n + 1 :: 64 word)" by simp
  finally have "(of_nat n - of_nat (length q) + 1 :: 64 word) = of_nat (2 ^ 64 + n + 1 - length q)" by simp
  moreover have "unat (of_nat (2 ^ 64 + n + 1 - length q) :: 64 word) = 2 ^ 64 + n + 1 - length q"
    using assms by (intro of_nat_inverse [OF refl]) simp
  ultimately show ?thesis by (simp only: loop_bound_def)
qed

lemma read_byte_Inl [simp]: "read_byte mem i = Inl e \<longleftrightarrow> e = Out_Of_Bounds \<and> length mem \<le> i"
  by (auto simp: read_byte_def)

lemma strncmp_True: "strncmp_eq mem i q = Inr True \<Longrightarrow> i \<le> length mem \<Longrightarrow> prefix q (drop i mem)"
proof (induction q arbitrary: i)
  case (Cons c q)
  then have "i < length mem" "mem ! i = c" "strncmp_eq mem (i + 1) q = Inr True"
    by (auto simp: read_byte_def split: if_splits)
  with Cons.IH [of "i + 1"] show ?case by (simp add: Cons_nth_drop_Suc [symmetric])
qed simp

lemma strncmp_Inl: "strncmp_eq mem i q = Inl e \<Longrightarrow> e = Out_Of_Bounds"
  by (induction q arbitrary: i) (auto simp: bind_r_Inl split: if_splits)

text \<open>Without a match the loop runs until it leaves the mapping.\<close>

lemma map_loop_runs_off:
  assumes "\<And>k. k < length mem \<Longrightarrow> \<not> prefix q (drop k mem)" "length mem < bound" "i \<le> length mem"
  shows "map_loop mem q bound i m = Inl Out_Of_Bounds"
  using assms(3)
proof (induction "length mem - i" arbitrary: i)
  case 0
  then show ?case using assms(2) by (subst map_loop.simps) (simp add: map_body_def read_byte_def)
next
  case (Suc k)
  then have i: "i < length mem" by simp
  have "strncmp_eq mem i q \<noteq> Inr True" using strncmp_True assms(1) [OF i] i by fastforce
  then consider "strncmp_eq mem i q = Inr False" | "strncmp_eq mem i q = Inl Out_Of_Bounds"
    using strncmp_Inl by (cases "strncmp_eq mem i q") auto
  then have "map_body mem q i m = Inr m \<or> map_body mem q i m = Inl Out_Of_Bounds"
    using i by cases (simp_all add: map_body_def read_byte_def)
  moreover have "map_loop mem q bound (i + 1) m = Inl Out_Of_Bounds" using Suc by simp
  ultimately show ?case using i assms(2) by (subst map_loop.simps) auto
qed

lemma no_match_in_padding:
  assumes "ZERO \<notin> set q" "length f < length q"
  shows "\<not> prefix q (drop k (f @ replicate n ZERO))"
proof
  assume p: "prefix q (drop k (f @ replicate n ZERO))"
  let ?j = "length f - k"
  have j: "?j < length q" using assms(2) by simp
  have len: "length q \<le> length f + n - k" using prefix_length_le [OF p] by simp
  obtain zs where "drop k (f @ replicate n ZERO) = q @ zs" using p by (elim prefixE)
  with j have "q ! ?j = drop k (f @ replicate n ZERO) ! ?j" by (simp only: nth_append if_True)
  also have "\<dots> = ZERO" using len j by (simp add: nth_append)
  finally show False using assms(1) j nth_mem by metis
qed

section \<open>The contents of the files\<close>

definition repeats :: "string \<Rightarrow> string \<Rightarrow> bool" where
  "repeats p f \<longleftrightarrow> (\<forall>i<length f. f ! i = p ! (i mod length p))"

lemma repeats_append:
  assumes "repeats p f" "length p dvd length f" "n \<le> length p"
  shows "repeats p (f @ take n p)"
proof -
  have "(f @ take n p) ! i = p ! (i mod length p)" if i: "i < length f + n" for i
  proof (cases "i < length f")
    case False
    obtain c where c: "length f = length p * c" using assms(2) by (auto elim: dvdE)
    have "i - length f < length p" using i False assms(3) by simp
    moreover have "i mod length p = (i - length f) mod length p"
      using False c by (metis mod_mult_self2 le_add_diff_inverse2 not_less)
    ultimately show ?thesis using False i by (simp add: nth_append)
  qed (use assms(1) in \<open>simp add: nth_append repeats_def\<close>)
  then show ?thesis by (simp add: repeats_def)
qed

lemma test_file_loop_spec:
  assumes "length f = b" "repeats pattern f" "b \<le> limit" "b = limit \<or> 45 dvd b"
  shows "length (test_file_loop limit b f) = limit \<and> repeats pattern (test_file_loop limit b f)"
  using assms
proof (induction limit b f rule: test_file_loop.induct)
  case (1 limit b f)
  let ?n = "if b + 45 > limit then limit - b else 45"
  show ?case
  proof (cases "b < limit")
    case True
    then have "test_file_loop limit b f = test_file_loop limit (b + ?n) (f @ take ?n pattern)"
      by (subst test_file_loop.simps) (simp add: Let_def)
    moreover have "repeats pattern (f @ take ?n pattern)"
      using 1(2-5) True by (intro repeats_append) auto
    moreover have "length (f @ take ?n pattern) = b + ?n" "b + ?n \<le> limit" "b + ?n = limit \<or> 45 dvd b + ?n"
      using 1(2-5) True by auto
    ultimately show ?thesis using 1(1) [OF True refl refl, unfolded length_pattern] by simp
  qed (use 1 in \<open>simp add: test_file_loop.simps\<close>)
qed

lemma create_test_file_spec:
  "length (create_test_file n) = n * 1000000" "repeats pattern (create_test_file n)"
  using test_file_loop_spec [of "[]" 0 "n * 1000000"] by (simp_all add: create_test_file_def repeats_def)

lemma create_demo_file_spec:
  "length (create_demo_file n) = n" "repeats demo_data (create_demo_file n)"
  by (simp_all add: create_demo_file_def repeats_def)

section \<open>Reading in pieces\<close>

text \<open>What successive calls of \<open>read\<close> return for a regular file: full buffers, then the rest.\<close>

function cut :: "nat \<Rightarrow> 'a list \<Rightarrow> 'a list list" where
  "cut n s = (if n = 0 \<or> s = [] then [] else take n s # cut n (drop n s))"
  by auto
termination by (relation "measure (\<lambda>(n, s). length s)") auto

declare cut.simps [simp del]

lemma concat_cut: "0 < n \<Longrightarrow> concat (cut n s) = s"
proof (induction n s rule: cut.induct)
  case (1 n s)
  then show ?case by (cases "s = []") (simp_all add: cut.simps [of n])
qed

lemma cut_after: "0 < n \<Longrightarrow> \<exists>cs. cut n s = cs @ cut n (drop (k * n) s)"
proof (induction k arbitrary: s)
  case 0
  show ?case by (intro exI [of _ "[]"]) simp
next
  case (Suc k)
  then obtain cs where "cut n (drop n s) = cs @ cut n (drop (k * n) (drop n s))" by blast
  then show ?case using Suc.prems
    by (cases "s = []") (auto simp: cut.simps [of n s] cut.simps [of n "[]"] add.commute intro: exI [of _ "take n s # cs"])
qed

lemma pieces_le: "(\<Sum>p\<leftarrow>ps. occurrences q p) \<le> occurrences q (concat ps)"
proof (induction ps)
  case (Cons p ps)
  then show ?case using occurrences_append_le [of q p "concat ps"] by simp
qed simp

lemma pieces_ge:
  "occurrences q (concat ps) \<le> (\<Sum>p\<leftarrow>ps. occurrences q p) + (length ps - 1) * (length q - 1)"
proof (induction ps)
  case (Cons p ps)
  show ?case
  proof (cases ps)
    case (Cons p' ps')
    with Cons.IH show ?thesis using occurrences_append_ge [of q p "concat ps"] by simp
  qed simp
qed simp

lemma pieces_straddled:
  assumes "u \<noteq> []" "v \<noteq> []"
  shows "(\<Sum>p\<leftarrow>cs @ (a @ u) # (v @ b) # ds. occurrences (u @ v) p) <
    occurrences (u @ v) (concat (cs @ (a @ u) # (v @ b) # ds))"
proof -
  let ?o = "occurrences (u @ v)"
  have "?o (concat cs) + ?o ((a @ u @ v @ b) @ concat ds) \<le> ?o (concat cs @ (a @ u @ v @ b) @ concat ds)"
    by (rule occurrences_append_le)
  moreover have "?o (a @ u @ v @ b) + ?o (concat ds) \<le> ?o ((a @ u @ v @ b) @ concat ds)"
    by (rule occurrences_append_le)
  ultimately show ?thesis
    using occurrences_straddle [OF assms, of a b] pieces_le [of "u @ v" cs] pieces_le [of "u @ v" ds] by simp
qed

text \<open>A boundary between two buffers of a test file that lies behind the first character of a word.\<close>

lemma test_file_boundary:
  assumes "0 < n" "Suc k * 4096 + 4096 \<le> 1000000" "length v \<le> 4096"
    and "pattern ! ((Suc k * 4096 - 1) mod 45) = c" "map (\<lambda>i. pattern ! ((Suc k * 4096 + i) mod 45)) [0..<length v] = v"
  shows "\<exists>cs a b ds. cut 4096 (create_test_file n) = cs @ (a @ [c]) # (v @ b) # ds"
proof -
  define f where "f = create_test_file n"
  define m where "m = k * 4096"
  have m: "Suc k * 4096 = m + 4096" by (simp add: m_def)
  have len: "1000000 \<le> length f" using assms(1) by (simp add: f_def create_test_file_spec)
  have nth: "f ! i = pattern ! (i mod 45)" if "i < 1000000" for i
    using that len create_test_file_spec(2) [of n] by (simp add: f_def repeats_def)
  obtain cs where cs: "cut 4096 f = cs @ cut 4096 (drop m f)" using cut_after [of 4096 f k] by (auto simp: m_def)
  let ?x = "take 4096 (drop m f)" and ?y = "take 4096 (drop (m + 4096) f)"
  have "cut 4096 (drop m f) = ?x # cut 4096 (drop (m + 4096) f)"
    using len assms(2) m by (subst cut.simps) (simp add: add.commute)
  also have "cut 4096 (drop (m + 4096) f) = ?y # cut 4096 (drop (m + 4096 + 4096) f)"
    using len assms(2) m by (subst cut.simps) (simp add: add.commute add.left_commute)
  finally have c: "cut 4096 f = cs @ ?x # ?y # cut 4096 (drop (m + 4096 + 4096) f)" using cs by simp
  have "?x = take 4095 (drop m f) @ [f ! (m + 4095)]"
    using len assms(2) m take_Suc_conv_app_nth [of 4095 "drop m f"] by simp
  moreover have "f ! (m + 4095) = c" using nth [of "m + 4095"] assms(2,4) m by (simp add: add.commute)
  ultimately have x: "?x = take 4095 (drop m f) @ [c]" by simp
  have "take (length v) ?y = map (\<lambda>i. f ! (m + 4096 + i)) [0..<length v]"
    using len assms(2,3) m by (intro nth_equalityI) (simp_all add: min.absorb1)
  also have "\<dots> = map (\<lambda>i. pattern ! ((Suc k * 4096 + i) mod 45)) [0..<length v]"
    using nth assms(2,3) m by (intro map_cong) (simp_all add: add.commute)
  finally have "take (length v) ?y = v" using assms(5) by simp
  then have "?y = v @ drop (length v) ?y" by (metis append_take_drop_id)
  with c x show ?thesis unfolding f_def by metis
qed

text \<open>So the two kinds of search return different numbers for such a word.\<close>

lemma searches_differ:
  assumes "0 < n" "n \<le> 1000" "Suc k * 4096 + 4096 \<le> 1000000" "v \<noteq> []" "length v < 4096"
    and "pattern ! ((Suc k * 4096 - 1) mod 45) = c" "map (\<lambda>i. pattern ! ((Suc k * 4096 + i) mod 45)) [0..<length v] = v"
    and "open_ok x" "fstat_ok x" "mmap_ok x"
  shows "\<exists>r. fst (search_with_read True (cut 4096 (create_test_file n)) (c # v)) = Inr (int r) \<and>
     r < occurrences (c # v) (create_test_file n) \<and>
     fst (search_with_mmap x page (create_test_file n) (c # v)) = Inr (int (occurrences (c # v) (create_test_file n))) \<and>
     fst (search_with_mmap_advise x page (create_test_file n) (c # v)) = Inr (int (occurrences (c # v) (create_test_file n)))"
proof -
  let ?f = "create_test_file n" and ?q = "[c] @ v"
  have len: "length ?f = n * 1000000" by (rule create_test_file_spec)
  have "occurrences ?q ?f \<le> length ?f"
    unfolding occurrences_card by (rule order_trans [OF card_mono [of "{..<length ?f}"]]) auto
  then have small: "int (occurrences ?q ?f) \<le> INT_MAX" using len assms(2) by (simp add: INT_MAX_def)
  obtain cs a b ds where c: "cut 4096 ?f = cs @ (a @ [c]) # (v @ b) # ds"
    using test_file_boundary [OF assms(1,3) less_imp_le [OF assms(5)] assms(6,7)] by blast
  have cf: "concat (cut 4096 ?f) = ?f" by (rule concat_cut) simp
  then have less: "(\<Sum>p\<leftarrow>cut 4096 ?f. occurrences ?q p) < occurrences ?q ?f"
    using pieces_straddled [of "[c]" v cs a b ds] assms(4) unfolding c [symmetric] by simp
  then have "read_outer (cut 4096 ?f) ?q 0 = Inr (0 + int (\<Sum>p\<leftarrow>cut 4096 ?f. occurrences ?q p))"
    using small by (intro read_outer_counts) (simp, simp, linarith)
  moreover have ne: "?f \<noteq> []" using len assms(1) by (metis length_0_conv mult_is_0 not_gr0 zero_neq_numeral)
  have "length ?q \<le> length ?f + 1" using len assms(1,5) by simp
  then have "map_loop (mapped page ?f) ?q (loop_bound (length ?f) ?q) 0 0 = Inr (int (occurrences ?q ?f))"
    using map_loop_counts [of ?q ?f] loop_bound_fits [of ?q "length ?f"] small len assms(2)
    by (simp add: mapped_def)
  ultimately show ?thesis using less ne assms(8-10)
    by (intro exI [of _ "\<Sum>p\<leftarrow>cut 4096 ?f. occurrences ?q p"])
      (simp add: search_with_read_def search_with_mmap_def search_with_mmap_advise_def)
qed

section \<open>Pages and blocks\<close>

lemma page_index: "0 < p \<Longrightarrow> k * p < n \<longleftrightarrow> k < page_count n p"
proof -
  assume p: "0 < p"
  have "k < page_count n p \<longleftrightarrow> Suc k * p \<le> n + p - 1"
    unfolding page_count_def Suc_le_eq [symmetric] by (rule less_eq_div_iff_mult_less_eq [OF p])
  also have "\<dots> \<longleftrightarrow> k * p < n" using p by auto
  finally show ?thesis by simp
qed

lemma touch_loop_pages:
  assumes "0 < page" "n \<le> length mem" "n + page \<le> 2 ^ 64" "k \<le> page_count n page"
  shows "\<exists>s. touch_loop mem n page (k * page) acc touched =
    Some (Inr (s, touched @ map (\<lambda>j. j * page) [k..<page_count n page]))"
  using assms(4)
proof (induction "page_count n page - k" arbitrary: k acc touched)
  case 0
  then have "\<not> k * page < n" using page_index [OF assms(1)] by simp
  with 0 show ?case by (subst touch_loop.simps) simp
next
  case (Suc d)
  then have k: "k < page_count n page" by simp
  then have i: "k * page < n" using page_index [OF assms(1)] by simp
  then have "(k * page + page) mod 2 ^ 64 = Suc k * page" using assms(3) by simp
  moreover from Suc.hyps(1) [of "Suc k"] Suc.hyps(2) k obtain s where
    "touch_loop mem n page (Suc k * page) (acc + of_nat (of_char (mem ! (k * page)))) (touched @ [k * page]) =
       Some (Inr (s, (touched @ [k * page]) @ map (\<lambda>j. j * page) [Suc k..<page_count n page]))"
    by (metis Suc_leI Suc_diff_Suc diff_Suc_1)
  ultimately show ?case
    using i assms(2) k by (subst touch_loop.simps) (simp add: read_byte_def upt_conv_Cons)
qed

definition byte_sum :: "string \<Rightarrow> 8 word" where
  "byte_sum s = (\<Sum>c\<leftarrow>s. of_nat (of_char c))"

lemma byte_sum_simps [simp]: "byte_sum [] = 0" "byte_sum (c # s) = of_nat (of_char c) + byte_sum s"
  by (simp_all add: byte_sum_def)

lemma block_loop_sum:
  assumes "offset + 1024 \<le> length f" "j \<le> 1024"
  shows "block_loop (f @ pad) offset j acc = Inr (acc + byte_sum (drop j (take 1024 (drop offset f))))"
  using assms(2)
proof (induction "1024 - j" arbitrary: j acc)
  case 0
  then show ?case by (subst block_loop.simps) simp
next
  case (Suc d)
  let ?t = "take 1024 (drop offset f)"
  have j: "j < length ?t" using Suc.hyps(2) assms(1) by simp
  have "block_loop (f @ pad) offset j acc = block_loop (f @ pad) offset (j + 1) (acc + of_nat (of_char (f ! (offset + j))))"
    using j assms(1) by (subst block_loop.simps) (simp add: read_byte_def nth_append)
  also have "\<dots> = Inr (acc + of_nat (of_char (f ! (offset + j))) + byte_sum (drop (j + 1) ?t))"
    using Suc.hyps(1) [of "j + 1"] Suc.hyps(2) by simp
  also have "byte_sum (drop j ?t) = of_nat (of_char (f ! (offset + j))) + byte_sum (drop (j + 1) ?t)"
    unfolding Cons_nth_drop_Suc [OF j, symmetric] using j assms(1) by simp
  then have "acc + of_nat (of_char (f ! (offset + j))) + byte_sum (drop (j + 1) ?t) = acc + byte_sum (drop j ?t)"
    by (simp add: add.assoc)
  finally show ?case .
qed

lemma random_modulus:
  assumes "1024 \<le> n" "n < 2 ^ 64"
  shows "unat (of_nat n - 1024 :: 64 word) = n - 1024"
proof -
  have "(of_nat n - 1024 :: 64 word) = of_nat (n - 1024)" using assms(1) by (simp add: of_nat_diff)
  with assms(2) show ?thesis by (simp only:) (intro of_nat_inverse [OF refl], simp)
qed

lemma random_modulus_small:
  assumes "n < 1024"
  shows "unat (of_nat n - 1024 :: 64 word) = 2 ^ 64 + n - 1024"
proof -
  have "(of_nat (2 ^ 64 + n - 1024) :: 64 word) = of_nat (2 ^ 64 + n) - of_nat 1024"
    by (intro of_nat_diff) simp
  also have "\<dots> = of_nat n - 1024" by simp
  finally show ?thesis using assms by (intro of_nat_inverse) simp_all
qed

lemma random_offset_inside:
  assumes "1024 < n" "n < 2 ^ 64"
  shows "\<exists>offset. random_offset n r = Inr offset \<and> offset + 1024 < n"
proof -
  have "r mod (n - 1024) < n - 1024" using assms(1) by simp
  then have "r mod (n - 1024) + 1024 < n" by linarith
  with assms random_modulus [of n] show ?thesis by (simp add: random_offset_def Let_def)
qed

lemma random_passes:
  assumes "1024 < length f" "length f < 2 ^ 64"
  shows "\<exists>blocks. random_reads f rs = Inr blocks \<and> length blocks = length rs \<and>
     (\<forall>b\<in>set blocks. length b = 1024) \<and> random_sums page f rs acc = Inr (acc + byte_sum (concat blocks))"
proof (induction rs arbitrary: acc)
  case (Cons r rs)
  obtain p where p: "random_offset (length f) r = Inr p" "p + 1024 < length f"
    using random_offset_inside [OF assms] by blast
  have "block_loop (mapped page f) p 0 acc = Inr (acc + byte_sum (take 1024 (drop p f)))"
    using block_loop_sum [of p f 0] p(2) by (simp add: mapped_def)
  moreover obtain blocks where "random_reads f rs = Inr blocks" "length blocks = length rs"
      "\<forall>b\<in>set blocks. length b = 1024" "random_sums page f rs (acc + byte_sum (take 1024 (drop p f))) =
        Inr (acc + byte_sum (take 1024 (drop p f)) + byte_sum (concat blocks))"
    using Cons.IH by blast
  ultimately show ?case
    using p by (intro exI [of _ "take 1024 (drop p f) # blocks"]) (simp add: byte_sum_def add.assoc)
qed simp

section \<open>Properties\<close>



text \<open>
  The search with \<open>read\<close> counts the occurrences that lie within one piece. It never counts too
  many, and it misses less than the length of the query at each boundary between two pieces.
\<close>

theorem read_search_bounds:
  assumes "query \<noteq> []" "int (occurrences query (concat pieces)) \<le> INT_MAX"
  shows "\<exists>n. fst (search_with_read True pieces query) = Inr (int n) \<and> n = (\<Sum>p\<leftarrow>pieces. occurrences query p) \<and>
     n \<le> occurrences query (concat pieces) \<and>
     occurrences query (concat pieces) \<le> n + (length pieces - 1) * (length query - 1)"
  using read_outer_counts [OF assms(1), of 0 pieces] pieces_le [of query pieces] pieces_ge [of query pieces] assms(2)
  by (simp add: search_with_read_def)

theorem read_search_bounds_witness:
  "\<exists>n. fst (search_with_read True [''xqu'', ''ick''] ''quick'') = Inr (int n) \<and> n = 0 \<and>
     occurrences ''quick'' ''xquick'' \<le> n + 4"
  using read_search_bounds [of "''quick''" "[''xqu'', ''ick'']"] by (simp add: INT_MAX_def)

text \<open>
  The benchmark compares searches that do not find the same. On every test file it makes, when
  \<open>read\<close> fills the buffer of 4096 bytes, the search with \<open>read\<close> for \<open>quick\<close> returns less than the
  search with \<open>mmap\<close>, because the end of the fifth buffer cuts the word in two.
\<close>

theorem benchmark_counts_differ:
  assumes "0 < size_mb" "size_mb \<le> 1000" "open_ok x" "fstat_ok x" "mmap_ok x"
  shows "\<exists>r m. fst (search_with_read True (cut 4096 (create_test_file size_mb)) ''quick'') = Inr r \<and>
     fst (search_with_mmap x page (create_test_file size_mb) ''quick'') = Inr m \<and> r < m"
proof -
  have "pattern ! ((Suc 4 * 4096 - 1) mod 45) = CHR ''q''"
    "map (\<lambda>i. pattern ! ((Suc 4 * 4096 + i) mod 45)) [0..<length ''uick''] = ''uick''"
    by (simp_all add: pattern_def upt_rec)
  from searches_differ [OF assms(1,2) _ _ _ this assms(3-5), of page] show ?thesis by force
qed

theorem benchmark_counts_differ_witness:
  "\<exists>r m. fst (search_with_read True (cut 4096 (create_test_file 1)) ''quick'') = Inr r \<and>
     fst (search_with_mmap \<lparr>open_ok = True, fstat_ok = True, mmap_ok = True\<rparr> 4096 (create_test_file 1) ''quick'') = Inr m \<and>
     r < m"
  using benchmark_counts_differ [of 1 "\<lparr>open_ok = True, fstat_ok = True, mmap_ok = True\<rparr>"] by simp

text \<open>
  When the query is longer than the file by two or more characters, \<open>file_size - strlen (query) + 1\<close>
  wraps around to a huge bound, and both searches through a mapping read behind the mapping; the
  search with \<open>read\<close> returns 0 for the same file. For an empty file, which cannot be mapped, they
  return \<open>-1\<close>, and the search with \<open>read\<close> again 0.
\<close>

theorem mmap_short_file_overrun:
  assumes "length f + 1 < length query" "ZERO \<notin> set query" "length query + page < 2 ^ 64" "0 < page"
    and "open_ok x" "fstat_ok x" "mmap_ok x"
  shows "fst (search_with_read True (cut 4096 f) query) = Inr 0 \<and>
     (if f = [] then fst (search_with_mmap x page f query) = Inr (- 1)
      else fst (search_with_mmap x page f query) = Inl Out_Of_Bounds \<and>
           fst (search_with_mmap_advise x page f query) = Inl Out_Of_Bounds)"
proof -
  have q: "query \<noteq> []" using assms(1) by auto
  have zero: "occurrences query f = 0" using assms(1) by (intro occurrences_short) simp
  then have s: "(\<Sum>p\<leftarrow>cut 4096 f. occurrences query p) = 0"
    using pieces_le [of query "cut 4096 f"] concat_cut [of 4096 f] by simp
  have "read_outer (cut 4096 f) query 0 = Inr 0"
    using read_outer_counts [OF q, of 0 "cut 4096 f"] unfolding s by (simp add: INT_MAX_def)
  moreover have "length (mapped page f) < loop_bound (length f) query"
  proof -
    have "(page - length f mod page) mod page < page" using assms(4) by simp
    then have "length (mapped page f) < length f + page" by (simp add: mapped_def)
    moreover have "length f + page < 2 ^ 64 + length f + 1 - length query" using assms(3) by linarith
    ultimately show ?thesis using loop_bound_wraps [OF assms(1)] assms(3) by simp
  qed
  then have "map_loop (mapped page f) query (loop_bound (length f) query) 0 0 = Inl Out_Of_Bounds"
    using no_match_in_padding [OF assms(2)] assms(1)
    by (intro map_loop_runs_off) (simp_all add: mapped_def)
  ultimately show ?thesis
    using assms(5-7) by (simp add: search_with_read_def search_with_mmap_def search_with_mmap_advise_def)
qed

theorem mmap_short_file_overrun_witness:
  "fst (search_with_mmap \<lparr>open_ok = True, fstat_ok = True, mmap_ok = True\<rparr> 4096 ''ab'' ''lazy'') = Inl Out_Of_Bounds"
  using mmap_short_file_overrun [of "''ab''" "''lazy''" 4096 "\<lparr>open_ok = True, fstat_ok = True, mmap_ok = True\<rparr>"]
  by (simp add: ZERO_def)

text \<open>
  A pass of \<open>demonstrate_page_faults\<close> ends and touches every page of the mapping exactly once,
  in order, at its first byte; their number is the one that is printed.
\<close>

theorem page_pass_touches_all:
  assumes "0 < page" "length f + page \<le> 2 ^ 64"
  shows "\<exists>s touched. touch_loop (mapped page f) (length f) page 0 acc [] = Some (Inr (s, touched)) \<and>
     map (\<lambda>i. i div page) touched = [0..<page_count (length f) page] \<and> (\<forall>i\<in>set touched. i mod page = 0)"
proof -
  obtain s where "touch_loop (mapped page f) (length f) page (0 * page) acc [] =
      Some (Inr (s, [] @ map (\<lambda>j. j * page) [0..<page_count (length f) page]))"
    using touch_loop_pages [of page "length f" "mapped page f" 0 acc "[]"] assms by (auto simp: mapped_def)
  then show ?thesis using assms(1) by (auto simp: comp_def)
qed

theorem page_pass_touches_all_witness:
  "\<exists>s touched. touch_loop (mapped 2 ''abcde'') 5 2 0 0 [] = Some (Inr (s, touched)) \<and>
     map (\<lambda>i. i div 2) touched = [0, 1, 2]"
proof -
  have p: "0 < (2::nat)" "length ''abcde'' + 2 \<le> 2 ^ 64" "length ''abcde'' = 5" by simp_all
  from page_pass_touches_all [OF p(1,2), of 0] obtain s t where
    "touch_loop (mapped 2 ''abcde'') 5 2 0 0 [] = Some (Inr (s, t))"
    "map (\<lambda>i. i div 2) t = [0..<page_count 5 2]" unfolding p(3) by blast
  moreover have "[0..<page_count 5 2] = [0, 1, 2]" by (simp add: page_count_def upt_rec)
  ultimately show ?thesis by auto
qed

text \<open>
  The random accesses of \<open>vm_study.c\<close>. In a file of more than 1024 bytes all blocks lie within the
  file, whatever \<open>random\<close> returns, and the pass over the mapping adds up exactly the bytes that the
  pass with \<open>lseek\<close> and \<open>read\<close> gets for the same numbers. A file of 1024 bytes leads to a division by
  zero, and in a smaller one the difference wraps around, so that a number from the size of the
  mapping on is used as an offset as it is and the mapping is left.
\<close>

theorem random_access_bounds:
  assumes "length f < 2 ^ 63" "r < 2 ^ 63" "length (mapped page f) \<le> r"
  shows "if 1024 < length f then
       \<exists>blocks. random_reads f rs = Inr blocks \<and> length blocks = length rs \<and> (\<forall>b\<in>set blocks. length b = 1024) \<and>
         random_sums page f rs acc = Inr (acc + byte_sum (concat blocks))
     else if length f = 1024 then random_sums page f (r # rs) acc = Inl Division_By_Zero
     else random_sums page f (r # rs) acc = Inl Out_Of_Bounds"
proof -
  have "random_sums page f (r # rs) acc = Inl Out_Of_Bounds" if "length f < 1024"
  proof -
    have "random_offset (length f) r = Inr r"
      using random_modulus_small [OF that] assms(2) by (simp add: random_offset_def Let_def)
    moreover have "block_loop (mapped page f) r 0 acc = Inl Out_Of_Bounds"
      using assms(3) by (subst block_loop.simps) (simp add: read_byte_def)
    ultimately show ?thesis by simp
  qed
  moreover have "random_sums page f (r # rs) acc = Inl Division_By_Zero" if "length f = 1024"
    using that by (simp add: random_offset_def)
  moreover have "length f < 2 ^ 64" using assms(1) by simp
  ultimately show ?thesis using random_passes by simp
qed

theorem random_access_bounds_witness:
  "random_sums 4096 (create_demo_file 1000) [5000] 0 = Inl Out_Of_Bounds"
  using random_access_bounds [of "create_demo_file 1000" 5000 4096 "[]" 0]
  by (simp add: create_demo_file_spec mapped_def)

end
