(* ===== verification/Mmap_Programs.thy ===== *)
theory Mmap_Programs
  imports Mmap_Search
begin

text \<open>
  The main functions of \<open>02_memory/mmap_playground\<close>: \<open>benchmark\<close> and \<open>main\<close> of \<open>benchmark.c\<close>, and the three
  demonstrations and \<open>main\<close> of \<open>vm_study.c\<close>, on a file system that maps names to contents. Time
  measurement and output are left out, except for the numbers that are printed as results.
\<close>

type_synonym file_system = "string \<Rightarrow> string option"

section \<open>\<open>benchmark.c\<close>\<close>

text \<open>
  A loop of \<open>benchmark\<close>: the search is called once per iteration, with the results that the system
  calls have in it, and the result of the last iteration is kept.
\<close>

fun repeat_search ::
  "('x \<Rightarrow> int c_result \<times> search_resource resource_event list) \<Rightarrow> 'x list \<Rightarrow> int \<Rightarrow> (int \<times> search_resource resource_event list) c_result" where
  "repeat_search search [] matches = Inr (matches, [])"
| "repeat_search search (x # xs) matches =
     bind_r (fst (search x)) (\<lambda>matches.
     bind_r (repeat_search search xs matches) (\<lambda>(r, es). Inr (r, snd (search x) @ es)))"

text \<open>
  The system calls of a run: for every iteration of the first loop whether \<open>open\<close> succeeds and what
  \<open>read\<close> returns, for the others the results of \<open>open\<close>, \<open>fstat\<close> and \<open>mmap\<close>. A file that does not exist
  cannot be opened.
\<close>

record benchmark_calls =
  read_calls :: "nat \<Rightarrow> bool \<times> string list"
  mmap_calls :: "nat \<Rightarrow> search_calls"
  advise_calls :: "nat \<Rightarrow> search_calls"

definition benchmark ::
  "file_system \<Rightarrow> string \<Rightarrow> string \<Rightarrow> nat \<Rightarrow> nat \<Rightarrow> benchmark_calls \<Rightarrow> ((int \<times> int \<times> int) \<times> search_resource resource_event list) c_result" where
  "benchmark fs filename query iterations page c =
     (let exists = (fs filename \<noteq> None); f = (case fs filename of None \<Rightarrow> [] | Some f \<Rightarrow> f) in
      bind_r (repeat_search (\<lambda>(ok, pieces). search_with_read (ok \<and> exists) pieces query) (map (read_calls c) [0..<iterations]) 0) (\<lambda>(matches_read, es1).
      bind_r (repeat_search (\<lambda>x. search_with_mmap (x\<lparr>open_ok := open_ok x \<and> exists\<rparr>) page f query) (map (mmap_calls c) [0..<iterations]) 0) (\<lambda>(matches_mmap, es2).
      bind_r (repeat_search (\<lambda>x. search_with_mmap_advise (x\<lparr>open_ok := open_ok x \<and> exists\<rparr>) page f query) (map (advise_calls c) [0..<iterations]) 0) (\<lambda>(matches_advise, es3).
        Inr ((matches_read, matches_mmap, matches_advise), es1 @ es2 @ es3)))))"

definition small_file :: string where
  "small_file = ''/tmp/test_small.txt''"

definition medium_file :: string where
  "medium_file = ''/tmp/test_medium.txt''"

text \<open>\<open>create_test_file\<close> leaves the file system as it is when \<open>fopen\<close> fails.\<close>

definition store_test_file :: "bool \<Rightarrow> string \<Rightarrow> nat \<Rightarrow> file_system \<Rightarrow> file_system" where
  "store_test_file fopen_ok filename size_mb fs =
     (if fopen_ok then fs(filename \<mapsto> create_test_file size_mb) else fs)"

definition benchmark_main ::
  "bool \<Rightarrow> bool \<Rightarrow> nat \<Rightarrow> benchmark_calls \<Rightarrow> benchmark_calls \<Rightarrow> file_system \<Rightarrow>
     ((int \<times> int \<times> int) list \<times> search_resource resource_event list \<times> file_system) c_result" where
  "benchmark_main fopen1 fopen2 page c1 c2 fs =
     (let fs = store_test_file fopen1 small_file 1 fs; fs = store_test_file fopen2 medium_file 10 fs in
      bind_r (benchmark fs small_file ''quick'' 100 page c1) (\<lambda>(r1, es1).
      bind_r (benchmark fs medium_file ''lazy'' 10 page c2) (\<lambda>(r2, es2).
        Inr ([r1, r2], es1 @ es2, fs(small_file := None, medium_file := None)))))"

section \<open>\<open>vm_study.c\<close>\<close>







section \<open>Loops of searches\<close>

lemma repeat_search_last:
  assumes "\<forall>x\<in>set xs. fst (search x) = Inr v"
  shows "repeat_search search xs m = Inr (if xs = [] then m else v, concat (map (\<lambda>x. snd (search x)) xs))"
  using assms by (induction xs arbitrary: m) (auto simp del: bind_r_Inr)

lemma searches_balanced:
  "live (snd (search_with_read ok pieces q)) [] = Some []" "live (snd (search_with_mmap x page f q)) [] = Some []"
  "live (snd (search_with_mmap_advise x page f q)) [] = Some []"
  by (simp_all add: search_with_read_def search_with_mmap_def search_with_mmap_advise_def)

text \<open>The calls of a run in which everything succeeds and \<open>read\<close> fills its buffer of 4096 bytes.\<close>

definition succeeds :: "search_calls \<Rightarrow> bool" where
  "succeeds x \<longleftrightarrow> open_ok x \<and> fstat_ok x \<and> mmap_ok x"

definition smooth :: "string \<Rightarrow> benchmark_calls \<Rightarrow> bool" where
  "smooth f c \<longleftrightarrow> (\<forall>i. read_calls c i = (True, cut 4096 f) \<and> succeeds (mmap_calls c i) \<and> succeeds (advise_calls c i))"

lemma benchmark_smooth:
  assumes "fs name = Some f" "smooth f c" "0 < n" "fst (search_with_read True (cut 4096 f) q) = Inr r"
    and "\<And>x. open_ok x \<Longrightarrow> fstat_ok x \<Longrightarrow> mmap_ok x \<Longrightarrow> fst (search_with_mmap x page f q) = Inr k"
    and "\<And>x. open_ok x \<Longrightarrow> fstat_ok x \<Longrightarrow> mmap_ok x \<Longrightarrow> fst (search_with_mmap_advise x page f q) = Inr k"
  shows "\<exists>es. benchmark fs name q n page c = Inr ((r, k, k), es) \<and> live es [] = Some []"
proof -
  let ?s1 = "\<lambda>(ok, pieces). search_with_read (ok \<and> fs name \<noteq> None) pieces q"
  let ?s2 = "\<lambda>x. search_with_mmap (x\<lparr>open_ok := open_ok x \<and> fs name \<noteq> None\<rparr>) page f q"
  let ?s3 = "\<lambda>x. search_with_mmap_advise (x\<lparr>open_ok := open_ok x \<and> fs name \<noteq> None\<rparr>) page f q"
  let ?e1 = "concat (map (\<lambda>x. snd (?s1 x)) (map (read_calls c) [0..<n]))" and ?e2 = "concat (map (\<lambda>x. snd (?s2 x)) (map (mmap_calls c) [0..<n]))"
    and ?e3 = "concat (map (\<lambda>x. snd (?s3 x)) (map (advise_calls c) [0..<n]))"
  have ne: "[0..<n] \<noteq> []" using assms(3) by simp
  have "repeat_search ?s1 (map (read_calls c) [0..<n]) 0 = Inr (r, ?e1)"
    using assms(1,2,4) ne by (subst repeat_search_last [where v = r]) (auto simp: smooth_def succeeds_def)
  moreover have "repeat_search ?s2 (map (mmap_calls c) [0..<n]) 0 = Inr (k, ?e2)"
    using assms(1,2) ne by (subst repeat_search_last [where v = k]) (auto simp: smooth_def succeeds_def intro!: assms(5))
  moreover have "repeat_search ?s3 (map (advise_calls c) [0..<n]) 0 = Inr (k, ?e3)"
    using assms(1,2) ne by (subst repeat_search_last [where v = k]) (auto simp: smooth_def succeeds_def intro!: assms(6))
  ultimately have "benchmark fs name q n page c = Inr ((r, k, k), ?e1 @ ?e2 @ ?e3)"
    using assms(1) by (simp add: benchmark_def Let_def del: bind_r_Inr)
  moreover have "live ?e1 [] = Some []" "live ?e2 [] = Some []" "live ?e3 [] = Some []"
    by (intro live_concat; auto simp: searches_balanced split: prod.splits)+
  then have "live (?e1 @ ?e2 @ ?e3) [] = Some []" by (simp add: live_append)
  ultimately show ?thesis by blast
qed







lemma file_names [simp]: "small_file \<noteq> medium_file" "medium_file \<noteq> small_file"
  by (simp_all add: small_file_def medium_file_def)

section \<open>Properties\<close>

text \<open>
  \<open>benchmark.c\<close> as a whole, when its calls succeed and \<open>read\<close> fills its buffers: the program ends, it
  removes its files and gives back every descriptor and mapping, and in each of its two reports
  both searches through a mapping print the number of occurrences while the search with \<open>read\<close>
  prints less. It compares the speed of searches with different results.
\<close>

theorem benchmark_main_counts:
  assumes "smooth (create_test_file 1) c1" "smooth (create_test_file 10) c2"
  shows "\<exists>r1 r2 es. benchmark_main True True page c1 c2 fs =
      Inr ([(int r1, int (occurrences ''quick'' (create_test_file 1)), int (occurrences ''quick'' (create_test_file 1))),
            (int r2, int (occurrences ''lazy'' (create_test_file 10)), int (occurrences ''lazy'' (create_test_file 10)))],
          es, fs(small_file := None, medium_file := None)) \<and>
    r1 < occurrences ''quick'' (create_test_file 1) \<and> r2 < occurrences ''lazy'' (create_test_file 10) \<and> live es [] = Some []"
proof -
  let ?fs = "fs(small_file \<mapsto> create_test_file 1, medium_file \<mapsto> create_test_file 10)"
  have q: "pattern ! ((Suc 4 * 4096 - 1) mod 45) = CHR ''q''"
    "map (\<lambda>i. pattern ! ((Suc 4 * 4096 + i) mod 45)) [0..<length ''uick''] = ''uick''" by (simp_all add: pattern_def upt_rec)
  have l: "pattern ! ((Suc 35 * 4096 - 1) mod 45) = CHR ''l''"
    "map (\<lambda>i. pattern ! ((Suc 35 * 4096 + i) mod 45)) [0..<length ''azy''] = ''azy''" by (simp_all add: pattern_def upt_rec)
  have ok: "open_ok \<lparr>open_ok = True, fstat_ok = True, mmap_ok = True\<rparr>" by simp
  obtain r1 where r1: "fst (search_with_read True (cut 4096 (create_test_file 1)) ''quick'') = Inr (int r1)"
      "r1 < occurrences ''quick'' (create_test_file 1)"
    using searches_differ [OF _ _ _ _ _ q, of 1 "\<lparr>open_ok = True, fstat_ok = True, mmap_ok = True\<rparr>"] by auto
  obtain r2 where r2: "fst (search_with_read True (cut 4096 (create_test_file 10)) ''lazy'') = Inr (int r2)"
      "r2 < occurrences ''lazy'' (create_test_file 10)"
    using searches_differ [OF _ _ _ _ _ l, of 10 "\<lparr>open_ok = True, fstat_ok = True, mmap_ok = True\<rparr>"] by auto
  have m1: "fst (search_with_mmap x page (create_test_file 1) ''quick'') = Inr (int (occurrences ''quick'' (create_test_file 1)))"
    "fst (search_with_mmap_advise x page (create_test_file 1) ''quick'') = Inr (int (occurrences ''quick'' (create_test_file 1)))"
    if "open_ok x" "fstat_ok x" "mmap_ok x" for x
    using searches_differ [OF _ _ _ _ _ q that, of 1 page] by auto
  have m2: "fst (search_with_mmap x page (create_test_file 10) ''lazy'') = Inr (int (occurrences ''lazy'' (create_test_file 10)))"
    "fst (search_with_mmap_advise x page (create_test_file 10) ''lazy'') = Inr (int (occurrences ''lazy'' (create_test_file 10)))"
    if "open_ok x" "fstat_ok x" "mmap_ok x" for x
    using searches_differ [OF _ _ _ _ _ l that, of 10 page] by auto
  obtain es1 where 1: "benchmark ?fs small_file ''quick'' 100 page c1 = Inr ((int r1, int (occurrences ''quick'' (create_test_file 1)),
      int (occurrences ''quick'' (create_test_file 1))), es1)" "live es1 [] = Some []"
    using benchmark_smooth [OF _ assms(1) _ r1(1) m1, of ?fs small_file 100] by auto
  obtain es2 where 2: "benchmark ?fs medium_file ''lazy'' 10 page c2 = Inr ((int r2, int (occurrences ''lazy'' (create_test_file 10)),
      int (occurrences ''lazy'' (create_test_file 10))), es2)" "live es2 [] = Some []"
    using benchmark_smooth [OF _ assms(2) _ r2(1) m2, of ?fs medium_file 10] by auto
  have "live (es1 @ es2) [] = Some []" using 1(2) 2(2) by (simp add: live_append)
  moreover have "?fs(small_file := None, medium_file := None) = fs(small_file := None, medium_file := None)" by auto
  ultimately show ?thesis using 1(1) 2(1) r1(2) r2(2)
    by (simp add: benchmark_main_def store_test_file_def Let_def del: bind_r_Inr)
qed

theorem benchmark_main_counts_witness:
  "\<exists>r1 r2 es. benchmark_main True True 4096
      \<lparr>read_calls = (\<lambda>_. (True, cut 4096 (create_test_file 1))),
        mmap_calls = (\<lambda>_. \<lparr>open_ok = True, fstat_ok = True, mmap_ok = True\<rparr>),
        advise_calls = (\<lambda>_. \<lparr>open_ok = True, fstat_ok = True, mmap_ok = True\<rparr>)\<rparr>
      \<lparr>read_calls = (\<lambda>_. (True, cut 4096 (create_test_file 10))),
        mmap_calls = (\<lambda>_. \<lparr>open_ok = True, fstat_ok = True, mmap_ok = True\<rparr>),
        advise_calls = (\<lambda>_. \<lparr>open_ok = True, fstat_ok = True, mmap_ok = True\<rparr>)\<rparr> (\<lambda>_. None) =
      Inr ([(int r1, int (occurrences ''quick'' (create_test_file 1)), int (occurrences ''quick'' (create_test_file 1))),
            (int r2, int (occurrences ''lazy'' (create_test_file 10)), int (occurrences ''lazy'' (create_test_file 10)))],
          es, (\<lambda>_. None)(small_file := None, medium_file := None)) \<and> r1 < occurrences ''quick'' (create_test_file 1)"
proof -
  let ?ok = "\<lparr>open_ok = True, fstat_ok = True, mmap_ok = True\<rparr>"
  have "smooth f \<lparr>read_calls = (\<lambda>_. (True, cut 4096 f)), mmap_calls = (\<lambda>_. ?ok), advise_calls = (\<lambda>_. ?ok)\<rparr>" for f
    by (simp add: smooth_def succeeds_def)
  from benchmark_main_counts [OF this this] show ?thesis by blast
qed





end
