(* ===== verification/Signal_Server.thy ===== *)
theory Signal_Server
  imports Prelude
begin

text \<open>
  The shutdown protocol of \<open>01_processes/signal_handlers/signal_server.c\<close>: a main thread that accepts
  connections and, after a signal, waits until they have been served, and one detached thread per
  connection that counts itself in and out.

  A step is a piece of code between two points where other threads can interfere: a critical
  section under the mutex of \<open>server_state\<close>, a system call, or a test of \<open>server_running\<close>. The
  condition variable has one possible waiter, the main thread; \<open>signalled\<close> says that it has been
  woken. Threads are numbered in the order in which they are created. The bytes that a thread
  echoes are the subject of theory \<open>Echo_Server\<close>. The number of threads stays below the range of
  an \<open>int\<close>.
\<close>

section \<open>The code\<close>

record server_state =
  shutdown_requested :: bool
  active_connections :: int

text \<open>Where the main thread is.\<close>

datatype main_pc =
    M_Check    \<comment> \<open>before the test of \<open>server_running\<close>\<close>
  | M_Accept   \<comment> \<open>in \<open>accept\<close>\<close>
  | M_Stop     \<comment> \<open>after the loop, before the flag is set\<close>
  | M_Close    \<comment> \<open>before \<open>close (server_fd)\<close>\<close>
  | M_Drain    \<comment> \<open>before the test of \<open>active_connections\<close>\<close>
  | M_Wait     \<comment> \<open>in \<open>pthread_cond_wait\<close>\<close>
  | M_Destroy  \<comment> \<open>after the loop, before the mutex is destroyed\<close>
  | M_Done

text \<open>Where the thread of a connection is.\<close>

datatype conn_pc =
    Unborn
  | Spawned    \<comment> \<open>before \<open>increment_connections\<close>\<close>
  | Serving    \<comment> \<open>in the echo loop\<close>
  | Closed     \<comment> \<open>after \<open>close (client_fd)\<close>, before \<open>decrement_connections\<close>\<close>
  | Finished

record server =
  state :: server_state
  server_running :: bool
  listening :: bool
  mutex_alive :: bool
  main_at :: main_pc
  signalled :: bool
  conn_at :: "nat \<Rightarrow> conn_pc"
  threads :: nat
  misuse :: bool

definition server_init :: "server \<Rightarrow> bool" where
  "server_init s \<longleftrightarrow> s = \<lparr>state = \<lparr>shutdown_requested = False, active_connections = 0\<rparr>, server_running = True,
     listening = True, mutex_alive = True, main_at = M_Check, signalled = False, conn_at = (\<lambda>_. Unborn),
     threads = 0, misuse = False\<rparr>"

definition signal_handler :: "server \<Rightarrow> server" where
  "signal_handler s = s\<lparr>server_running := False\<rparr>"

definition increment_connections :: "server \<Rightarrow> server" where
  "increment_connections s =
     s\<lparr>state := (state s)\<lparr>active_connections := active_connections (state s) + 1\<rparr>,
       misuse := misuse s \<or> \<not> mutex_alive s\<rparr>"

text \<open>The signal is lost unless the main thread is waiting.\<close>

definition decrement_connections :: "server \<Rightarrow> server" where
  "decrement_connections s =
     (let n = active_connections (state s) - 1 in
      s\<lparr>state := (state s)\<lparr>active_connections := n\<rparr>,
        signalled := signalled s \<or> shutdown_requested (state s) \<and> n = 0 \<and> main_at s = M_Wait,
        misuse := misuse s \<or> \<not> mutex_alive s\<rparr>)"

text \<open>
  A thread that is accepted gets the number \<open>threads s\<close>. \<open>accept\<close> fails with \<open>EAGAIN\<close> after a second
  (\<open>timeout\<close>) or with another error, \<open>EINTR\<close> included, which ends the loop.
\<close>

inductive server_step :: "server \<Rightarrow> server \<Rightarrow> bool" where
  signal: "server_step s (signal_handler s)"
| check_run: "main_at s = M_Check \<Longrightarrow> server_running s \<Longrightarrow> server_step s (s\<lparr>main_at := M_Accept\<rparr>)"
| check_stop: "main_at s = M_Check \<Longrightarrow> \<not> server_running s \<Longrightarrow> server_step s (s\<lparr>main_at := M_Stop\<rparr>)"
| timeout: "main_at s = M_Accept \<Longrightarrow> server_step s (s\<lparr>main_at := M_Check\<rparr>)"
| accept_error: "main_at s = M_Accept \<Longrightarrow> server_step s (s\<lparr>main_at := M_Stop\<rparr>)"
| spawn: "main_at s = M_Accept \<Longrightarrow>
    server_step s (s\<lparr>conn_at := (conn_at s)(threads s := Spawned), threads := threads s + 1, main_at := M_Check\<rparr>)"
| create_fails: "main_at s = M_Accept \<Longrightarrow> server_step s (s\<lparr>main_at := M_Check\<rparr>)"
| stop: "main_at s = M_Stop \<Longrightarrow>
    server_step s (s\<lparr>state := (state s)\<lparr>shutdown_requested := True\<rparr>, main_at := M_Close\<rparr>)"
| close_listener: "main_at s = M_Close \<Longrightarrow> server_step s (s\<lparr>listening := False, main_at := M_Drain\<rparr>)"
| drain_wait: "main_at s = M_Drain \<Longrightarrow> active_connections (state s) > 0 \<Longrightarrow>
    server_step s (s\<lparr>main_at := M_Wait, signalled := False\<rparr>)"
| wake: "main_at s = M_Wait \<Longrightarrow> signalled s \<Longrightarrow> server_step s (s\<lparr>main_at := M_Drain, signalled := False\<rparr>)"
| spurious: "main_at s = M_Wait \<Longrightarrow> server_step s (s\<lparr>main_at := M_Drain, signalled := False\<rparr>)"
| drained: "main_at s = M_Drain \<Longrightarrow> \<not> active_connections (state s) > 0 \<Longrightarrow>
    server_step s (s\<lparr>main_at := M_Destroy\<rparr>)"
| destroy: "main_at s = M_Destroy \<Longrightarrow> server_step s (s\<lparr>mutex_alive := False, main_at := M_Done\<rparr>)"
| conn_start: "conn_at s k = Spawned \<Longrightarrow>
    server_step s ((increment_connections s)\<lparr>conn_at := (conn_at s)(k := Serving)\<rparr>)"
| conn_echo: "conn_at s k = Serving \<Longrightarrow> server_step s s"
| conn_close: "conn_at s k = Serving \<Longrightarrow> server_step s (s\<lparr>conn_at := (conn_at s)(k := Closed)\<rparr>)"
| conn_end: "conn_at s k = Closed \<Longrightarrow>
    server_step s ((decrement_connections s)\<lparr>conn_at := (conn_at s)(k := Finished)\<rparr>)"

inductive_cases server_step_cases: "server_step s t"

lemmas server_defs = signal_handler_def increment_connections_def decrement_connections_def Let_def

section \<open>The invariant\<close>

text \<open>The threads that have counted themselves in and not yet out.\<close>

definition counted :: "server \<Rightarrow> nat set" where
  "counted s = {k. conn_at s k = Serving \<or> conn_at s k = Closed}"

definition shutting_down :: "server \<Rightarrow> bool" where
  "shutting_down s \<longleftrightarrow> main_at s \<notin> {M_Check, M_Accept, M_Stop}"

text \<open>The threads created so far are those with a number below \<open>threads\<close>.\<close>

definition numbered :: "server \<Rightarrow> bool" where
  "numbered s \<longleftrightarrow> {k. conn_at s k \<noteq> Unborn} = {..<threads s}"

definition counter_ok :: "server \<Rightarrow> bool" where
  "counter_ok s \<longleftrightarrow> active_connections (state s) = int (card (counted s))"

text \<open>The flags follow the main thread, and its sleep without a wake-up has a reason.\<close>

definition control_ok :: "server \<Rightarrow> bool" where
  "control_ok s \<longleftrightarrow>
     (shutdown_requested (state s) \<longleftrightarrow> shutting_down s) \<and>
     (main_at s = M_Wait \<and> \<not> signalled s \<longrightarrow> active_connections (state s) > 0) \<and>
     (mutex_alive s \<longleftrightarrow> main_at s \<noteq> M_Done) \<and> (misuse s \<longrightarrow> \<not> mutex_alive s) \<and>
     (listening s \<longleftrightarrow> main_at s \<in> {M_Check, M_Accept, M_Stop, M_Close})"

definition server_inv :: "server \<Rightarrow> bool" where
  "server_inv s \<longleftrightarrow> numbered s \<and> counter_ok s \<and> control_ok s"

lemma in_counted: "k \<in> counted s \<longleftrightarrow> conn_at s k = Serving \<or> conn_at s k = Closed"
  by (simp add: counted_def)

lemma finite_counted: "numbered s \<Longrightarrow> finite (counted s)"
proof -
  assume "numbered s"
  then have "finite {k. conn_at s k \<noteq> Unborn}" by (simp add: numbered_def)
  moreover have "counted s \<subseteq> {k. conn_at s k \<noteq> Unborn}" by (auto simp: counted_def)
  ultimately show ?thesis by (rule rev_finite_subset)
qed

text \<open>How the steps of a thread change the set.\<close>

lemma counted_update:
  "counted (r\<lparr>conn_at := (conn_at s)(k := p)\<rparr>) =
     (if p = Serving \<or> p = Closed then insert k (counted s) else counted s - {k})"
  by (auto simp: counted_def)

lemma counted_frame [simp]:
  "counted (s\<lparr>state := a\<rparr>) = counted s" "counted (s\<lparr>server_running := b\<rparr>) = counted s"
  "counted (s\<lparr>listening := b\<rparr>) = counted s" "counted (s\<lparr>mutex_alive := b\<rparr>) = counted s"
  "counted (s\<lparr>main_at := m\<rparr>) = counted s" "counted (s\<lparr>signalled := b\<rparr>) = counted s"
  "counted (s\<lparr>threads := n\<rparr>) = counted s" "counted (s\<lparr>misuse := b\<rparr>) = counted s"
  by (simp_all add: counted_def)

lemma numbered_update:
  "numbered s \<Longrightarrow> conn_at s k \<noteq> Unborn \<Longrightarrow> p \<noteq> Unborn \<Longrightarrow> {j. ((conn_at s)(k := p)) j \<noteq> Unborn} = {..<threads s}"
  by (auto simp: numbered_def)

lemma numbered_step: "server_step s t \<Longrightarrow> numbered s \<Longrightarrow> numbered t"
proof (induction rule: server_step.induct)
  case (spawn s)
  have "{k. ((conn_at s)(threads s := Spawned)) k \<noteq> Unborn} = insert (threads s) {k. conn_at s k \<noteq> Unborn}" by auto
  with spawn show ?case by (simp add: numbered_def lessThan_Suc)
qed (use numbered_update in \<open>simp_all add: numbered_def server_defs\<close>)

lemma counter_step: "server_step s t \<Longrightarrow> numbered s \<Longrightarrow> counter_ok s \<Longrightarrow> counter_ok t"
proof (induction rule: server_step.induct)
  case (spawn s)
  then have "threads s \<notin> {k. conn_at s k \<noteq> Unborn}" by (simp add: numbered_def)
  then have "threads s \<notin> counted s" by (simp add: in_counted)
  with spawn show ?case by (simp add: counter_ok_def counted_update)
next
  case (conn_start s k)
  have "finite (counted s)" "k \<notin> counted s"
    using finite_counted conn_start by (blast, simp add: in_counted)
  with conn_start show ?case by (simp add: counter_ok_def server_defs counted_update)
next
  case (conn_close s k)
  then have "insert k (counted s) = counted s" by (auto simp: in_counted)
  with conn_close show ?case by (simp add: counter_ok_def counted_update)
next
  case (conn_end s k)
  have "finite (counted s)" "k \<in> counted s"
    using finite_counted conn_end by (blast, simp add: in_counted)
  then have "int (card (counted s - {k})) = int (card (counted s)) - 1"
    by (metis card_Suc_Diff1 add_diff_cancel_left' of_nat_Suc)
  with conn_end show ?case by (simp add: counter_ok_def server_defs counted_update)
qed (simp_all add: counter_ok_def server_defs)

lemma control_step: "server_step s t \<Longrightarrow> counter_ok t \<Longrightarrow> control_ok s \<Longrightarrow> control_ok t"
  by (induction rule: server_step.induct)
    (auto simp: control_ok_def counter_ok_def server_defs shutting_down_def)

interpretation srv: invariant_of server_init server_step server_inv
proof unfold_locales
  fix s assume "server_init s"
  then show "server_inv s"
    by (simp add: server_init_def server_inv_def numbered_def counter_ok_def control_ok_def counted_def shutting_down_def)
next
  fix s t assume "server_step s t" "server_inv s"
  then show "server_inv t"
    unfolding server_inv_def using numbered_step counter_step control_step by metis
qed

section \<open>The end of a shutdown\<close>

text \<open>
  While the main thread waits, a thread that is counted can close its connection and count itself
  out; when none is left, the main thread has been woken and goes on to the end.
\<close>

lemma conn_chain:
  assumes "server_inv s" "counted s \<noteq> {}" "main_at s \<in> {M_Drain, M_Wait}"
  shows "\<exists>t. server_step\<^sup>*\<^sup>* s t \<and> main_at t = main_at s \<and> card (counted t) < card (counted s)"
proof -
  have fin: "finite (counted s)" using assms(1) finite_counted by (simp add: server_inv_def)
  from assms(2) obtain k where k: "k \<in> counted s" by blast
  let ?s = "s\<lparr>conn_at := (conn_at s)(k := Closed)\<rparr>"
  have 1: "server_step\<^sup>*\<^sup>* s ?s"
  proof (cases "conn_at s k = Serving")
    case True
    then show ?thesis by (intro r_into_rtranclp conn_close)
  next
    case False
    with k have "(conn_at s)(k := Closed) = conn_at s" by (auto simp: in_counted)
    then show ?thesis by simp
  qed
  let ?t = "(decrement_connections ?s)\<lparr>conn_at := (conn_at ?s)(k := Finished)\<rparr>"
  have 2: "server_step ?s ?t" by (rule conn_end) simp
  have "counted ?s = counted s" using k by (auto simp: counted_update)
  then have "counted ?t = counted s - {k}" using counted_update [where s = ?s and k = k and p = Finished] by simp
  moreover have "card (counted s - {k}) < card (counted s)" by (rule card_Diff1_less [OF fin k])
  moreover have "main_at ?t = main_at s" by (simp add: server_defs)
  ultimately show ?thesis using rtranclp.rtrancl_into_rtrancl [OF 1 2] by metis
qed

lemma drains:
  assumes "server_inv s" "main_at s \<in> {M_Drain, M_Wait}"
  shows "\<exists>t. server_step\<^sup>*\<^sup>* s t \<and> main_at t = M_Done"
  using assms
proof (induction "card (counted s)" arbitrary: s rule: less_induct)
  case less
  show ?case
  proof (cases "counted s = {}")
    case False
    from conn_chain [OF less.prems(1) False less.prems(2)] obtain t where t: "server_step\<^sup>*\<^sup>* s t"
      "main_at t = main_at s" "card (counted t) < card (counted s)" by blast
    moreover have "server_inv t" by (rule srv.steps_inv [OF t(1) less.prems(1)])
    ultimately show ?thesis using less.hyps less.prems(2) by (metis rtranclp_trans)
  next
    case True
    let ?d = "s\<lparr>main_at := M_Drain, signalled := False\<rparr>"
    have z: "active_connections (state s) = 0"
      using True less.prems(1) by (simp add: server_inv_def counter_ok_def)
    obtain d where d: "server_step\<^sup>*\<^sup>* s d" "main_at d = M_Drain" "active_connections (state d) = 0"
    proof (cases "main_at s = M_Wait")
      case True
      then have "signalled s" using less.prems(1) z by (simp add: server_inv_def control_ok_def)
      with True have "server_step s ?d" by (rule wake)
      with z that [of ?d] show ?thesis by auto
    next
      case False
      with less.prems(2) z that [of s] show ?thesis by auto
    qed
    then have "server_step d (d\<lparr>main_at := M_Destroy\<rparr>)" by (intro drained) simp_all
    moreover have "server_step (d\<lparr>main_at := M_Destroy\<rparr>) (d\<lparr>mutex_alive := False, main_at := M_Done\<rparr>)"
      using destroy [of "d\<lparr>main_at := M_Destroy\<rparr>"] by simp
    ultimately have "server_step\<^sup>*\<^sup>* s (d\<lparr>mutex_alive := False, main_at := M_Done\<rparr>)"
      using d(1) by (meson rtranclp.rtrancl_into_rtrancl)
    moreover have "main_at (d\<lparr>mutex_alive := False, main_at := M_Done\<rparr>) = M_Done" by simp
    ultimately show ?thesis by blast
  qed
qed

lemma reaches_done:
  assumes "server_inv s" "main_at s \<noteq> M_Done" "\<not> server_running s \<or> main_at s \<notin> {M_Check, M_Accept}"
  shows "\<exists>t. server_step\<^sup>*\<^sup>* s t \<and> main_at t = M_Done"
proof -
  have chain: "\<exists>u. server_step\<^sup>*\<^sup>* s u \<and> main_at u = M_Done"
    if "server_step s t" "\<exists>u. server_step\<^sup>*\<^sup>* t u \<and> main_at u = M_Done" for s t
    using that by (meson converse_rtranclp_into_rtranclp)
  have drain: "\<exists>u. server_step\<^sup>*\<^sup>* t u \<and> main_at u = M_Done" if "server_inv t" "main_at t \<in> {M_Drain, M_Wait}" for t
    using drains that by blast
  have close: "\<exists>u. server_step\<^sup>*\<^sup>* t u \<and> main_at u = M_Done" if "server_inv t" "main_at t = M_Close" for t
    by (rule chain [OF close_listener [OF that(2)]], rule drain)
      (use srv.inv_step [OF close_listener [OF that(2)] that(1)] in simp_all)
  have stop: "\<exists>u. server_step\<^sup>*\<^sup>* t u \<and> main_at u = M_Done" if "server_inv t" "main_at t = M_Stop" for t
    by (rule chain [OF server_step.stop [OF that(2)]], rule close)
      (use srv.inv_step [OF server_step.stop [OF that(2)] that(1)] in simp_all)
  have check: "\<exists>u. server_step\<^sup>*\<^sup>* t u \<and> main_at u = M_Done"
    if "server_inv t" "main_at t = M_Check" "\<not> server_running t" for t
    by (rule chain [OF check_stop [OF that(2,3)]], rule stop)
      (use srv.inv_step [OF check_stop [OF that(2,3)] that(1)] in simp_all)
  have acc: "\<exists>u. server_step\<^sup>*\<^sup>* t u \<and> main_at u = M_Done"
    if "server_inv t" "main_at t = M_Accept" "\<not> server_running t" for t
    by (rule chain [OF timeout [OF that(2)]], rule check)
      (use srv.inv_step [OF timeout [OF that(2)] that(1)] that(3) in simp_all)
  show ?thesis
  proof (cases "main_at s")
    case M_Destroy
    then have "server_step s (s\<lparr>mutex_alive := False, main_at := M_Done\<rparr>)" by (rule destroy)
    then have "server_step\<^sup>*\<^sup>* s (s\<lparr>mutex_alive := False, main_at := M_Done\<rparr>)" by (rule r_into_rtranclp)
    moreover have "main_at (s\<lparr>mutex_alive := False, main_at := M_Done\<rparr>) = M_Done" by simp
    ultimately show ?thesis by blast
  qed (use assms check acc stop close drain in auto)
qed

text \<open>After the accept loop no thread is created, and a thread leaves \<open>Spawned\<close> only once.\<close>

definition settled :: "server \<Rightarrow> bool" where
  "settled s \<longleftrightarrow> main_at s \<notin> {M_Check, M_Accept} \<and> (\<forall>k. conn_at s k \<noteq> Spawned) \<and>
     (main_at s \<in> {M_Destroy, M_Done} \<longrightarrow> counted s = {}) \<and> \<not> misuse s"

lemma settled_step:
  assumes "server_step s t" "server_inv s" "settled s"
  shows "settled t"
proof -
  have none: "conn_at s k \<noteq> Serving \<and> conn_at s k \<noteq> Closed" if "counted s = {}" for k
    using that by (auto simp: counted_def)
  have zero: "counted s = {}" if "\<not> active_connections (state s) > 0"
    using that assms(2) finite_counted by (auto simp: server_inv_def counter_ok_def card_gt_0_iff)
  have alive: "mutex_alive s" if "main_at s \<noteq> M_Done"
    using that assms(2) by (simp add: server_inv_def control_ok_def)
  from assms(1,3) show ?thesis
  proof (induction rule: server_step.cases)
    case (conn_start k)
    then show ?thesis by (simp add: settled_def)
  next
    case (conn_close k)
    then show ?thesis using none by (auto simp: settled_def counted_update)
  next
    case (conn_end k)
    then have "main_at s \<noteq> M_Done" using none by (auto simp: settled_def)
    with conn_end alive show ?thesis using none by (auto simp: settled_def server_defs counted_update)
  qed (use zero in \<open>auto simp: settled_def server_defs\<close>)
qed

section \<open>Example runs\<close>

text \<open>One connection is accepted, the thread counts itself in, a signal arrives.\<close>

definition start_server :: server where
  "start_server = \<lparr>state = \<lparr>shutdown_requested = False, active_connections = 0\<rparr>, server_running = True,
     listening = True, mutex_alive = True, main_at = M_Check, signalled = False, conn_at = (\<lambda>_. Unborn),
     threads = 0, misuse = False\<rparr>"

definition one_spawned :: server where
  "one_spawned = start_server\<lparr>conn_at := (\<lambda>_. Unborn)(0 := Spawned), threads := 1, server_running := False,
     main_at := M_Stop\<rparr>"

definition one_serving :: server where
  "one_serving = one_spawned\<lparr>conn_at := (\<lambda>_. Unborn)(0 := Serving),
     state := \<lparr>shutdown_requested = False, active_connections = 1\<rparr>\<rparr>"

lemma start_server_reachable: "reachable server_init server_step start_server"
  by (rule reach_init) (simp add: server_init_def start_server_def)

lemma one_spawned_reachable: "reachable server_init server_step one_spawned"
proof -
  have 1: "reachable server_init server_step (start_server\<lparr>main_at := M_Accept\<rparr>)"
    by (rule reach_via [OF start_server_reachable], rule check_run) (simp_all add: start_server_def)
  have 2: "reachable server_init server_step
      (start_server\<lparr>conn_at := (\<lambda>_. Unborn)(0 := Spawned), threads := 1\<rparr>)"
    by (rule reach_via [OF 1], rule spawn) (simp_all add: start_server_def)
  have 3: "reachable server_init server_step
      (start_server\<lparr>conn_at := (\<lambda>_. Unborn)(0 := Spawned), threads := 1, server_running := False\<rparr>)"
    by (rule reach_via [OF 2], rule signal) (simp add: start_server_def signal_handler_def)
  show ?thesis
    by (rule reach_via [OF 3], rule check_stop) (simp_all add: start_server_def one_spawned_def)
qed

lemma one_serving_reachable: "reachable server_init server_step one_serving"
  by (rule reach_via [OF one_spawned_reachable], rule conn_start [where k = 0])
    (simp_all add: one_serving_def one_spawned_def start_server_def increment_connections_def)

section \<open>Properties\<close>

text \<open>
  C18: The count of connections is exact in every reachable state: it is the number of threads that
  have run \<open>increment_connections\<close> and not yet \<open>decrement_connections\<close>, so it is never negative; and
  the server listens exactly until the main thread has closed the socket.
\<close>

theorem connection_count_exact:
  assumes "reachable server_init server_step s"
  shows "active_connections (state s) = int (card {k. conn_at s k = Serving \<or> conn_at s k = Closed}) \<and>
     (\<forall>k. conn_at s k \<noteq> Unborn \<longleftrightarrow> k < threads s) \<and>
     (shutdown_requested (state s) \<and> main_at s \<noteq> M_Close \<longleftrightarrow> \<not> listening s)"
proof -
  have inv: "numbered s" "counter_ok s" "control_ok s"
    using srv.reachable_inv [OF assms] by (simp_all add: server_inv_def)
  have "conn_at s k \<noteq> Unborn \<longleftrightarrow> k < threads s" for k
  proof -
    have "k \<in> {k. conn_at s k \<noteq> Unborn} \<longleftrightarrow> k \<in> {..<threads s}" using inv(1) unfolding numbered_def by (simp only:)
    then show ?thesis by simp
  qed
  with inv(2,3) show ?thesis
    by (auto simp: counter_ok_def counted_def control_ok_def shutting_down_def)
qed

theorem connection_count_exact_witness:
  "reachable server_init server_step one_serving \<and> active_connections (state one_serving) = 1 \<and>
   card {k. conn_at one_serving k = Serving \<or> conn_at one_serving k = Closed} = 1"
  using connection_count_exact [OF one_serving_reachable] one_serving_reachable
  by (simp add: one_serving_def)

text \<open>
  No wake-up is lost: when the main thread sleeps in the drain loop and has not been woken, a
  thread that is still counted exists, and the one that counts itself out last wakes it.
\<close>

theorem drain_wakeup:
  assumes "reachable server_init server_step s" "main_at s = M_Wait" "\<not> signalled s"
  shows "active_connections (state s) > 0 \<and>
     (\<forall>k. conn_at s k = Closed \<and> active_connections (state s) = 1 \<longrightarrow> signalled (decrement_connections s))"
proof -
  have "control_ok s" using srv.reachable_inv [OF assms(1)] by (simp add: server_inv_def)
  with assms(2,3) show ?thesis by (auto simp: control_ok_def shutting_down_def decrement_connections_def Let_def)
qed

theorem drain_wakeup_witness:
  "\<exists>s. reachable server_init server_step s \<and> main_at s = M_Wait \<and> \<not> signalled s \<and> active_connections (state s) > 0"
proof -
  let ?a = "one_serving\<lparr>state := \<lparr>shutdown_requested = True, active_connections = 1\<rparr>, main_at := M_Close\<rparr>"
  let ?b = "?a\<lparr>listening := False, main_at := M_Drain\<rparr>" and ?c = "?a\<lparr>listening := False, main_at := M_Wait\<rparr>"
  note d = one_serving_def one_spawned_def start_server_def
  have a: "reachable server_init server_step ?a"
    by (rule reach_via [OF one_serving_reachable], rule stop) (simp_all add: d)
  have b: "reachable server_init server_step ?b"
    by (rule reach_via [OF a], rule close_listener) (simp_all add: d)
  have c: "reachable server_init server_step ?c"
    by (rule reach_via [OF b], rule drain_wait) (simp_all add: d)
  have m: "main_at ?c = M_Wait" "\<not> signalled ?c" by (simp_all add: d)
  from drain_wakeup [OF c m] c m show ?thesis by blast
qed



text \<open>
  C19: The shutdown is graceful when every thread that was created has counted itself in by the time
  the main thread leaves the accept loop: when the main thread has left the drain loop, every
  connection has been served to its end, and no thread uses the mutex after it has been
  destroyed.
\<close>

theorem graceful_shutdown:
  assumes "reachable server_init server_step s" "main_at s = M_Stop" "\<forall>k. conn_at s k \<noteq> Spawned"
    and "server_step\<^sup>*\<^sup>* s t" "main_at t = M_Destroy \<or> main_at t = M_Done"
  shows "(\<forall>k<threads t. conn_at t k = Finished) \<and> \<not> misuse t"
proof -
  have inv: "server_inv s" by (rule srv.reachable_inv [OF assms(1)])
  then have "settled s" using assms(2,3) by (auto simp: settled_def server_inv_def control_ok_def)
  with assms(4) have "settled t \<and> server_inv t"
    by (induction rule: rtranclp_induct) (use inv srv.inv_step settled_step in blast)+
  then have s: "settled t" "numbered t" by (simp_all add: server_inv_def)
  have "conn_at t k = Finished" if "k < threads t" for k
  proof -
    have "k \<in> {k. conn_at t k \<noteq> Unborn}" using s(2) that by (simp add: numbered_def)
    moreover have "k \<notin> counted t" "conn_at t k \<noteq> Spawned" using s(1) assms(5) by (auto simp: settled_def)
    ultimately show ?thesis by (cases "conn_at t k") (auto simp: in_counted)
  qed
  with s(1) show ?thesis by (simp add: settled_def)
qed

theorem graceful_shutdown_witness:
  "\<exists>t. server_step\<^sup>*\<^sup>* one_serving t \<and> main_at t = M_Done \<and> conn_at t 0 = Finished"
proof -
  have one: "main_at one_serving = M_Stop" "\<forall>k. conn_at one_serving k \<noteq> Spawned"
    by (simp_all add: one_serving_def one_spawned_def)
  let ?a = "one_serving\<lparr>conn_at := (\<lambda>_. Unborn)(0 := Closed)\<rparr>"
  let ?b = "?a\<lparr>conn_at := (\<lambda>_. Unborn)(0 := Finished), state := \<lparr>shutdown_requested = False, active_connections = 0\<rparr>\<rparr>"
  note d = one_serving_def one_spawned_def start_server_def server_defs
  have "server_step one_serving ?a" using conn_close [of one_serving 0] by (simp add: d)
  moreover have "server_step ?a ?b" using conn_end [of ?a 0] by (simp add: d)
  ultimately have ab: "server_step\<^sup>*\<^sup>* one_serving ?b" by (meson converse_rtranclp_into_rtranclp r_into_rtranclp)
  moreover have "main_at ?b = M_Stop" by (simp add: one)
  ultimately obtain t where t: "server_step\<^sup>*\<^sup>* ?b t" "main_at t = M_Done"
    using reaches_done [of ?b] srv.steps_inv [OF ab srv.reachable_inv [OF one_serving_reachable]] by auto
  have r: "server_step\<^sup>*\<^sup>* one_serving t" by (rule rtranclp_trans [OF ab t(1)])
  have "threads u \<le> threads v" if "server_step\<^sup>*\<^sup>* u v" for u v
    using that by (induction rule: rtranclp_induct) (auto elim!: server_step_cases simp: server_defs)
  from this [OF r] have "0 < threads t" by (simp add: d)
  with graceful_shutdown [OF one_serving_reachable one r] t(2) r show ?thesis by blast
qed

text \<open>
  Without that condition the shutdown is not graceful: a connection that was accepted just before
  the signal is not waited for when its thread has not yet run \<open>increment_connections\<close>. The main
  thread reports that all connections are drained and destroys the mutex, and the thread then
  starts to serve and locks the destroyed mutex.
\<close>

theorem shutdown_race:
  "\<exists>s. reachable server_init server_step s \<and> main_at s = M_Done \<and> conn_at s 0 = Serving \<and> misuse s"
proof -
  note d = one_spawned_def start_server_def
  let ?a = "one_spawned\<lparr>state := \<lparr>shutdown_requested = True, active_connections = 0\<rparr>, main_at := M_Close\<rparr>"
  let ?b = "?a\<lparr>listening := False, main_at := M_Drain\<rparr>" and ?c = "?a\<lparr>listening := False, main_at := M_Destroy\<rparr>"
  let ?e = "?a\<lparr>listening := False, mutex_alive := False, main_at := M_Done\<rparr>"
  have a: "reachable server_init server_step ?a"
    by (rule reach_via [OF one_spawned_reachable], rule stop) (simp_all add: d)
  have b: "reachable server_init server_step ?b"
    by (rule reach_via [OF a], rule close_listener) (simp_all add: d)
  have c: "reachable server_init server_step ?c"
    by (rule reach_via [OF b], rule drained) (simp_all add: d)
  have e: "reachable server_init server_step ?e"
    by (rule reach_via [OF c], rule destroy) (simp_all add: d)
  let ?f = "(increment_connections ?e)\<lparr>conn_at := (conn_at ?e)(0 := Serving)\<rparr>"
  have "reachable server_init server_step ?f"
    by (rule reach_step [OF e], rule conn_start) (simp add: d)
  moreover have "main_at ?f = M_Done" "conn_at ?f 0 = Serving" "misuse ?f"
    by (simp_all add: d increment_connections_def)
  ultimately show ?thesis by blast
qed

end
