(* ===== verification/Echo_Server.thy ===== *)
theory Echo_Server
  imports Prelude "HOL-Library.Sublist"
begin

text \<open>
  The three servers that send back what they receive: the thread of a connection in
  \<open>01_processes/signal_handlers/signal_server.c\<close>, the thread of a connection in
  \<open>04_networking/tcp_echo_server/server_threaded.c\<close> and the event loop of \<open>server_epoll.c\<close> in the
  same directory.

  What the sockets do is a parameter: the bytes that a \<open>read\<close> finds, the number of bytes that a
  \<open>write\<close> takes, the events that \<open>poll\<close> reports, the connections that \<open>accept\<close> returns. The bytes a
  handler has read and the bytes it has written are history variables. The first part translates
  the code, the second states the contract of an echo handler and which of the servers keep it
  under which conditions.
\<close>

section \<open>The code\<close>

record connection =
  received :: string
  sent :: string

definition new_connection :: connection where
  "new_connection = \<lparr>received = [], sent = []\<rparr>"

lemma new_connection_fields [simp]: "received new_connection = []" "sent new_connection = []"
  by (simp_all add: new_connection_def)

subsection \<open>A thread of \<open>signal_server.c\<close>\<close>

text \<open>
  One round of the loop: the bytes that \<open>read\<close> has returned and the result of \<open>write\<close>, which the
  code ignores. The loop ends when \<open>read\<close> returns no bytes, so a round has at least one.
\<close>

definition single_round :: "connection \<Rightarrow> string \<times> int \<Rightarrow> connection option" where
  "single_round c = (\<lambda>(bytes, n).
     if bytes = [] then None
     else Some (c\<lparr>received := received c @ bytes, sent := sent c @ take (nat n) bytes\<rparr>))"

subsection \<open>A thread of \<open>server_threaded.c\<close>\<close>

text \<open>
  The inner loop, with the results of the successive calls of \<open>write\<close>. The result is the number of
  bytes written, or \<open>None\<close> when the list ends before the loop does: the thread stays in the last
  call.
\<close>

fun write_loop :: "string \<Rightarrow> nat \<Rightarrow> int list \<Rightarrow> nat option" where
  "write_loop buffer bytes_written [] = (if bytes_written < length buffer then None else Some bytes_written)"
| "write_loop buffer bytes_written (n # ns) =
     (if bytes_written < length buffer then
        if n \<le> 0 then Some bytes_written else write_loop buffer (bytes_written + nat n) ns
      else Some bytes_written)"

text \<open>A round of the outer loop; \<open>None\<close> when there is no next round.\<close>

definition threaded_round :: "connection \<Rightarrow> string \<times> int list \<Rightarrow> connection option" where
  "threaded_round c = (\<lambda>(bytes, ns).
     if bytes = [] then None
     else case write_loop bytes 0 ns of
       None \<Rightarrow> None
     | Some k \<Rightarrow> Some (c\<lparr>received := received c @ bytes, sent := sent c @ take k bytes\<rparr>))"

subsection \<open>The event loop of \<open>server_epoll.c\<close>\<close>

definition BUFFER_SIZE :: nat where
  "BUFFER_SIZE = 4096"

definition MAX_CLIENTS :: nat where
  "MAX_CLIENTS = 10000"

text \<open>\<open>buffer\<close> holds the first \<open>buffer_len\<close> bytes of the memory of the client.\<close>

record client = connection +
  client_fd :: int
  buffer :: string
  buffer_capacity :: nat

definition new_client :: "int \<Rightarrow> client" where
  "new_client fd = \<lparr>received = [], sent = [], client_fd = fd, buffer = [], buffer_capacity = BUFFER_SIZE\<rparr>"

text \<open>
  What a client meets in one round of the event loop: the events in \<open>revents\<close>, the bytes that are
  there to be read (\<open>None\<close> when \<open>read\<close> fails), and the result of \<open>write\<close>.
\<close>

record io =
  pollin :: bool
  hangup :: bool
  available :: "string option"
  wrote :: int

text \<open>\<open>read\<close> with room for \<open>n\<close> bytes; no bytes at all mean the end of the input, or no room.\<close>

definition read_some :: "io \<Rightarrow> nat \<Rightarrow> string option" where
  "read_some x n = (case available x of None \<Rightarrow> None | Some bytes \<Rightarrow> if take n bytes = [] then None else Some (take n bytes))"

definition write_some :: "io \<Rightarrow> client \<Rightarrow> client" where
  "write_some x c =
     (if wrote x > 0 then
        if wrote x = int (length (buffer c)) then c\<lparr>buffer := [], sent := sent c @ buffer c\<rparr>
        else c\<lparr>buffer := drop (nat (wrote x)) (buffer c), sent := sent c @ take (nat (wrote x)) (buffer c)\<rparr>
      else c)"

text \<open>The body of the loop over the clients; \<open>None\<close> when the connection is closed and freed.\<close>

definition client_event :: "client \<Rightarrow> io \<Rightarrow> client option" where
  "client_event c x =
     (case (if pollin x then
              case read_some x (buffer_capacity c - length (buffer c)) of
                None \<Rightarrow> None
              | Some bytes \<Rightarrow> Some (c\<lparr>buffer := buffer c @ bytes, received := received c @ bytes\<rparr>)
            else Some c) of
        None \<Rightarrow> None
      | Some c \<Rightarrow>
          if hangup x then None
          else if length (buffer c) > 0 then Some (write_some x c)
          else Some c)"

record poll_server =
  nfds :: nat
  fd_at :: "nat \<Rightarrow> int"
  clients :: "nat \<Rightarrow> client option"
  active_clients :: int

definition poll_start :: "int \<Rightarrow> poll_server" where
  "poll_start listen_fd = \<lparr>nfds = 1, fd_at = (\<lambda>_. 0)(0 := listen_fd), clients = (\<lambda>_. None), active_clients = 0\<rparr>"

text \<open>A connection that \<open>accept\<close> has returned, and whether \<open>set_nonblocking\<close> succeeds.\<close>

definition accept_one :: "int \<times> bool \<Rightarrow> poll_server \<Rightarrow> poll_server" where
  "accept_one = (\<lambda>(fd, nonblocking) s.
     if \<not> nonblocking then s
     else if nfds s < MAX_CLIENTS then
       s\<lparr>fd_at := (fd_at s)(nfds s := fd), clients := (clients s)(nfds s \<mapsto> new_client fd),
         nfds := nfds s + 1, active_clients := active_clients s + 1\<rparr>
     else s)"

definition accept_loop :: "(int \<times> bool) list \<Rightarrow> poll_server \<Rightarrow> poll_server" where
  "accept_loop conns s = fold accept_one conns s"

definition handle_slot :: "(nat \<Rightarrow> io) \<Rightarrow> nat \<Rightarrow> poll_server \<Rightarrow> poll_server" where
  "handle_slot ios i s =
     (if fd_at s i < 0 then s
      else case clients s i of
        None \<Rightarrow> s
      | Some c \<Rightarrow>
          (case client_event c (ios i) of
             None \<Rightarrow> s\<lparr>clients := (clients s)(i := None), fd_at := (fd_at s)(i := - 1),
                       active_clients := active_clients s - 1\<rparr>
           | Some c \<Rightarrow> s\<lparr>clients := (clients s)(i \<mapsto> c)\<rparr>))"

text \<open>
  One round of the event loop. \<open>conns\<close> are the connections \<open>accept\<close> returns before it fails, when the
  listening socket is ready. The entries of a connection that was accepted in this round are not
  set by \<open>poll\<close>: \<open>ios\<close> gives whatever the memory holds.
\<close>

definition poll_round :: "(int \<times> bool) list \<times> (nat \<Rightarrow> io) \<Rightarrow> poll_server \<Rightarrow> poll_server" where
  "poll_round = (\<lambda>(conns, ios) s.
     let s = accept_loop conns s in fold (handle_slot ios) [1..<nfds s] s)"

definition poll_loop :: "((int \<times> bool) list \<times> (nat \<Rightarrow> io)) list \<Rightarrow> poll_server \<Rightarrow> poll_server" where
  "poll_loop rounds s = fold poll_round rounds s"

text \<open>The slots whose client is freed, and whose descriptor is closed, at the end.\<close>

definition poll_cleanup :: "poll_server \<Rightarrow> nat list" where
  "poll_cleanup s = filter (\<lambda>i. fd_at s i \<ge> 0) [1..<nfds s]"

section \<open>The contract of an echo handler\<close>

text \<open>
  A handler takes one event after the other until it closes the connection. \<open>pending\<close> are the bytes
  it still owes.
\<close>

fun serve :: "('c \<Rightarrow> 'e \<Rightarrow> 'c option) \<Rightarrow> 'c \<Rightarrow> 'e list \<Rightarrow> 'c option" where
  "serve step c [] = Some c"
| "serve step c (e # es) = (case step c e of None \<Rightarrow> None | Some d \<Rightarrow> serve step d es)"

locale echo_handler =
  fixes step :: "'c \<Rightarrow> 'e \<Rightarrow> 'c option"
    and got :: "'c \<Rightarrow> string"
    and gave :: "'c \<Rightarrow> string"
    and pending :: "'c \<Rightarrow> string"
    and fair :: "'e \<Rightarrow> bool"
  assumes keeps: "step c e = Some d \<Longrightarrow> fair e \<Longrightarrow> gave c @ pending c = got c \<Longrightarrow> gave d @ pending d = got d"
    and extends: "step c e = Some d \<Longrightarrow> prefix (gave c) (gave d) \<and> prefix (got c) (got d)"
begin

lemma serve_keeps:
  "serve step c es = Some d \<Longrightarrow> \<forall>e\<in>set es. fair e \<Longrightarrow> gave c @ pending c = got c \<Longrightarrow> gave d @ pending d = got d"
proof (induction es arbitrary: c)
  case (Cons e es)
  then obtain b where b: "step c e = Some b" "serve step b es = Some d" by (auto split: option.splits)
  with keeps [OF b(1)] Cons show ?case by simp
qed simp

lemma serve_extends: "serve step c es = Some d \<Longrightarrow> prefix (gave c) (gave d) \<and> prefix (got c) (got d)"
proof (induction es arbitrary: c)
  case (Cons e es)
  then obtain b where b: "step c e = Some b" "serve step b es = Some d" by (auto split: option.splits)
  with extends [OF b(1)] Cons.IH [OF b(2)] show ?case by (meson prefix_order.trans)
qed simp

lemma serve_prefix:
  "serve step c es = Some d \<Longrightarrow> \<forall>e\<in>set es. fair e \<Longrightarrow> gave c @ pending c = got c \<Longrightarrow> prefix (gave d) (got d)"
  using serve_keeps by (metis prefixI)

end

section \<open>The handlers of the servers\<close>

interpretation single: echo_handler single_round received sent "\<lambda>_. []" "\<lambda>(bytes, n). n = int (length bytes)"
  by unfold_locales (auto simp: single_round_def split: if_splits)

text \<open>When no \<open>write\<close> fails, the inner loop ends only with all bytes written.\<close>

lemma write_loop_all:
  "write_loop b k ns = Some m \<Longrightarrow> \<forall>n\<in>set ns. n > 0 \<Longrightarrow> length b \<le> m"
  by (induction b k ns rule: write_loop.induct) (auto split: if_splits)

interpretation threaded: echo_handler threaded_round received sent "\<lambda>_. []" "\<lambda>(bytes, ns). \<forall>n\<in>set ns. n > 0"
proof unfold_locales
  fix c d :: connection and e :: "string \<times> int list"
  assume *: "threaded_round c e = Some d"
  then show "prefix (sent c) (sent d) \<and> prefix (received c) (received d)"
    by (auto simp: threaded_round_def split: prod.splits if_splits option.splits)
  assume "case e of (bytes, ns) \<Rightarrow> \<forall>n\<in>set ns. n > 0" "sent c @ [] = received c"
  with * show "sent d @ [] = received d"
    using write_loop_all [of "fst e" 0 "snd e"]
    by (auto simp: threaded_round_def split: prod.splits if_splits option.splits)
qed

lemma write_some_simps [simp]:
  "sent (write_some x c) @ buffer (write_some x c) = sent c @ buffer c" "received (write_some x c) = received c"
  "buffer_capacity (write_some x c) = buffer_capacity c" "length (buffer (write_some x c)) \<le> length (buffer c)"
  "sent b = sent c \<Longrightarrow> prefix (sent b) (sent (write_some x c))"
  by (simp_all add: write_some_def)

lemma read_some_length: "read_some x n = Some bytes \<Longrightarrow> length bytes \<le> n \<and> bytes \<noteq> []"
  by (auto simp: read_some_def split: option.splits if_splits)

text \<open>The cases in which a client goes on, as one rule.\<close>

lemma client_event_Some:
  assumes "client_event c x = Some d"
  obtains bytes where "length bytes \<le> buffer_capacity c - length (buffer c)" "\<not> hangup x"
    "pollin x \<longleftrightarrow> bytes \<noteq> []"
    "d = (if buffer c @ bytes = [] then c
          else write_some x (c\<lparr>buffer := buffer c @ bytes, received := received c @ bytes\<rparr>))"
proof (cases "pollin x")
  case True
  with assms obtain bytes where b: "read_some x (buffer_capacity c - length (buffer c)) = Some bytes"
    by (auto simp: client_event_def split: option.splits)
  with assms True read_some_length [OF b] show ?thesis
    by (intro that [of bytes]) (auto simp: client_event_def split: if_splits)
next
  case False
  with assms show ?thesis by (intro that [of "[]"]) (auto simp: client_event_def split: if_splits)
qed

interpretation poll: echo_handler client_event received sent buffer "\<lambda>_. True"
  by unfold_locales (erule client_event_Some, auto split: if_splits)+

definition client_ok :: "client \<Rightarrow> bool" where
  "client_ok c \<longleftrightarrow> sent c @ buffer c = received c \<and> buffer_capacity c = BUFFER_SIZE \<and> length (buffer c) \<le> BUFFER_SIZE"

lemma new_client_ok [simp]: "client_ok (new_client fd)"
  by (simp add: client_ok_def new_client_def)

lemma client_event_ok:
  assumes "client_event c x = Some d" "client_ok c"
  shows "client_ok d"
proof -
  obtain bytes where b: "length bytes \<le> buffer_capacity c - length (buffer c)"
    "d = (if buffer c @ bytes = [] then c
          else write_some x (c\<lparr>buffer := buffer c @ bytes, received := received c @ bytes\<rparr>))"
    by (rule client_event_Some [OF assms(1)])
  let ?e = "c\<lparr>buffer := buffer c @ bytes, received := received c @ bytes\<rparr>"
  have "length (buffer (write_some x ?e)) \<le> length (buffer ?e)" by (rule write_some_simps)
  also have "\<dots> \<le> BUFFER_SIZE" using b(1) assms(2) by (auto simp: client_ok_def)
  finally show ?thesis using b(2) assms(2) poll.keeps [OF assms(1)] by (auto simp: client_ok_def)
qed

section \<open>The state of the event loop\<close>

text \<open>
  Slots in use have a descriptor and a client, slots of closed connections have neither, and the
  counter is the number of clients.
\<close>

definition poll_inv :: "poll_server \<Rightarrow> bool" where
  "poll_inv s \<longleftrightarrow> 1 \<le> nfds s \<and> nfds s \<le> MAX_CLIENTS \<and> dom (clients s) \<subseteq> {1..<nfds s} \<and>
     (\<forall>i\<in>{1..<nfds s}. fd_at s i \<ge> 0 \<longleftrightarrow> i \<in> dom (clients s)) \<and>
     active_clients s = int (card (dom (clients s))) \<and> (\<forall>c\<in>ran (clients s). client_ok c)"

lemma poll_finite: "poll_inv s \<Longrightarrow> finite (dom (clients s))"
  by (auto simp: poll_inv_def intro: finite_subset)

lemma poll_start_inv: "poll_inv (poll_start fd)"
  by (simp add: poll_inv_def poll_start_def MAX_CLIENTS_def)

lemma accept_one_inv:
  assumes "poll_inv s" "fst conn \<ge> 0"
  shows "poll_inv (accept_one conn s)"
proof (cases "snd conn \<and> nfds s < MAX_CLIENTS")
  case True
  have new: "nfds s \<notin> dom (clients s)" using assms(1) by (auto simp: poll_inv_def)
  then have "card (insert (nfds s) (dom (clients s))) = Suc (card (dom (clients s)))"
    using poll_finite [OF assms(1)] by simp
  moreover have "ran ((clients s)(nfds s \<mapsto> new_client (fst conn))) = insert (new_client (fst conn)) (ran (clients s))"
    using new by (simp add: ran_map_upd domIff)
  ultimately show ?thesis using True assms
    by (auto simp: poll_inv_def accept_one_def less_Suc_eq split: prod.splits)
qed (use assms in \<open>auto simp: accept_one_def split: prod.splits\<close>)

lemma accept_loop_inv:
  "poll_inv s \<Longrightarrow> \<forall>conn\<in>set conns. fst conn \<ge> 0 \<Longrightarrow> poll_inv (accept_loop conns s)"
  by (induction conns arbitrary: s) (simp_all add: accept_loop_def accept_one_inv)

lemma ran_upd: "ran (m(i := None)) \<subseteq> ran m" "ran (m(i \<mapsto> y)) \<subseteq> insert y (ran m)"
  by (auto simp: ran_def split: if_splits)

lemma handle_slot_inv:
  assumes "poll_inv s" "1 \<le> i" "i < nfds s"
  shows "poll_inv (handle_slot ios i s)" "nfds (handle_slot ios i s) = nfds s"
proof -
  show "nfds (handle_slot ios i s) = nfds s" by (simp add: handle_slot_def split: option.splits)
  show "poll_inv (handle_slot ios i s)"
  proof (cases "clients s i")
    case None
    then show ?thesis using assms(1) by (simp add: handle_slot_def)
  next
    case (Some c)
    then have i: "i \<in> dom (clients s)" "fd_at s i \<ge> 0" using assms by (auto simp: poll_inv_def)
    have fin: "finite (dom (clients s))" by (rule poll_finite [OF assms(1)])
    have ok: "client_ok c" using Some assms(1) by (auto simp: poll_inv_def ran_def)
    show ?thesis
    proof (cases "client_event c (ios i)")
      case None
      have "int (card (dom (clients s) - {i})) = int (card (dom (clients s))) - 1"
        using card_Suc_Diff1 [OF fin i(1)] by linarith
      then show ?thesis using None Some i assms ran_upd(1) [of "clients s" i]
        by (auto simp: poll_inv_def handle_slot_def)
    next
      case (Some d)
      then have "client_ok d" using ok by (rule client_event_ok)
      moreover have "dom ((clients s)(i \<mapsto> d)) = dom (clients s)" using i(1) by auto
      ultimately show ?thesis using Some \<open>clients s i = Some c\<close> i assms ran_upd(2) [of "clients s" i d]
        by (auto simp: poll_inv_def handle_slot_def simp del: dom_fun_upd)
    qed
  qed
qed

lemma handle_slots_inv:
  "poll_inv s \<Longrightarrow> \<forall>i\<in>set is. 1 \<le> i \<and> i < nfds s \<Longrightarrow> poll_inv (fold (handle_slot ios) is s) \<and>
     nfds (fold (handle_slot ios) is s) = nfds s"
  by (induction "is" arbitrary: s) (simp_all add: handle_slot_inv)

lemma poll_round_inv:
  "poll_inv s \<Longrightarrow> \<forall>conn\<in>set (fst r). fst conn \<ge> 0 \<Longrightarrow> poll_inv (poll_round r s)"
  using accept_loop_inv handle_slots_inv by (cases r) (auto simp: poll_round_def Let_def)

lemma poll_loop_inv:
  "poll_inv s \<Longrightarrow> \<forall>r\<in>set rounds. \<forall>conn\<in>set (fst r). fst conn \<ge> 0 \<Longrightarrow> poll_inv (poll_loop rounds s)"
  by (induction rounds arbitrary: s) (simp_all add: poll_loop_def poll_round_inv)

section \<open>Runs of the event loop\<close>


text \<open>Connections fill the slots in order, and slots are not given back.\<close>

lemma accept_one_slots:
  "nfds (accept_one (fd, True) s) = (if nfds s < MAX_CLIENTS then nfds s + 1 else nfds s)"
  by (simp add: accept_one_def)

lemma accept_loop_slots:
  "nfds s \<le> MAX_CLIENTS \<Longrightarrow> nfds (accept_loop (replicate n (fd, True)) s) = min MAX_CLIENTS (nfds s + n)"
proof (induction n arbitrary: s)
  case (Suc n)
  then show ?case using Suc.IH [of "accept_one (fd, True) s"]
    by (simp add: accept_loop_def accept_one_slots)
qed (simp add: accept_loop_def)

lemma accept_full: "nfds s = MAX_CLIENTS \<Longrightarrow> accept_loop conns s = s"
proof (induction conns)
  case (Cons conn conns)
  then have "accept_one conn s = s" by (cases conn) (simp add: accept_one_def)
  with Cons show ?case by (simp add: accept_loop_def)
qed (simp add: accept_loop_def)

definition hung_up :: io where
  "hung_up = \<lparr>pollin = False, hangup = True, available = None, wrote = 0\<rparr>"

lemma hung_up_closes:
  assumes "poll_inv s" "1 \<le> i" "i < nfds s"
  shows "dom (clients (handle_slot (\<lambda>_. hung_up) i s)) = dom (clients s) - {i}"
proof (cases "clients s i")
  case (Some c)
  then have "fd_at s i \<ge> 0" using assms by (auto simp: poll_inv_def)
  with Some show ?thesis by (simp add: handle_slot_def client_event_def hung_up_def)
qed (auto simp: handle_slot_def)

lemma all_hung_up:
  "poll_inv s \<Longrightarrow> \<forall>i\<in>set is. 1 \<le> i \<and> i < nfds s \<Longrightarrow>
     dom (clients (fold (handle_slot (\<lambda>_. hung_up)) is s)) = dom (clients s) - set is"
proof (induction "is" arbitrary: s)
  case (Cons i "is")
  then have "poll_inv (handle_slot (\<lambda>_. hung_up) i s)" "nfds (handle_slot (\<lambda>_. hung_up) i s) = nfds s"
    using handle_slot_inv by simp_all
  with Cons hung_up_closes [of s i] show ?case by auto
qed simp

section \<open>Properties\<close>

text \<open>
  C21: The contract of an echo server. A thread of \<open>server_threaded.c\<close> has sent exactly what it has
  received when no \<open>write\<close> has failed, however many calls of \<open>write\<close> it takes; a thread of
  \<open>signal_server.c\<close> when every \<open>write\<close> has taken all bytes at once; the event loop of
  \<open>server_epoll.c\<close> has, whatever happens on the socket, sent a prefix of what it has received and
  still holds the rest.
\<close>

theorem servers_echo:
  "(serve threaded_round new_connection rounds = Some c \<and> (\<forall>(bytes, ns)\<in>set rounds. \<forall>n\<in>set ns. n > 0) \<longrightarrow>
       sent c = received c) \<and>
     (serve single_round new_connection rounds1 = Some c1 \<and> (\<forall>(bytes, n)\<in>set rounds1. n = int (length bytes)) \<longrightarrow>
       sent c1 = received c1) \<and>
     (serve client_event (new_client fd) xs = Some d \<longrightarrow> sent d @ buffer d = received d)"
  using threaded.serve_keeps [of new_connection rounds c] single.serve_keeps [of new_connection rounds1 c1]
    poll.serve_keeps [of "new_client fd" xs d]
  by (auto simp: new_client_def case_prod_unfold)

theorem servers_echo_witness:
  "\<exists>c. serve threaded_round new_connection [(''hello'', [2, 3])] = Some c \<and>
     received c = ''hello'' \<and> sent c = received c"
  using servers_echo [of "[(''hello'', [2, 3])]"] by (simp add: threaded_round_def)

text \<open>
  When a \<open>write\<close> is short or fails, the threads lose bytes: a thread of \<open>signal_server.c\<close> drops the
  bytes a short \<open>write\<close> has not taken, and a thread of \<open>server_threaded.c\<close> drops the rest of the
  buffer after a failed \<open>write\<close> and goes on with the next \<open>read\<close>, so that the client gets a gap.
\<close>

theorem short_writes_lose:
  "(\<forall>c bytes n. bytes \<noteq> [] \<and> 0 \<le> n \<and> n < int (length bytes) \<longrightarrow>
      (\<exists>d. single_round c (bytes, n) = Some d \<and> received d = received c @ bytes \<and>
         sent d = sent c @ take (nat n) bytes \<and> sent d \<noteq> sent c @ bytes)) \<and>
   (\<forall>c. \<exists>d. serve threaded_round c [(''ab'', [1, - 1]), (''cd'', [2])] = Some d \<and>
      received d = received c @ ''abcd'' \<and> sent d = sent c @ ''acd'')"
proof -
  have "take (nat n) bytes \<noteq> bytes" if "n < int (length bytes)" "0 \<le> n" for n and bytes :: string
  proof
    assume "take (nat n) bytes = bytes"
    then have "length bytes \<le> nat n" by (metis length_take min.cobounded2)
    with that show False by simp
  qed
  then show ?thesis by (auto simp: single_round_def threaded_round_def)
qed

theorem short_writes_lose_witness:
  "\<exists>d. single_round new_connection (''abc'', 2) = Some d \<and> sent d = ''ab'' \<and> received d = ''abc''"
  using short_writes_lose [THEN conjunct1, THEN spec, of "new_connection", THEN spec, of "''abc''", THEN spec, of 2]
  by auto

text \<open>
  C22: The state of the event loop is well formed after any sequence of rounds: every slot in use has
  a descriptor and a client, whose buffer holds at most \<open>BUFFER_SIZE\<close> bytes, exactly those received
  and not yet sent; \<open>active_clients\<close> is the number of clients; and the cleanup at the end frees
  every client that is still there, once.
\<close>

theorem poll_server_well_formed:
  assumes "\<forall>r\<in>set rounds. \<forall>conn\<in>set (fst r). fst conn \<ge> 0"
    and "s = poll_loop rounds (poll_start listen_fd)"
  shows "(\<forall>i c. clients s i = Some c \<longrightarrow> sent c @ buffer c = received c \<and> length (buffer c) \<le> BUFFER_SIZE) \<and>
     active_clients s = int (card (dom (clients s))) \<and>
     set (poll_cleanup s) = dom (clients s) \<and> distinct (poll_cleanup s) \<and> nfds s \<le> MAX_CLIENTS"
proof -
  have inv: "poll_inv s" unfolding assms(2) by (rule poll_loop_inv [OF poll_start_inv assms(1)])
  then have "client_ok c" if "clients s i = Some c" for i c
    using that by (auto simp: poll_inv_def ran_def)
  moreover have "set (poll_cleanup s) = dom (clients s)"
    using inv unfolding poll_inv_def poll_cleanup_def by (auto simp del: One_nat_def)
  ultimately show ?thesis using inv by (auto simp: client_ok_def poll_inv_def poll_cleanup_def)
qed

theorem poll_server_well_formed_witness:
  "active_clients (poll_loop [([(5, True)], \<lambda>_. hung_up)] (poll_start 3)) = 0"
  using poll_server_well_formed [OF _ refl, of "[([(5, True)], \<lambda>_. hung_up)]" 3]
  by (simp add: poll_loop_def poll_round_def Let_def accept_loop_def accept_one_def poll_start_def MAX_CLIENTS_def
      handle_slot_def client_event_def hung_up_def)



text \<open>
  A client that does not read while it sends loses its connection and its bytes: when
  \<open>BUFFER_SIZE\<close> bytes are waiting, \<open>read\<close> is called with no room, returns 0, and this is taken for
  the end of the input. The same happens to a connection in the round in which it is accepted when
  the memory of its entry, which \<open>poll\<close> has not set, has \<open>POLLIN\<close> in it and no bytes are there yet.
\<close>

theorem poll_drops_connections:
  "(\<exists>xs c. serve client_event (new_client fd) xs = Some c \<and> length (buffer c) = BUFFER_SIZE \<and> sent c = [] \<and>
      (\<forall>x. pollin x \<longrightarrow> client_event c x = None)) \<and>
   (\<forall>ios. fd \<ge> 0 \<and> pollin (ios 1) \<and> available (ios 1) = None \<longrightarrow>
      clients (poll_round ([(fd, True)], ios) (poll_start listen_fd)) 1 = None)"
proof -
  let ?b = "replicate BUFFER_SIZE CHR ''x''"
  let ?x = "\<lparr>pollin = True, hangup = False, available = Some ?b, wrote = - 1\<rparr>"
  let ?c = "(new_client fd)\<lparr>buffer := ?b, received := ?b\<rparr>"
  have "serve client_event (new_client fd) [?x] = Some ?c"
    by (simp add: client_event_def read_some_def write_some_def new_client_def BUFFER_SIZE_def)
  moreover have "\<forall>x. pollin x \<longrightarrow> client_event ?c x = None"
    by (auto simp: client_event_def read_some_def new_client_def split: option.splits)
  ultimately have "\<exists>xs c. serve client_event (new_client fd) xs = Some c \<and> length (buffer c) = BUFFER_SIZE \<and>
      sent c = [] \<and> (\<forall>x. pollin x \<longrightarrow> client_event c x = None)"
    by (intro exI [of _ "[?x]"] exI [of _ ?c]) (simp add: new_client_def)
  then show ?thesis
    by (auto simp: poll_round_def Let_def accept_loop_def accept_one_def poll_start_def MAX_CLIENTS_def
        handle_slot_def client_event_def read_some_def)
qed

theorem poll_drops_connections_witness:
  "clients (poll_round ([(5, True)], \<lambda>_. \<lparr>pollin = True, hangup = False, available = None, wrote = 0\<rparr>) (poll_start 3)) 1 = None"
  using poll_drops_connections [of 5 3] by auto

text \<open>
  The event loop accepts at most 9999 connections in its life: slots of closed connections are
  not used again. There is a run after which no client is left and every further connection is
  refused.
\<close>

theorem poll_slots_exhausted:
  "\<exists>rounds. let s = poll_loop rounds (poll_start 3) in
     active_clients s = 0 \<and> (\<forall>conns. accept_loop conns s = s)"
proof -
  let ?conns = "replicate 9999 (4 :: int, True)"
  define a where "a = accept_loop ?conns (poll_start 3)"
  define s where "s = fold (handle_slot (\<lambda>_. hung_up)) [1..<nfds a] a"
  have inv: "poll_inv a" unfolding a_def by (rule accept_loop_inv [OF poll_start_inv]) simp
  have full: "nfds a = MAX_CLIENTS"
    using accept_loop_slots [of "poll_start 3" 9999 4] by (simp add: a_def poll_start_def MAX_CLIENTS_def)
  have s: "poll_inv s" "nfds s = MAX_CLIENTS"
    using handle_slots_inv [OF inv, of "[1..<nfds a]" "\<lambda>_. hung_up"] full by (simp_all add: s_def)
  have "dom (clients s) = dom (clients a) - set [1..<nfds a]"
    unfolding s_def by (rule all_hung_up [OF inv]) auto
  then have "dom (clients s) = {}" using inv by (auto simp: poll_inv_def)
  then have "active_clients s = 0" using s(1) by (simp add: poll_inv_def)
  moreover have "poll_loop [(?conns, \<lambda>_. hung_up)] (poll_start 3) = s"
    by (simp add: poll_loop_def poll_round_def Let_def a_def s_def)
  ultimately show ?thesis using accept_full [OF s(2)] by (metis (no_types, lifting))
qed

end
