(* ===== verification/Server_Programs.thy ===== *)
theory Server_Programs
  imports Signal_Server Echo_Server
begin

text \<open>
  The main functions of the three servers: the creation of the listening socket with its failure
  paths, the loop of \<open>server_epoll.c\<close> with the memory and the descriptors it holds, and the accept
  loop of \<open>server_threaded.c\<close> together with the threads it starts.

  What is acquired and released is a sequence of events, replayed by \<open>live\<close> of theory \<open>Prelude\<close>.
  The results of the system calls and of \<open>malloc\<close> are arguments. \<open>read\<close> into a null pointer fails
  with \<open>EFAULT\<close>; this is how the kernel treats it, and not undefined.
\<close>

datatype server_resource =
    Listen_Socket
  | Client_Socket int
  | Server_Mutex
  | Drain_Cond
  | Fds_Array
  | Clients_Array
  | Client_Struct nat
  | Client_Buffer nat

type_synonym server_events = "server_resource resource_event list"

section \<open>The listening socket\<close>

record socket_calls =
  socket_ret :: int
  setsockopt_ret :: int
  bind_ret :: int
  listen_ret :: int
  getfl_ret :: int
  setfl_ret :: int

text \<open>
  What \<open>main\<close> has done when it returns early, with its exit status, or reaches its loop (\<open>None\<close>).
\<close>

definition threaded_setup :: "socket_calls \<Rightarrow> server_events \<times> int option" where
  "threaded_setup k =
     (if socket_ret k < 0 then ([], Some 1)
      else if setsockopt_ret k < 0 then ([Acquire Listen_Socket, Release Listen_Socket], Some 1)
      else if bind_ret k < 0 then ([Acquire Listen_Socket, Release Listen_Socket], Some 1)
      else if listen_ret k < 0 then ([Acquire Listen_Socket, Release Listen_Socket], Some 1)
      else ([Acquire Listen_Socket], None))"

definition set_nonblocking :: "int \<Rightarrow> int \<Rightarrow> int" where
  "set_nonblocking getfl setfl = (if getfl < 0 then - 1 else setfl)"

definition poll_setup :: "socket_calls \<Rightarrow> server_events \<times> int option" where
  "poll_setup k =
     (if socket_ret k < 0 then ([], Some 1)
      else if bind_ret k < 0 then ([Acquire Listen_Socket, Release Listen_Socket], Some 1)
      else if listen_ret k < 0 then ([Acquire Listen_Socket, Release Listen_Socket], Some 1)
      else if set_nonblocking (getfl_ret k) (setfl_ret k) < 0
        then ([Acquire Listen_Socket, Release Listen_Socket], Some 1)
      else ([Acquire Listen_Socket], None))"

text \<open>\<open>signal_server.c\<close> first initialises the mutex and the condition variable and installs two handlers.\<close>

definition signal_setup :: "int \<Rightarrow> int \<Rightarrow> socket_calls \<Rightarrow> server_events \<times> int option" where
  "signal_setup sigint_ret sigterm_ret k =
     (let held = [Acquire Server_Mutex, Acquire Drain_Cond] in
      if sigint_ret < 0 \<or> sigterm_ret < 0 then (held, Some 1)
      else if socket_ret k < 0 then (held, Some 1)
      else if setsockopt_ret k < 0 then (held @ [Acquire Listen_Socket], Some 1)
      else if bind_ret k < 0 then (held @ [Acquire Listen_Socket], Some 1)
      else if listen_ret k < 0 then (held @ [Acquire Listen_Socket], Some 1)
      else (held @ [Acquire Listen_Socket], None))"

text \<open>
  The contract of a setup: it either fails and has given back everything, or it leaves the
  resources \<open>kept\<close> to the rest of the program.
\<close>

locale clean_setup =
  fixes start :: "'k \<Rightarrow> server_events \<times> int option"
    and kept :: "server_resource list"
  assumes failure: "start k = (es, Some st) \<Longrightarrow> live es [] = Some [] \<and> st \<noteq> 0"
    and success: "start k = (es, None) \<Longrightarrow> live es [] = Some kept"
begin

text \<open>A program that ends with a cleanup of what its start keeps, holds nothing in the end.\<close>

lemma cleaned_up:
  assumes "\<And>es. start k = (es, None) \<Longrightarrow> live fs kept = Some []"
  shows "live (case start k of (es, Some st) \<Rightarrow> es | (es, None) \<Rightarrow> es @ fs) [] = Some []"
proof (cases "start k")
  case (Pair es r)
  then show ?thesis using assms [of es] failure [of k es] success [of k es]
    by (cases r) (auto simp: live_append)
qed

end

interpretation threaded_su: clean_setup threaded_setup "[Listen_Socket]"
  by unfold_locales (auto simp: threaded_setup_def split: if_splits)

interpretation poll_su: clean_setup poll_setup "[Listen_Socket]"
  by unfold_locales (auto simp: poll_setup_def split: if_splits)

text \<open>
  A failure of the setup of the two echo servers leaves nothing behind, one of \<open>signal_server.c\<close> after
  the call of \<open>socket\<close> leaves the descriptor, the mutex and the condition variable to the end of the
  process.
\<close>

theorem signal_setup_leaks:
  assumes "0 \<le> sigint_ret" "0 \<le> sigterm_ret" "0 \<le> socket_ret k" "setsockopt_ret k < 0 \<or> bind_ret k < 0 \<or> listen_ret k < 0"
  shows "\<exists>es. signal_setup sigint_ret sigterm_ret k = (es, Some 1) \<and>
      live es [] = Some [Listen_Socket, Drain_Cond, Server_Mutex]"
    and "\<exists>es. threaded_setup k = (es, Some 1) \<and> live es [] = Some []"
  using assms by (auto simp: signal_setup_def threaded_setup_def Let_def)

section \<open>The program \<open>server_epoll.c\<close>\<close>

text \<open>
  The state of theory \<open>Echo_Server\<close> with the events so far and, for every slot, whether the
  allocation of its buffer succeeded.
\<close>

record poll_run =
  server :: poll_server
  log :: server_events
  has_buffer :: "nat \<Rightarrow> bool"

text \<open>
  A connection that \<open>accept\<close> has returned: the descriptor, whether it could be made non-blocking, and
  whether the two allocations succeed. The first one is not checked before it is written to.
\<close>

definition accept_client :: "int \<times> bool \<times> bool \<times> bool \<Rightarrow> poll_run \<Rightarrow> poll_run c_result" where
  "accept_client = (\<lambda>(fd, nonblocking, client_malloc, buffer_malloc) r.
     let n = nfds (server r); r = r\<lparr>log := log r @ [Acquire (Client_Socket fd)]\<rparr> in
     if \<not> nonblocking then Inr (r\<lparr>log := log r @ [Release (Client_Socket fd)]\<rparr>)
     else if n < MAX_CLIENTS then
       if \<not> client_malloc then Inl Null_Dereference
       else Inr (r\<lparr>server := accept_one (fd, True) (server r),
                   log := log r @ Acquire (Client_Struct n) # (if buffer_malloc then [Acquire (Client_Buffer n)] else []),
                   has_buffer := (has_buffer r)(n := buffer_malloc)\<rparr>)
     else Inr (r\<lparr>log := log r @ [Release (Client_Socket fd)]\<rparr>))"

fun accept_clients :: "(int \<times> bool \<times> bool \<times> bool) list \<Rightarrow> poll_run \<Rightarrow> poll_run c_result" where
  "accept_clients [] r = Inr r"
| "accept_clients (x # xs) r = bind_r (accept_client x r) (accept_clients xs)"

text \<open>Closing the descriptor and freeing the buffer and the client of a slot; \<open>free (NULL)\<close> does nothing.\<close>

definition slot_closed :: "nat \<Rightarrow> poll_run \<Rightarrow> server_events" where
  "slot_closed i r =
     Release (Client_Socket (fd_at (server r) i)) #
     (if has_buffer r i then [Release (Client_Buffer i)] else []) @ [Release (Client_Struct i)]"

definition serve_slot :: "(nat \<Rightarrow> io) \<Rightarrow> nat \<Rightarrow> poll_run \<Rightarrow> poll_run" where
  "serve_slot ios i r =
     (let x = (if has_buffer r i then ios i else (ios i)\<lparr>available := None\<rparr>);
          s = handle_slot (ios(i := x)) i (server r) in
      r\<lparr>server := s,
        log := log r @ (if clients (server r) i \<noteq> None \<and> clients s i = None then slot_closed i r else [])\<rparr>)"

text \<open>
  What \<open>poll\<close> returns: it is interrupted, it fails, or it has filled in the events. The connections
  are those that \<open>accept\<close> returns before it fails, none when the listening socket is not ready. The
  list of outcomes ends when \<open>running\<close> is found to be zero.
\<close>

datatype poll_outcome =
    Poll_Interrupted
  | Poll_Failed
  | Poll_Ready "(int \<times> bool \<times> bool \<times> bool) list" "nat \<Rightarrow> io"

fun event_loop :: "poll_outcome list \<Rightarrow> poll_run \<Rightarrow> poll_run c_result" where
  "event_loop [] r = Inr r"
| "event_loop (Poll_Interrupted # os) r = event_loop os r"
| "event_loop (Poll_Failed # os) r = Inr r"
| "event_loop (Poll_Ready conns ios # os) r =
     bind_r (accept_clients conns r)
       (\<lambda>r. event_loop os (fold (serve_slot ios) [1..<nfds (server r)] r))"

definition final_cleanup :: "poll_run \<Rightarrow> server_events" where
  "final_cleanup r =
     concat (map (\<lambda>i. if clients (server r) i \<noteq> None then slot_closed i r
                      else [Release (Client_Socket (fd_at (server r) i))])
                 (poll_cleanup (server r)))
     @ [Release Fds_Array, Release Clients_Array, Release Listen_Socket]"

text \<open>The whole program: the events and the exit status, or undefined behaviour.\<close>

definition poll_main :: "socket_calls \<Rightarrow> bool \<Rightarrow> bool \<Rightarrow> poll_outcome list \<Rightarrow> (server_events \<times> int) c_result" where
  "poll_main k fds_malloc clients_malloc os =
     (case poll_setup k of
        (es, Some st) \<Rightarrow> Inr (es, st)
      | (es, None) \<Rightarrow>
          if \<not> fds_malloc \<or> \<not> clients_malloc then Inl Null_Dereference
          else bind_r (event_loop os \<lparr>server = poll_start (socket_ret k),
                   log = es @ [Acquire Fds_Array, Acquire Clients_Array], has_buffer = (\<lambda>_. False)\<rparr>)
                 (\<lambda>r. Inr (log r @ final_cleanup r, 0)))"

subsection \<open>What the event loop holds\<close>

definition slot_resources :: "int \<Rightarrow> bool \<Rightarrow> nat \<Rightarrow> server_resource multiset" where
  "slot_resources fd b i = {#Client_Socket fd, Client_Struct i#} + (if b then {#Client_Buffer i#} else {#})"

definition holding :: "poll_run \<Rightarrow> server_resource multiset" where
  "holding r = {#Listen_Socket, Fds_Array, Clients_Array#} +
     (\<Sum>i\<in>dom (clients (server r)). slot_resources (fd_at (server r) i) (has_buffer r i) i)"

definition run_ok :: "poll_run \<Rightarrow> bool" where
  "run_ok r \<longleftrightarrow> poll_inv (server r) \<and> net (log r) {#} = Some (holding r)"

lemma slot_released:
  "r = slot_resources (fd_at (server p) i) (has_buffer p i) i \<Longrightarrow> net (slot_closed i p) (r + M) = Some M"
  by (auto simp: slot_closed_def slot_resources_def)

text \<open>The resources of one slot can be taken out of the sum.\<close>

lemma holding_remove:
  assumes "run_ok r" "clients (server r) i \<noteq> None" "clients s = (clients (server r))(i := None)"
    and "\<And>j. j \<noteq> i \<Longrightarrow> fd_at s j = fd_at (server r) j"
  shows "holding r = slot_resources (fd_at (server r) i) (has_buffer r i) i + holding (r\<lparr>server := s, log := l\<rparr>)"
proof -
  let ?f = "\<lambda>j. slot_resources (fd_at (server r) j) (has_buffer r j) j"
  have "finite (dom (clients (server r)))" using assms(1) poll_finite by (simp add: run_ok_def)
  moreover have "i \<in> dom (clients (server r))" using assms(2) by auto
  ultimately have "sum ?f (dom (clients (server r))) = ?f i + sum ?f (dom (clients (server r)) - {i})"
    by (rule sum.remove)
  moreover have "sum ?f (dom (clients (server r)) - {i}) =
      sum (\<lambda>j. slot_resources (fd_at s j) (has_buffer r j) j) (dom (clients s))"
    using assms(3,4) by (intro sum.cong) auto
  ultimately show ?thesis by (simp add: holding_def)
qed

lemma accept_client_ok:
  assumes "run_ok r" "0 \<le> fd" "accept_client (fd, nb, cm, bm) r = Inr r'"
  shows "run_ok r'"
proof (cases "nb \<and> nfds (server r) < MAX_CLIENTS")
  case True
  let ?n = "nfds (server r)" and ?s = "accept_one (fd, True) (server r)"
  have inv: "poll_inv (server r)" and held: "net (log r) {#} = Some (holding r)"
    using assms(1) by (simp_all add: run_ok_def)
  have n: "?n \<notin> dom (clients (server r))" using inv by (auto simp: poll_inv_def)
  have r': "r' = r\<lparr>server := ?s, log := (log r @ [Acquire (Client_Socket fd)]) @
      Acquire (Client_Struct ?n) # (if bm then [Acquire (Client_Buffer ?n)] else []),
      has_buffer := (has_buffer r)(?n := bm)\<rparr>"
    using True assms(3) by (simp add: accept_client_def Let_def split: if_splits)
  let ?f = "\<lambda>j. slot_resources (fd_at (server r) j) (has_buffer r j) j"
    and ?g = "\<lambda>j. slot_resources (fd_at ?s j) (((has_buffer r)(?n := bm)) j) j"
  have d: "dom (clients ?s) = insert ?n (dom (clients (server r)))" and g: "?g ?n = slot_resources fd bm ?n"
    using True by (simp_all add: accept_one_def)
  have "sum ?g (dom (clients (server r))) = sum ?f (dom (clients (server r)))"
    using True n by (intro sum.cong) (auto simp: accept_one_def)
  then have "sum ?g (dom (clients ?s)) = slot_resources fd bm ?n + sum ?f (dom (clients (server r)))"
    unfolding d using n poll_finite [OF inv] g by (simp add: sum.insert)
  then have "holding r' = slot_resources fd bm ?n + holding r" by (simp add: holding_def r')
  moreover have "net (log r') {#} = Some (slot_resources fd bm ?n + holding r)"
    using held by (simp add: r' net_append slot_resources_def)
  moreover have "poll_inv (server r')" using accept_one_inv [OF inv, of "(fd, True)"] assms(2) by (simp add: r')
  ultimately show ?thesis by (simp add: run_ok_def)
next
  case False
  then show ?thesis using assms
    by (auto simp: accept_client_def Let_def run_ok_def net_append holding_def split: if_splits)
qed

lemma accept_clients_ok:
  "run_ok r \<Longrightarrow> \<forall>x\<in>set xs. 0 \<le> fst x \<Longrightarrow> accept_clients xs r = Inr r' \<Longrightarrow> run_ok r'"
proof (induction xs r rule: accept_clients.induct)
  case (2 x xs r)
  from 2(4) obtain q where "accept_client x r = Inr q" "accept_clients xs q = Inr r'" by auto
  moreover have "run_ok q" using accept_client_ok [of r "fst x"] 2(2,3) calculation(1) by (cases x) auto
  ultimately show ?case using 2(1) 2(3) by simp
qed simp

lemma serve_slot_ok:
  assumes "run_ok r" "1 \<le> i" "i < nfds (server r)"
  shows "run_ok (serve_slot ios i r) \<and> nfds (server (serve_slot ios i r)) = nfds (server r)"
proof -
  define x where "x = (if has_buffer r i then ios i else (ios i)\<lparr>available := None\<rparr>)"
  define s where "s = handle_slot (ios(i := x)) i (server r)"
  have inv: "poll_inv (server r)" and held: "net (log r) {#} = Some (holding r)"
    using assms(1) by (simp_all add: run_ok_def)
  have s: "poll_inv s" "nfds s = nfds (server r)" unfolding s_def by (rule handle_slot_inv [OF inv assms(2,3)])+
  have run: "serve_slot ios i r = r\<lparr>server := s,
      log := log r @ (if clients (server r) i \<noteq> None \<and> clients s i = None then slot_closed i r else [])\<rparr>"
    by (simp add: serve_slot_def Let_def s_def x_def)
  have "net (log (serve_slot ios i r)) {#} = Some (holding (serve_slot ios i r))"
  proof (cases "clients (server r) i \<noteq> None \<and> clients s i = None")
    case True
    then have "clients s = (clients (server r))(i := None)" "\<And>j. j \<noteq> i \<Longrightarrow> fd_at s j = fd_at (server r) j"
      by (auto simp: s_def handle_slot_def split: option.splits if_splits)
    note h = holding_remove [OF assms(1) conjunct1 [OF True] this]
    have "net (slot_closed i r) (holding r) = Some (holding (serve_slot ios i r))"
      unfolding run using True slot_released [OF refl] by (subst h) simp
    with held show ?thesis by (simp add: run True net_append)
  next
    case False
    then have "dom (clients s) = dom (clients (server r))" "fd_at s = fd_at (server r)"
      by (auto simp: s_def handle_slot_def split: option.splits if_splits)
    moreover have "serve_slot ios i r = r\<lparr>server := s\<rparr>" using False by (auto simp: run)
    ultimately show ?thesis using held by (simp add: holding_def)
  qed
  with s show ?thesis by (simp add: run_ok_def run)
qed

lemma serve_slots_ok:
  "run_ok r \<Longrightarrow> \<forall>i\<in>set is. 1 \<le> i \<and> i < nfds (server r) \<Longrightarrow> run_ok (fold (serve_slot ios) is r)"
  by (induction "is" arbitrary: r) (simp_all add: serve_slot_ok)

text \<open>\<open>accept\<close> has returned a descriptor, not an error.\<close>

fun descriptors_ok :: "poll_outcome \<Rightarrow> bool" where
  "descriptors_ok (Poll_Ready conns ios) = (\<forall>x\<in>set conns. 0 \<le> fst x)"
| "descriptors_ok _ = True"

lemma event_loop_ok:
  "event_loop os r = Inr r' \<Longrightarrow> run_ok r \<Longrightarrow> \<forall>x\<in>set os. descriptors_ok x \<Longrightarrow> run_ok r'"
proof (induction os r rule: event_loop.induct)
  case (4 conns ios os r)
  from 4(2) obtain q where q: "accept_clients conns r = Inr q"
    "event_loop os (fold (serve_slot ios) [1..<nfds (server q)] q) = Inr r'" by auto
  have "run_ok q" using accept_clients_ok [OF 4(3) _ q(1)] 4(4) by simp
  then have "run_ok (fold (serve_slot ios) [1..<nfds (server q)] q)" by (rule serve_slots_ok) simp
  with 4(1) [OF q(2)] 4(4) show ?case by simp
qed auto

lemma cleanup_slots:
  assumes "distinct is" "\<forall>i\<in>set is. clients (server r) i \<noteq> None"
  shows "net (concat (map (\<lambda>i. slot_closed i r) is))
      ((\<Sum>i\<in>set is. slot_resources (fd_at (server r) i) (has_buffer r i) i) + M) = Some M"
  using assms
proof (induction "is")
  case (Cons i "is")
  have "(\<Sum>i\<in>set (i # is). slot_resources (fd_at (server r) i) (has_buffer r i) i) =
      slot_resources (fd_at (server r) i) (has_buffer r i) i +
      (\<Sum>i\<in>set is. slot_resources (fd_at (server r) i) (has_buffer r i) i)"
    using Cons.prems(1) by simp
  with Cons slot_released [OF refl, where p = r and i = i] show ?case
    by (simp add: net_append add.assoc)
qed simp

lemma final_cleanup_releases:
  assumes "run_ok r"
  shows "net (final_cleanup r) (holding r) = Some {#}"
proof -
  let ?is = "poll_cleanup (server r)"
  have is_dom: "set ?is = dom (clients (server r))" "distinct ?is"
    using assms by (auto simp: run_ok_def poll_inv_def poll_cleanup_def)
  then have m: "map (\<lambda>i. if clients (server r) i \<noteq> None then slot_closed i r
        else [Release (Client_Socket (fd_at (server r) i))]) ?is = map (\<lambda>i. slot_closed i r) ?is"
    by (intro map_cong) auto
  have "\<forall>i\<in>set ?is. clients (server r) i \<noteq> None" using is_dom(1) by auto
  from cleanup_slots [OF is_dom(2) this, of "{#Listen_Socket, Fds_Array, Clients_Array#}"]
  have "net (concat (map (\<lambda>i. slot_closed i r) ?is)) (holding r) = Some {#Listen_Socket, Fds_Array, Clients_Array#}"
    by (simp add: holding_def is_dom(1) add.commute)
  then show ?thesis unfolding final_cleanup_def m by (simp add: net_append)
qed

section \<open>Properties of the event-driven server\<close>

text \<open>
  C29: \<open>server_epoll.c\<close> gives back what it acquires. On every path through the program that does not run
  out of memory, whatever the results of the system calls, the connections and the events are, the
  descriptors, buffers, client structures and arrays are released exactly once by the time \<open>main\<close>
  returns, with status 0 exactly when the socket could be set up.
\<close>

theorem poll_main_releases_all:
  assumes "poll_main k fds_malloc clients_malloc os = Inr (es, st)" "\<forall>x\<in>set os. descriptors_ok x"
  shows "live es [] = Some [] \<and> (st = 0 \<longleftrightarrow> snd (poll_setup k) = None)"
proof (cases "poll_setup k")
  case (Pair fs ret)
  show ?thesis
  proof (cases ret)
    case (Some st')
    with Pair assms(1) poll_su.failure [of k fs st'] show ?thesis by (simp add: poll_main_def)
  next
    case None
    let ?r = "\<lparr>server = poll_start (socket_ret k), log = fs @ [Acquire Fds_Array, Acquire Clients_Array],
        has_buffer = (\<lambda>_. False)\<rparr>"
    obtain r where r: "event_loop os ?r = Inr r" "es = log r @ final_cleanup r" "st = 0"
      using Pair None assms(1) by (auto simp: poll_main_def split: if_splits)
    have "live fs [] = Some [Listen_Socket]" using Pair None by (intro poll_su.success) simp
    then have "net fs {#} = Some {#Listen_Socket#}" using live_net [of fs "[]"] by simp
    then have "run_ok ?r" by (simp add: run_ok_def poll_start_inv net_append holding_def) (simp add: poll_start_def add_mset_commute)
    from event_loop_ok [OF r(1) this assms(2)] have ok: "run_ok r" .
    then have "net es {#} = Some {#}" using final_cleanup_releases by (simp add: r(2) net_append run_ok_def)
    then show ?thesis using Pair None r(3) by (simp add: live_empty)
  qed
qed

theorem poll_main_releases_all_witness:
  "\<exists>es. poll_main \<lparr>socket_ret = 3, setsockopt_ret = 0, bind_ret = 0, listen_ret = 0, getfl_ret = 0, setfl_ret = 0\<rparr>
      True True [Poll_Interrupted, Poll_Ready [(4, True, True, True), (5, False, True, True)]
        (\<lambda>_. \<lparr>pollin = True, hangup = False, available = Some ''hello'', wrote = 3\<rparr>),
        Poll_Ready [(5, True, True, False)] (\<lambda>_. \<lparr>pollin = True, hangup = False, available = None, wrote = 0\<rparr>)] =
      Inr (es, 0) \<and> Acquire (Client_Socket 4) \<in> set es \<and> live es [] = Some []"
proof -
  let ?k = "\<lparr>socket_ret = 3, setsockopt_ret = 0, bind_ret = 0, listen_ret = 0, getfl_ret = 0, setfl_ret = 0\<rparr>"
  let ?os = "[Poll_Interrupted, Poll_Ready [(4, True, True, True), (5, False, True, True)]
        (\<lambda>_. \<lparr>pollin = True, hangup = False, available = Some ''hello'', wrote = 3\<rparr>),
        Poll_Ready [(5, True, True, False)] (\<lambda>_. \<lparr>pollin = True, hangup = False, available = None, wrote = 0\<rparr>)]"
  have "case poll_main ?k True True ?os of Inl e \<Rightarrow> False | Inr (es, st) \<Rightarrow> st = 0 \<and> Acquire (Client_Socket 4) \<in> set es"
    by code_simp
  then obtain es where es: "poll_main ?k True True ?os = Inr (es, 0)" "Acquire (Client_Socket 4) \<in> set es"
    by (auto split: sum.splits)
  with poll_main_releases_all [OF es(1)] show ?thesis by auto
qed

text \<open>
  Running out of memory is the only undefined behaviour of the program: it is reached when one of
  the two arrays or a client structure cannot be allocated, and not otherwise. A buffer that
  cannot be allocated only costs the connection.
\<close>

fun allocations_ok :: "poll_outcome \<Rightarrow> bool" where
  "allocations_ok (Poll_Ready conns ios) = (\<forall>(fd, nonblocking, client_malloc, buffer_malloc)\<in>set conns. client_malloc)"
| "allocations_ok _ = True"

lemma accept_clients_returns:
  "\<forall>(fd, nb, cm, bm)\<in>set xs. cm \<Longrightarrow> \<exists>r'. accept_clients xs r = Inr r'"
proof (induction xs arbitrary: r)
  case (Cons x xs)
  moreover have "\<exists>q. accept_client x r = Inr q"
    using Cons.prems by (cases x) (auto simp: accept_client_def Let_def)
  ultimately show ?case by (auto simp del: bind_r_Inr)
qed simp

lemma event_loop_returns:
  "\<forall>x\<in>set os. allocations_ok x \<Longrightarrow> \<exists>r'. event_loop os r = Inr r'"
proof (induction os r rule: event_loop.induct)
  case (4 conns ios os r)
  then obtain q where q: "accept_clients conns r = Inr q" using accept_clients_returns [of conns r] by auto
  with 4(1) [of q] 4(2) show ?case by simp
qed auto

theorem poll_main_returns:
  assumes "fds_malloc" "clients_malloc" "\<forall>x\<in>set os. allocations_ok x"
  shows "\<exists>es st. poll_main k fds_malloc clients_malloc os = Inr (es, st)"
proof (cases "poll_setup k")
  case (Pair es ret)
  obtain r where "event_loop os \<lparr>server = poll_start (socket_ret k),
      log = es @ [Acquire Fds_Array, Acquire Clients_Array], has_buffer = (\<lambda>_. False)\<rparr> = Inr r"
    using event_loop_returns [OF assms(3)] by blast
  with Pair assms(1,2) show ?thesis by (cases ret) (simp_all add: poll_main_def)
qed

end
