(* ===== verification/Threaded_Server.thy ===== *)
theory Threaded_Server
  imports Server_Programs
begin

text \<open>
  The program \<open>04_networking/tcp_echo_server/server_threaded.c\<close> behind its setup: the main thread that
  accepts connections and one detached thread per connection.

  A step is a system call, a test of \<open>running\<close>, a critical section, or a round of the echo loop, which
  touches only data of its own thread. \<open>open_fds\<close> are the descriptors of the process; \<open>accept\<close>
  returns one that is not open. When \<open>main\<close> returns, the process ends, so no thread takes a step
  after that. The number of threads stays in the range of an \<open>int\<close>.
\<close>

section \<open>The code\<close>

datatype accept_pc =
    T_Check        \<comment> \<open>before the test of \<open>running\<close>\<close>
  | T_Accept       \<comment> \<open>in \<open>accept\<close>\<close>
  | T_Create int   \<comment> \<open>with the descriptor of a connection, before \<open>pthread_create\<close>\<close>
  | T_Count        \<comment> \<open>before the counter is incremented\<close>
  | T_Close        \<comment> \<open>after the loop\<close>
  | T_Sleep        \<comment> \<open>in \<open>sleep (1)\<close>\<close>
  | T_Return       \<comment> \<open>\<open>main\<close> has returned\<close>

datatype handler_pc =
    H_None
  | H_Test         \<comment> \<open>before the test of \<open>running\<close>\<close>
  | H_Read         \<comment> \<open>in \<open>read\<close>\<close>
  | H_Closed       \<comment> \<open>after \<open>close\<close>, before the counter is decremented\<close>
  | H_End

text \<open>
  \<open>bytes\<close> and \<open>failed\<close> are history variables: what a thread has received and sent, and whether one of
  its writes has failed. \<open>attrs\<close> is the number of attribute objects that have been initialised and
  not destroyed, \<open>final_count\<close> the number that is printed at the end.
\<close>

record threaded_server =
  running :: bool
  main_pc :: accept_pc
  handler_at :: "nat \<Rightarrow> handler_pc"
  handler_fd :: "nat \<Rightarrow> int"
  bytes :: "nat \<Rightarrow> connection"
  failed :: "nat \<Rightarrow> bool"
  handlers :: nat
  active :: int
  listen_fd :: int
  open_fds :: "int set"
  attrs :: nat
  refused :: nat
  final_count :: "int option"

definition threaded_init :: "threaded_server \<Rightarrow> bool" where
  "threaded_init s \<longleftrightarrow> (\<exists>fd\<ge>0. s = \<lparr>running = True, main_pc = T_Check, handler_at = (\<lambda>_. H_None),
     handler_fd = (\<lambda>_. 0), bytes = (\<lambda>_. new_connection), failed = (\<lambda>_. False), handlers = 0, active = 0,
     listen_fd = fd, open_fds = {fd}, attrs = 0, refused = 0, final_count = None\<rparr>)"

definition close_fd :: "int \<Rightarrow> threaded_server \<Rightarrow> threaded_server" where
  "close_fd fd s = s\<lparr>open_fds := open_fds s - {fd}\<rparr>"

text \<open>\<open>pthread_create\<close> fails: the connection is closed, the attribute object is left as it is.\<close>

definition create_failed :: "int \<Rightarrow> threaded_server \<Rightarrow> threaded_server" where
  "create_failed fd s = (close_fd fd s)\<lparr>attrs := attrs s + 1, refused := refused s + 1, main_pc := T_Check\<rparr>"

definition create_handler :: "int \<Rightarrow> threaded_server \<Rightarrow> threaded_server" where
  "create_handler fd s =
     (let n = handlers s in
      s\<lparr>handler_at := (handler_at s)(n := H_Test), handler_fd := (handler_fd s)(n := fd),
        bytes := (bytes s)(n := new_connection), failed := (failed s)(n := False), handlers := n + 1, main_pc := T_Count\<rparr>)"

text \<open>A round of the echo loop with the bytes read and the results of \<open>write\<close>.\<close>

definition echo_round :: "nat \<Rightarrow> string \<times> int list \<Rightarrow> connection \<Rightarrow> threaded_server \<Rightarrow> threaded_server" where
  "echo_round k e c s =
     s\<lparr>bytes := (bytes s)(k := c), failed := (failed s)(k := failed s k \<or> (\<exists>n\<in>set (snd e). n \<le> 0)),
       handler_at := (handler_at s)(k := H_Test)\<rparr>"

inductive threaded_step :: "threaded_server \<Rightarrow> threaded_server \<Rightarrow> bool" where
  interrupt: "main_pc s \<noteq> T_Return \<Longrightarrow> threaded_step s (s\<lparr>running := False\<rparr>)"
| loop_enter: "main_pc s = T_Check \<Longrightarrow> running s \<Longrightarrow> threaded_step s (s\<lparr>main_pc := T_Accept\<rparr>)"
| loop_leave: "main_pc s = T_Check \<Longrightarrow> \<not> running s \<Longrightarrow> threaded_step s (s\<lparr>main_pc := T_Close\<rparr>)"
| accept_fails: "main_pc s = T_Accept \<Longrightarrow> threaded_step s (s\<lparr>main_pc := T_Check\<rparr>)"
| accepted: "main_pc s = T_Accept \<Longrightarrow> 0 \<le> fd \<Longrightarrow> fd \<notin> open_fds s \<Longrightarrow>
    threaded_step s (s\<lparr>open_fds := insert fd (open_fds s), main_pc := T_Create fd\<rparr>)"
| create_error: "main_pc s = T_Create fd \<Longrightarrow> threaded_step s (create_failed fd s)"
| create_success: "main_pc s = T_Create fd \<Longrightarrow> threaded_step s (create_handler fd s)"
| count_client: "main_pc s = T_Count \<Longrightarrow> threaded_step s (s\<lparr>active := active s + 1, main_pc := T_Check\<rparr>)"
| close_listen: "main_pc s = T_Close \<Longrightarrow> threaded_step s ((close_fd (listen_fd s) s)\<lparr>main_pc := T_Sleep\<rparr>)"
| report: "main_pc s = T_Sleep \<Longrightarrow> threaded_step s (s\<lparr>final_count := Some (active s), main_pc := T_Return\<rparr>)"
| handler_run: "main_pc s \<noteq> T_Return \<Longrightarrow> handler_at s k = H_Test \<Longrightarrow> running s \<Longrightarrow>
    threaded_step s (s\<lparr>handler_at := (handler_at s)(k := H_Read)\<rparr>)"
| handler_stop: "main_pc s \<noteq> T_Return \<Longrightarrow> handler_at s k = H_Test \<Longrightarrow> \<not> running s \<Longrightarrow>
    threaded_step s ((close_fd (handler_fd s k) s)\<lparr>handler_at := (handler_at s)(k := H_Closed)\<rparr>)"
| handler_round: "main_pc s \<noteq> T_Return \<Longrightarrow> handler_at s k = H_Read \<Longrightarrow> threaded_round (bytes s k) e = Some c \<Longrightarrow>
    threaded_step s (echo_round k e c s)"
| handler_eof: "main_pc s \<noteq> T_Return \<Longrightarrow> handler_at s k = H_Read \<Longrightarrow>
    threaded_step s ((close_fd (handler_fd s k) s)\<lparr>handler_at := (handler_at s)(k := H_Closed)\<rparr>)"
| uncount_client: "main_pc s \<noteq> T_Return \<Longrightarrow> handler_at s k = H_Closed \<Longrightarrow>
    threaded_step s (s\<lparr>active := active s - 1, handler_at := (handler_at s)(k := H_End)\<rparr>)"

lemmas threaded_defs = close_fd_def create_failed_def create_handler_def echo_round_def Let_def

section \<open>The invariant\<close>

text \<open>The threads that hold a descriptor, and those that have not yet decremented the counter.\<close>

definition connected :: "threaded_server \<Rightarrow> nat set" where
  "connected s = {k. handler_at s k = H_Test \<or> handler_at s k = H_Read}"

definition uncounted :: "threaded_server \<Rightarrow> nat set" where
  "uncounted s = {k. handler_at s k = H_Test \<or> handler_at s k = H_Read \<or> handler_at s k = H_Closed}"

fun pending_fd :: "accept_pc \<Rightarrow> int set" where
  "pending_fd (T_Create fd) = {fd}"
| "pending_fd _ = {}"

definition listener :: "threaded_server \<Rightarrow> int set" where
  "listener s = (if main_pc s = T_Sleep \<or> main_pc s = T_Return then {} else {listen_fd s})"

definition handlers_numbered :: "threaded_server \<Rightarrow> bool" where
  "handlers_numbered s \<longleftrightarrow> {k. handler_at s k \<noteq> H_None} = {..<handlers s}"

text \<open>Every open descriptor has exactly one owner.\<close>

definition fds_owned :: "threaded_server \<Rightarrow> bool" where
  "fds_owned s \<longleftrightarrow> open_fds s = listener s \<union> pending_fd (main_pc s) \<union> handler_fd s ` connected s"

definition fds_separate :: "threaded_server \<Rightarrow> bool" where
  "fds_separate s \<longleftrightarrow> inj_on (handler_fd s) (connected s) \<and>
     listener s \<inter> pending_fd (main_pc s) = {} \<and>
     (listener s \<union> pending_fd (main_pc s)) \<inter> handler_fd s ` connected s = {}"

text \<open>A thread whose writes have not failed has sent back what it has received.\<close>

definition echo_ok :: "bool \<Rightarrow> connection \<Rightarrow> bool" where
  "echo_ok f c \<longleftrightarrow> f \<or> sent c = received c"

definition echoed :: "threaded_server \<Rightarrow> bool" where
  "echoed s \<longleftrightarrow> (\<forall>k. echo_ok (failed s k) (bytes s k))"

definition counter_exact :: "threaded_server \<Rightarrow> bool" where
  "counter_exact s \<longleftrightarrow> active s = int (card (uncounted s)) - (if main_pc s = T_Count then 1 else 0) \<and>
     attrs s = refused s \<and> (main_pc s = T_Return \<longrightarrow> final_count s = Some (active s))"

definition threaded_inv :: "threaded_server \<Rightarrow> bool" where
  "threaded_inv s \<longleftrightarrow> handlers_numbered s \<and> fds_owned s \<and> fds_separate s \<and> echoed s \<and> counter_exact s"

lemma connected_upd:
  "connected (r\<lparr>handler_at := (handler_at s)(k := p)\<rparr>) =
     (if p = H_Test \<or> p = H_Read then insert k (connected s) else connected s - {k})"
  by (auto simp: connected_def)

lemma uncounted_upd:
  "uncounted (r\<lparr>handler_at := (handler_at s)(k := p)\<rparr>) =
     (if p = H_Test \<or> p = H_Read \<or> p = H_Closed then insert k (uncounted s) else uncounted s - {k})"
  by (auto simp: uncounted_def)

lemma connected_frame [simp]:
  "connected (s\<lparr>running := b\<rparr>) = connected s" "connected (s\<lparr>main_pc := m\<rparr>) = connected s"
  "connected (s\<lparr>bytes := c\<rparr>) = connected s" "connected (s\<lparr>failed := f\<rparr>) = connected s"
  "connected (s\<lparr>handlers := n\<rparr>) = connected s" "connected (s\<lparr>active := i\<rparr>) = connected s"
  "connected (s\<lparr>open_fds := h\<rparr>) = connected s" "connected (s\<lparr>attrs := n\<rparr>) = connected s"
  "connected (s\<lparr>refused := n\<rparr>) = connected s" "connected (s\<lparr>final_count := x\<rparr>) = connected s"
  "connected (s\<lparr>handler_fd := d\<rparr>) = connected s"
  by (simp_all add: connected_def)

lemma uncounted_frame [simp]:
  "uncounted (s\<lparr>running := b\<rparr>) = uncounted s" "uncounted (s\<lparr>main_pc := m\<rparr>) = uncounted s"
  "uncounted (s\<lparr>bytes := c\<rparr>) = uncounted s" "uncounted (s\<lparr>failed := f\<rparr>) = uncounted s"
  "uncounted (s\<lparr>handlers := n\<rparr>) = uncounted s" "uncounted (s\<lparr>active := i\<rparr>) = uncounted s"
  "uncounted (s\<lparr>open_fds := h\<rparr>) = uncounted s" "uncounted (s\<lparr>attrs := n\<rparr>) = uncounted s"
  "uncounted (s\<lparr>refused := n\<rparr>) = uncounted s" "uncounted (s\<lparr>final_count := x\<rparr>) = uncounted s"
  "uncounted (s\<lparr>handler_fd := d\<rparr>) = uncounted s"
  by (simp_all add: uncounted_def)

lemma new_handler:
  "handlers_numbered s \<Longrightarrow> handlers s \<notin> connected s"
  "handlers_numbered s \<Longrightarrow> handlers s \<notin> uncounted s"
proof -
  assume "handlers_numbered s"
  then have "handlers s \<notin> {k. handler_at s k \<noteq> H_None}" by (simp add: handlers_numbered_def)
  then show "handlers s \<notin> connected s" "handlers s \<notin> uncounted s" by (simp_all add: connected_def uncounted_def)
qed

lemma finite_uncounted: "handlers_numbered s \<Longrightarrow> finite (uncounted s)"
proof -
  assume "handlers_numbered s"
  then have "finite {k. handler_at s k \<noteq> H_None}" by (simp add: handlers_numbered_def)
  moreover have "uncounted s \<subseteq> {k. handler_at s k \<noteq> H_None}" by (auto simp: uncounted_def)
  ultimately show ?thesis by (rule rev_finite_subset)
qed

lemma handlers_upd:
  "handlers_numbered s \<Longrightarrow> handler_at s k \<noteq> H_None \<Longrightarrow> p \<noteq> H_None \<Longrightarrow>
     {j. ((handler_at s)(k := p)) j \<noteq> H_None} = {..<handlers s}"
  by (auto simp: handlers_numbered_def)

lemma numbered_keeps: "threaded_step s t \<Longrightarrow> handlers_numbered s \<Longrightarrow> handlers_numbered t"
proof (induction rule: threaded_step.induct)
  case (create_success s fd)
  have "{k. ((handler_at s)(handlers s := H_Test)) k \<noteq> H_None} = insert (handlers s) {k. handler_at s k \<noteq> H_None}"
    by auto
  with create_success show ?case by (simp add: handlers_numbered_def create_handler_def Let_def lessThan_Suc)
qed (use handlers_upd in \<open>simp_all add: handlers_numbered_def threaded_defs\<close>)

lemma echoed_keeps: "threaded_step s t \<Longrightarrow> echoed s \<Longrightarrow> echoed t"
proof (induction rule: threaded_step.induct)
  case (handler_round s k e c)
  then have "echo_ok (failed s k) (bytes s k)" by (simp add: echoed_def)
  then have "echo_ok (failed s k \<or> (\<exists>n\<in>set (snd e). n \<le> 0)) c"
    using threaded.keeps [OF handler_round(3)] by (cases e) (auto simp: echo_ok_def not_le [symmetric])
  with handler_round(4) show ?case by (simp add: echoed_def echo_round_def)
qed (simp_all add: echoed_def threaded_defs echo_ok_def [of False])

text \<open>
  How the steps change who owns which descriptor: the sets of the new state in terms of those of the
  old one.
\<close>

lemma owned_hand_over:
  assumes "handlers_numbered s" "fds_owned s" "fds_separate s" "main_pc s = T_Create fd"
  shows "fds_owned (create_handler fd s) \<and> fds_separate (create_handler fd s)"
proof -
  let ?t = "create_handler fd s"
  have n: "handlers s \<notin> connected s" using assms(1) by (rule new_handler)
  have c: "connected ?t = insert (handlers s) (connected s)"
    by (simp add: create_handler_def Let_def connected_upd)
  have f: "handler_fd ?t = (handler_fd s)(handlers s := fd)" "main_pc ?t = T_Count" "listener ?t = listener s"
      "open_fds ?t = open_fds s"
    using assms(4) by (simp_all add: create_handler_def Let_def listener_def)
  have i: "handler_fd ?t ` connected ?t = insert fd (handler_fd s ` connected s)"
    using n image_cong [of "connected s" "connected s" "(handler_fd s)(handlers s := fd)" "handler_fd s"]
    by (auto simp: c f(1))
  have "inj_on (handler_fd ?t) (connected ?t)"
    using assms(3,4) n by (auto simp: c f(1) fds_separate_def inj_on_def)
  then show ?thesis using assms(2-4) unfolding fds_owned_def fds_separate_def i f(2-4) by auto
qed

lemma owned_close:
  assumes "fds_owned s" "fds_separate s" "k \<in> connected s"
  shows "fds_owned ((close_fd (handler_fd s k) s)\<lparr>handler_at := (handler_at s)(k := H_Closed)\<rparr>) \<and>
    fds_separate ((close_fd (handler_fd s k) s)\<lparr>handler_at := (handler_at s)(k := H_Closed)\<rparr>)"
proof -
  let ?t = "(close_fd (handler_fd s k) s)\<lparr>handler_at := (handler_at s)(k := H_Closed)\<rparr>"
  have c: "connected ?t = connected s - {k}" by (simp add: connected_upd)
  have f: "handler_fd ?t = handler_fd s" "main_pc ?t = main_pc s" "listener ?t = listener s"
      "open_fds ?t = open_fds s - {handler_fd s k}"
    by (simp_all add: close_fd_def listener_def)
  have i: "handler_fd s ` (connected s - {k}) = handler_fd s ` connected s - {handler_fd s k}"
    using assms(2,3) inj_on_image_set_diff [of "handler_fd s" "connected s" "connected s" "{k}"]
    by (auto simp: fds_separate_def)
  have "handler_fd s k \<in> handler_fd s ` connected s" using assms(3) by simp
  moreover have "inj_on (handler_fd s) (connected s - {k})"
    using assms(2) by (auto simp: fds_separate_def intro: inj_on_subset)
  ultimately show ?thesis using assms(1,2) by (auto simp: fds_owned_def fds_separate_def i f c)
qed

lemma owned_frame:
  assumes "fds_owned s \<and> fds_separate s" "handler_fd t = handler_fd s" "connected t = connected s"
    "open_fds t = open_fds s" "listener t = listener s" "pending_fd (main_pc t) = pending_fd (main_pc s)"
  shows "fds_owned t \<and> fds_separate t"
  using assms by (simp add: fds_owned_def fds_separate_def)

lemma fds_keeps:
  "threaded_step s t \<Longrightarrow> handlers_numbered s \<Longrightarrow> fds_owned s \<Longrightarrow> fds_separate s \<Longrightarrow> fds_owned t \<and> fds_separate t"
proof (induction rule: threaded_step.induct)
  case (accepted s fd)
  then show ?case
    by (auto simp: fds_owned_def fds_separate_def listener_def)
next
  case (create_error s fd)
  let ?I = "handler_fd s ` connected s" and ?t = "create_failed fd s"
  have o: "open_fds s = listener s \<union> {fd} \<union> ?I" and
    sep: "inj_on (handler_fd s) (connected s)" "listener s \<inter> {fd} = {}" "(listener s \<union> {fd}) \<inter> ?I = {}"
    using create_error by (simp_all add: fds_owned_def fds_separate_def)
  have "open_fds ?t = listener s \<union> ?I" using o sep by (auto simp: create_failed_def close_fd_def)
  moreover have "listener ?t = listener s" "connected ?t = connected s" "handler_fd ?t = handler_fd s" "main_pc ?t = T_Check"
    using create_error(1) by (simp_all add: create_failed_def close_fd_def listener_def)
  moreover have "listener s \<inter> ?I = {}" using sep(3) by blast
  ultimately show ?case using sep(1) by (simp add: fds_owned_def fds_separate_def)
next
  case (close_listen s)
  then show ?case
    by (auto simp: fds_owned_def fds_separate_def listener_def close_fd_def)
next
  case (create_success s fd)
  then show ?case using owned_hand_over by simp
next
  case (handler_stop s k)
  then show ?case using owned_close [of s k] by (simp add: connected_def)
next
  case (handler_eof s k)
  then show ?case using owned_close [of s k] by (simp add: connected_def)
next
  case (handler_run s k)
  then have k: "insert k (connected s) = connected s" by (auto simp: connected_def)
  have o: "fds_owned s \<and> fds_separate s" using handler_run by blast
  show ?case by (rule owned_frame [OF o]) (simp_all add: connected_upd k listener_def)
next
  case (handler_round s k e c)
  then have k: "insert k (connected s) = connected s" by (auto simp: connected_def)
  have o: "fds_owned s \<and> fds_separate s" using handler_round by blast
  show ?case by (rule owned_frame [OF o]) (simp_all add: connected_upd k listener_def echo_round_def)
next
  case (uncount_client s k)
  then have k: "connected s - {k} = connected s" by (auto simp: connected_def)
  have o: "fds_owned s \<and> fds_separate s" using uncount_client by blast
  show ?case by (rule owned_frame [OF o]) (simp_all add: connected_upd k listener_def)
qed (rule owned_frame, blast, simp_all add: listener_def)+

lemma counter_keeps: "threaded_step s t \<Longrightarrow> handlers_numbered s \<Longrightarrow> counter_exact s \<Longrightarrow> counter_exact t"
proof (induction rule: threaded_step.induct)
  case (create_success s fd)
  have "uncounted (create_handler fd s) = insert (handlers s) (uncounted s)"
    by (simp add: uncounted_upd create_handler_def Let_def)
  with create_success finite_uncounted [of s] new_handler [of s] show ?case
    by (simp add: counter_exact_def) (simp add: create_handler_def Let_def)
next
  case (uncount_client s k)
  have k: "finite (uncounted s)" "k \<in> uncounted s"
    using uncount_client finite_uncounted by (blast, simp add: uncounted_def)
  then have "int (card (uncounted s - {k})) = int (card (uncounted s)) - 1"
    by (metis card_Suc_Diff1 add_diff_cancel_left' of_nat_Suc)
  with uncount_client show ?case by (simp add: counter_exact_def uncounted_upd)
next
  case (handler_run s k)
  then have "insert k (uncounted s) = uncounted s" by (auto simp: uncounted_def)
  with handler_run show ?case by (simp add: counter_exact_def uncounted_upd)
next
  case (handler_stop s k)
  then have "insert k (uncounted s) = uncounted s" by (auto simp: uncounted_def)
  with handler_stop show ?case by (simp add: counter_exact_def uncounted_upd close_fd_def)
next
  case (handler_eof s k)
  then have "insert k (uncounted s) = uncounted s" by (auto simp: uncounted_def)
  with handler_eof show ?case by (simp add: counter_exact_def uncounted_upd close_fd_def)
next
  case (handler_round s k e c)
  then have "insert k (uncounted s) = uncounted s" by (auto simp: uncounted_def)
  with handler_round show ?case by (simp add: counter_exact_def uncounted_upd echo_round_def)
qed (simp_all add: counter_exact_def close_fd_def create_failed_def)

interpretation thr: invariant_of threaded_init threaded_step threaded_inv
proof unfold_locales
  fix s assume "threaded_init s"
  then show "threaded_inv s"
    by (auto simp: threaded_init_def threaded_inv_def handlers_numbered_def fds_owned_def fds_separate_def
        echoed_def echo_ok_def counter_exact_def connected_def uncounted_def listener_def)
next
  fix s t assume "threaded_step s t" "threaded_inv s"
  then show "threaded_inv t"
    unfolding threaded_inv_def using numbered_keeps fds_keeps echoed_keeps counter_keeps by metis
qed

section \<open>The end of the program\<close>

text \<open>
  After an interrupt the main thread leaves the loop as soon as \<open>accept\<close> returns, and goes on to the
  end; no step of another thread is needed.
\<close>

lemma main_leaves:
  assumes "main_pc s = T_Check" "\<not> running s"
  shows "\<exists>t. threaded_step\<^sup>*\<^sup>* s t \<and> main_pc t = T_Return \<and> handler_at t = handler_at s"
proof -
  let ?a = "s\<lparr>main_pc := T_Close\<rparr>"
  let ?b = "(close_fd (listen_fd ?a) ?a)\<lparr>main_pc := T_Sleep\<rparr>"
  let ?c = "?b\<lparr>final_count := Some (active ?b), main_pc := T_Return\<rparr>"
  have "threaded_step s ?a" using assms by (rule loop_leave)
  moreover have "threaded_step ?a ?b" by (rule close_listen) simp
  moreover have "threaded_step ?b ?c" by (rule report) simp
  ultimately have "threaded_step\<^sup>*\<^sup>* s ?c" by (meson converse_rtranclp_into_rtranclp rtranclp.rtrancl_refl)
  moreover have "main_pc ?c = T_Return" "handler_at ?c = handler_at s" by (simp_all add: close_fd_def)
  ultimately show ?thesis by blast
qed

lemma main_back_to_check:
  assumes "main_pc s \<noteq> T_Close" "main_pc s \<noteq> T_Sleep" "main_pc s \<noteq> T_Return"
  shows "\<exists>t. threaded_step\<^sup>*\<^sup>* s t \<and> main_pc t = T_Check \<and> running t = running s \<and> handler_at t = handler_at s"
proof (cases "main_pc s")
  case T_Accept
  then have "threaded_step s (s\<lparr>main_pc := T_Check\<rparr>)" by (rule accept_fails)
  then show ?thesis by (intro exI [of _ "s\<lparr>main_pc := T_Check\<rparr>"]) auto
next
  case (T_Create fd)
  then have "threaded_step s (create_failed fd s)" by (rule create_error)
  then show ?thesis by (intro exI [of _ "create_failed fd s"]) (auto simp: create_failed_def close_fd_def)
next
  case T_Count
  then have "threaded_step s (s\<lparr>active := active s + 1, main_pc := T_Check\<rparr>)" by (rule count_client)
  then show ?thesis by (intro exI [of _ "s\<lparr>active := active s + 1, main_pc := T_Check\<rparr>"]) auto
qed (use assms in auto)

lemma main_returns:
  assumes "main_pc s \<noteq> T_Return"
  shows "\<exists>t. threaded_step\<^sup>*\<^sup>* s t \<and> main_pc t = T_Return \<and> handler_at t = handler_at s"
proof -
  let ?i = "s\<lparr>running := False\<rparr>"
  have i: "threaded_step s ?i" using assms by (rule interrupt)
  show ?thesis
  proof (cases "main_pc s = T_Close \<or> main_pc s = T_Sleep")
    case False
    then obtain u where u: "threaded_step\<^sup>*\<^sup>* ?i u" "main_pc u = T_Check" "running u = running ?i" "handler_at u = handler_at ?i"
      using main_back_to_check [of ?i] assms by auto
    then obtain t where "threaded_step\<^sup>*\<^sup>* u t" "main_pc t = T_Return" "handler_at t = handler_at u"
      using main_leaves [of u] by auto
    with u i show ?thesis by (metis converse_rtranclp_into_rtranclp rtranclp_trans threaded_server.select_convs(3)
      threaded_server.update_convs(1) threaded_server.surjective)
  next
    case True
    let ?b = "if main_pc s = T_Sleep then s else (close_fd (listen_fd s) s)\<lparr>main_pc := T_Sleep\<rparr>"
    have b: "threaded_step\<^sup>*\<^sup>* s ?b" using True close_listen [of s] by auto
    have "threaded_step ?b (?b\<lparr>final_count := Some (active ?b), main_pc := T_Return\<rparr>)" by (rule report) simp
    from rtranclp.rtrancl_into_rtrancl [OF b this] show ?thesis
      by (intro exI [of _ "?b\<lparr>final_count := Some (active ?b), main_pc := T_Return\<rparr>"]) (simp add: close_fd_def)
  qed
qed

section \<open>Properties\<close>

text \<open>
  C28: The connections of the threaded server do not interfere. In every reachable state the threads
  that serve a connection have different descriptors, all of them open and none of them the
  listening socket or a connection that is just being accepted, and there are no other open
  descriptors; what a thread has sent is what it has received unless one of its own writes failed.
  In particular no descriptor is left open once the program has ended and all threads have.
\<close>

theorem threaded_connections_separate:
  assumes "reachable threaded_init threaded_step s"
  shows "inj_on (handler_fd s) (connected s) \<and>
    (\<forall>k\<in>connected s. handler_fd s k \<in> open_fds s \<and> handler_fd s k \<notin> listener s \<union> pending_fd (main_pc s)) \<and>
    open_fds s = listener s \<union> pending_fd (main_pc s) \<union> handler_fd s ` connected s \<and>
    (\<forall>k. failed s k \<or> sent (bytes s k) = received (bytes s k)) \<and>
    (main_pc s = T_Return \<and> connected s = {} \<longrightarrow> open_fds s = {})"
proof -
  have inv: "fds_owned s" "fds_separate s" "echoed s"
    using thr.reachable_inv [OF assms] by (simp_all add: threaded_inv_def)
  have "open_fds s = listener s \<union> pending_fd (main_pc s) \<union> handler_fd s ` connected s"
    using inv(1) by (simp add: fds_owned_def)
  moreover from this have "\<forall>k\<in>connected s. handler_fd s k \<in> open_fds s \<and> handler_fd s k \<notin> listener s \<union> pending_fd (main_pc s)"
    using inv(2) unfolding fds_separate_def by blast
  moreover have "\<forall>k. failed s k \<or> sent (bytes s k) = received (bytes s k)"
    using inv(3) unfolding echoed_def echo_ok_def .
  ultimately show ?thesis using inv(2) by (simp add: fds_separate_def listener_def)
qed

text \<open>A run with one connection, for the witnesses.\<close>

definition start_threaded :: threaded_server where
  "start_threaded = \<lparr>running = True, main_pc = T_Check, handler_at = (\<lambda>_. H_None),
     handler_fd = (\<lambda>_. 0), bytes = (\<lambda>_. new_connection), failed = (\<lambda>_. False), handlers = 0, active = 0,
     listen_fd = 3, open_fds = {3}, attrs = 0, refused = 0, final_count = None\<rparr>"

definition one_client :: threaded_server where
  "one_client = start_threaded\<lparr>main_pc := T_Count, handler_at := (\<lambda>_. H_None)(0 := H_Test),
     handler_fd := (\<lambda>_. 0)(0 := 4), handlers := 1, open_fds := {4, 3}\<rparr>"

lemma one_client_reachable: "reachable threaded_init threaded_step one_client"
proof -
  let ?a = "start_threaded\<lparr>main_pc := T_Accept\<rparr>" and ?b = "start_threaded\<lparr>main_pc := T_Create 4, open_fds := {4, 3}\<rparr>"
  have 0: "reachable threaded_init threaded_step start_threaded"
    by (rule reach_init) (simp add: threaded_init_def start_threaded_def)
  have a: "reachable threaded_init threaded_step ?a"
    by (rule reach_via [OF 0], rule loop_enter) (simp_all add: start_threaded_def)
  have b: "reachable threaded_init threaded_step ?b"
    by (rule reach_via [OF a], rule accepted [where fd = 4]) (simp_all add: start_threaded_def)
  show ?thesis
    by (rule reach_via [OF b], rule create_success [where fd = 4])
      (auto simp: one_client_def start_threaded_def create_handler_def)
qed

theorem threaded_connections_separate_witness:
  "0 \<in> connected one_client \<and> open_fds one_client = {4, 3} \<and> handler_fd one_client 0 \<in> open_fds one_client"
proof -
  have "0 \<in> connected one_client" by (simp add: connected_def one_client_def)
  moreover have "open_fds one_client = {4, 3}" by (simp add: one_client_def)
  ultimately show ?thesis using threaded_connections_separate [OF one_client_reachable] by blast
qed

text \<open>
  The number the threaded server prints last is the number of threads that have not finished, and
  the program does not wait for them: from every reachable state \<open>main\<close> can return without a step of
  any other thread, and then every thread is where it was. While the program runs the counter is
  that number or, between the creation of a thread and its registration, one less; it is \<open>-1\<close> when
  the thread was faster. Every failure of \<open>pthread_create\<close> leaves an attribute object behind.
\<close>

theorem threaded_does_not_drain:
  assumes "reachable threaded_init threaded_step s"
  shows "active s = int (card (uncounted s)) - (if main_pc s = T_Count then 1 else 0) \<and>
    (main_pc s = T_Return \<longrightarrow> final_count s = Some (int (card (uncounted s)))) \<and> attrs s = refused s \<and>
    (main_pc s \<noteq> T_Return \<longrightarrow> (\<exists>t. threaded_step\<^sup>*\<^sup>* s t \<and> main_pc t = T_Return \<and> handler_at t = handler_at s \<and>
       final_count t = Some (int (card (uncounted s)))))"
proof -
  have c: "counter_exact u" if "reachable threaded_init threaded_step u" for u
    using thr.reachable_inv [OF that] by (simp add: threaded_inv_def)
  have "\<exists>t. threaded_step\<^sup>*\<^sup>* s t \<and> main_pc t = T_Return \<and> handler_at t = handler_at s \<and>
       final_count t = Some (int (card (uncounted s)))" if run: "main_pc s \<noteq> T_Return"
  proof -
    obtain t where t: "threaded_step\<^sup>*\<^sup>* s t" "main_pc t = T_Return" "handler_at t = handler_at s"
      using main_returns [OF run] by blast
    have "threaded_inv t" using thr.steps_inv [OF t(1)] thr.reachable_inv [OF assms] .
    then have "counter_exact t" by (simp add: threaded_inv_def)
    moreover have "uncounted t = uncounted s" using t(3) by (simp add: uncounted_def)
    ultimately show ?thesis using t by (auto simp: counter_exact_def)
  qed
  with c [OF assms] show ?thesis by (auto simp: counter_exact_def)
qed

theorem threaded_does_not_drain_witness:
  "\<exists>t. threaded_step\<^sup>*\<^sup>* one_client t \<and> main_pc t = T_Return \<and> handler_at t 0 = H_Test \<and> final_count t = Some 1"
proof -
  have u: "uncounted one_client = {0}" by (auto simp: uncounted_def one_client_def start_threaded_def)
  have "main_pc one_client \<noteq> T_Return" "handler_at one_client 0 = H_Test" by (simp_all add: one_client_def)
  with threaded_does_not_drain [OF one_client_reachable] show ?thesis unfolding u by auto
qed

text \<open>The counter can be negative.\<close>

theorem threaded_counter:
  "(\<forall>s. reachable threaded_init threaded_step s \<longrightarrow> active s \<ge> - 1) \<and>
   (\<exists>s. reachable threaded_init threaded_step s \<and> active s = - 1)"
proof -
  have "active s \<ge> - 1" if "reachable threaded_init threaded_step s" for s
    using thr.reachable_inv [OF that] by (auto simp: threaded_inv_def counter_exact_def)
  moreover
  note d = one_client_def start_threaded_def
  let ?a = "one_client\<lparr>handler_at := (\<lambda>_. H_None)(0 := H_Read)\<rparr>"
  let ?b = "one_client\<lparr>handler_at := (\<lambda>_. H_None)(0 := H_Closed), open_fds := {3}\<rparr>"
  let ?c = "one_client\<lparr>handler_at := (\<lambda>_. H_None)(0 := H_End), open_fds := {3}, active := - 1\<rparr>"
  have a: "reachable threaded_init threaded_step ?a"
    by (rule reach_via [OF one_client_reachable], rule handler_run [where k = 0]) (simp_all add: d)
  have b: "reachable threaded_init threaded_step ?b"
    by (rule reach_via [OF a], rule handler_eof [where k = 0]) (auto simp: d close_fd_def)
  have c: "reachable threaded_init threaded_step ?c"
    by (rule reach_via [OF b], rule uncount_client [where k = 0]) (simp_all add: d)
  have "active ?c = - 1" by simp
  with c have "\<exists>s. reachable threaded_init threaded_step s \<and> active s = - 1" by blast
  ultimately show ?thesis by blast
qed

theorem threaded_counter_witness: "active one_client \<ge> - 1"
  using threaded_counter [THEN conjunct1, THEN spec, of one_client] one_client_reachable by blast

end
