(* ===== verification/Echo_Clients.thy ===== *)
theory Echo_Clients
  imports Echo_Server
begin

text \<open>
  The two clients: the benchmark \<open>04_networking/tcp_echo_server/client.c\<close> and the test client
  \<open>01_processes/signal_handlers/client.c\<close>, each with its threads and its \<open>main\<close>. The results of the
  system calls and of \<open>malloc\<close> are arguments; so is the schedule, since the workers of the benchmark
  add to the same atomic counters. Time measurement and output are left out, the numbers that are
  printed are results. \<open>None\<close> means that a program does not return, because a thread stays in a call.
\<close>

section \<open>The benchmark client\<close>

text \<open>The counters, and the additions to them.\<close>

record tally =
  messages_sent :: nat
  messages_received :: nat
  errors :: nat

definition no_messages :: tally where
  "no_messages = \<lparr>messages_sent = 0, messages_received = 0, errors = 0\<rparr>"

datatype counting = Sent | Received | Error

fun atomic_add :: "counting \<Rightarrow> tally \<Rightarrow> tally" where
  "atomic_add Sent t = t\<lparr>messages_sent := messages_sent t + 1\<rparr>"
| "atomic_add Received t = t\<lparr>messages_received := messages_received t + 1\<rparr>"
| "atomic_add Error t = t\<lparr>errors := errors t + 1\<rparr>"

text \<open>
  The loop over \<open>read\<close>: the results of the calls; the bytes received and the errors counted. A failed
  \<open>read\<close> leaves this loop only, the worker goes on with the next message.
\<close>

fun receive_loop :: "int \<Rightarrow> int \<Rightarrow> int list \<Rightarrow> (int \<times> nat) option" where
  "receive_loop message_size tot [] = (if tot < message_size then None else Some (tot, 0))"
| "receive_loop message_size tot (n # ns) =
     (if tot < message_size then
        if n \<le> 0 then Some (tot, 1) else receive_loop message_size (tot + n) ns
      else Some (tot, 0))"

text \<open>One message: the result of \<open>write\<close> and those of \<open>read\<close>. The flag says that the worker gives up.\<close>

definition exchange :: "int \<Rightarrow> int \<Rightarrow> int list \<Rightarrow> (counting list \<times> bool) option" where
  "exchange message_size n reads =
     (if n \<noteq> message_size then Some ([Error], True)
      else case receive_loop message_size 0 reads of
        None \<Rightarrow> None
      | Some (tot, failed) \<Rightarrow>
          Some ([Sent] @ replicate failed Error @ (if tot = message_size then [Received] else []), False))"

fun exchange_loop :: "int \<Rightarrow> nat \<Rightarrow> (int \<times> int list) list \<Rightarrow> (counting list \<times> bool) option" where
  "exchange_loop message_size 0 xs = Some ([], False)"
| "exchange_loop message_size (Suc k) [] = None"
| "exchange_loop message_size (Suc k) ((n, reads) # xs) =
     (case exchange message_size n reads of
        None \<Rightarrow> None
      | Some (cs, True) \<Rightarrow> Some (cs, True)
      | Some (cs, False) \<Rightarrow> map_option (\<lambda>(ds, g). (cs @ ds, g)) (exchange_loop message_size k xs))"

text \<open>What a worker meets, and what it does: its additions, its resources, whether it gave up.\<close>

record worker =
  args_ok :: bool
  create_ok :: bool
  socket_ok :: bool
  connect_ok :: bool
  send_ok :: bool
  recv_ok :: bool
  exchanges :: "(int \<times> int list) list"

datatype client_resource = Args | Client_Socket | Send_Buf | Recv_Buf

record worker_run =
  additions :: "counting list"
  calls :: "client_resource resource_event list"
  gave_up :: bool

text \<open>The bytes of the messages, \<open>memset (send_buf, 'A' + client_id % 26, message_size)\<close>.\<close>

definition client_bytes :: "nat \<Rightarrow> int \<Rightarrow> string" where
  "client_bytes client_id message_size = replicate (nat message_size) (char_of (65 + client_id mod 26 :: nat))"

text \<open>
  The buffers are not tested: \<open>memset\<close> on a null pointer is an error. A null pointer for \<open>recv_buf\<close>
  makes \<open>read\<close> fail, which is one of its results. \<open>free\<close> ignores a null pointer.
\<close>

definition client_worker :: "nat \<Rightarrow> int \<Rightarrow> worker \<Rightarrow> worker_run c_result option" where
  "client_worker num_messages message_size w =
     (if \<not> socket_ok w then Some (Inr \<lparr>additions = [Error], calls = [Release Args], gave_up = True\<rparr>)
      else if \<not> connect_ok w then
        Some (Inr \<lparr>additions = [Error], calls = [Acquire Client_Socket, Release Client_Socket, Release Args],
          gave_up = True\<rparr>)
      else if \<not> send_ok w \<and> 0 < message_size then Some (Inl Null_Dereference)
      else case exchange_loop message_size num_messages (exchanges w) of
        None \<Rightarrow> None
      | Some (cs, g) \<Rightarrow>
          Some (Inr \<lparr>additions = cs,
            calls = [Acquire Client_Socket] @ (if send_ok w then [Acquire Send_Buf] else []) @
              (if recv_ok w then [Acquire Recv_Buf] else []) @ [Release Client_Socket] @
              (if send_ok w then [Release Send_Buf] else []) @ (if recv_ok w then [Release Recv_Buf] else []) @
              [Release Args], gave_up = g\<rparr>))"

text \<open>
  \<open>benchmark\<close>: the loop that starts the workers uses the array of handles and the arguments without a
  test; the loop that joins them also joins a handle that has never been set. A worker that runs into
  undefined behaviour takes the whole program with it.
\<close>

definition create_workers :: "bool \<Rightarrow> worker list \<Rightarrow> unit c_result" where
  "create_workers threads_ok ws =
     (if list_all args_ok ws \<and> (threads_ok \<or> ws = []) then Inr () else Inl Null_Dereference)"

fun crashed :: "'a c_result option \<Rightarrow> bool" where
  "crashed (Some (Inl e)) = True"
| "crashed r = False"

fun join_all :: "nat \<Rightarrow> int \<Rightarrow> worker list \<Rightarrow> worker_run list c_result option" where
  "join_all k message_size [] = Some (Inr [])"
| "join_all k message_size (w # ws) =
     (if \<not> create_ok w then Some (Inl Uninitialised_Read)
      else bind_o (client_worker k message_size w) (\<lambda>r.
           bind_o (join_all k message_size ws) (\<lambda>rs. Some (Inr (r # rs)))))"

definition client_benchmark ::
  "nat \<Rightarrow> int \<Rightarrow> bool \<Rightarrow> worker list \<Rightarrow> nat list \<Rightarrow> tally c_result option" where
  "client_benchmark k message_size threads_ok ws schedule =
     bind_o (Some (create_workers threads_ok ws)) (\<lambda>_.
       if list_ex (\<lambda>w. create_ok w \<and> crashed (client_worker k message_size w)) ws then Some (Inl Null_Dereference)
       else bind_o (join_all k message_size ws) (\<lambda>rs.
         Some (Inr (fold atomic_add (interleave schedule (map additions rs)) no_messages))))"

text \<open>
  \<open>main\<close>: \<open>arg\<close> is \<open>None\<close> without an argument, otherwise its value by \<open>atoi\<close>; the exit status and the
  totals that are printed. A load says, for each of the three runs, whether the array of handles is
  allocated, what the workers meet, and the schedule.
\<close>

type_synonym client_load = "bool \<times> (nat \<Rightarrow> worker) \<times> nat list"

fun run_load :: "nat \<Rightarrow> nat \<times> int \<Rightarrow> client_load \<Rightarrow> tally c_result option" where
  "run_load num_clients (k, message_size) (threads_ok, w, schedule) =
     client_benchmark k message_size threads_ok (map w [0..<num_clients]) schedule"

definition client_main :: "int option \<Rightarrow> client_load \<Rightarrow> client_load \<Rightarrow> client_load \<Rightarrow> (int \<times> tally list) c_result option" where
  "client_main arg l1 l2 l3 =
     (case arg of
        None \<Rightarrow> Some (Inr (0, []))
      | Some num_clients \<Rightarrow>
          if num_clients \<le> 0 \<or> num_clients > 10000 then Some (Inr (1, []))
          else bind_o (run_load (nat num_clients) (100, 64) l1) (\<lambda>t1.
               bind_o (run_load (nat num_clients) (100, 1024) l2) (\<lambda>t2.
               bind_o (run_load (nat num_clients) (50, 4096) l3) (\<lambda>t3.
                 Some (Inr (0, [t1, t2, t3]))))))"

section \<open>The test client of the signal server\<close>

text \<open>The text of a message, and the terminator behind the bytes that \<open>read\<close> has put into the buffer.\<close>

definition client_message :: "nat \<Rightarrow> nat \<Rightarrow> string" where
  "client_message client_id i = ''Client '' @ decimal client_id @ '' message '' @ decimal i"

definition terminate_reply :: "int \<Rightarrow> int c_result" where
  "terminate_reply n = (if n > 0 then if n < 256 then Inr n else Inl Out_Of_Bounds else Inr n)"

text \<open>
  Five messages, each with one \<open>write\<close> and one \<open>read\<close>; \<open>xs\<close> has the results of both. A failed \<open>write\<close>
  ends the loop, a short one is taken for a success. The result is the bytes that were sent.
\<close>

fun message_loop :: "nat \<Rightarrow> nat \<Rightarrow> (int \<times> int) list \<Rightarrow> string c_result option" where
  "message_loop client_id i [] = (if i < 5 then None else Some (Inr []))"
| "message_loop client_id i ((n, reply) # xs) =
     (if i < 5 then
        if n < 0 then Some (Inr [])
        else bind_o (Some (terminate_reply reply)) (\<lambda>_.
             bind_o (message_loop client_id (i + 1) xs) (\<lambda>out.
               Some (Inr (take (nat n) (client_message client_id i) @ out))))
      else Some (Inr []))"

definition client_thread ::
  "bool \<Rightarrow> bool \<Rightarrow> nat \<Rightarrow> (int \<times> int) list \<Rightarrow> (string \<times> client_resource resource_event list) c_result option" where
  "client_thread has_socket connected client_id xs =
     (if \<not> has_socket then Some (Inr ([], []))
      else if \<not> connected then Some (Inr ([], [Acquire Client_Socket, Release Client_Socket]))
      else bind_o (message_loop client_id 0 xs) (\<lambda>out.
        Some (Inr (out, [Acquire Client_Socket, Release Client_Socket]))))"

text \<open>
  \<open>main\<close>: two clients, or as many as the argument says, which is not tested. \<open>ts\<close> says what each thread
  meets: whether it is created, and the arguments of \<open>client_thread\<close>.
\<close>

fun join_clients :: "nat \<Rightarrow> (bool \<times> bool \<times> bool \<times> (int \<times> int) list) list \<Rightarrow>
    (string \<times> client_resource resource_event list) list c_result option" where
  "join_clients i [] = Some (Inr [])"
| "join_clients i ((created, s, c, xs) # ts) =
     (if \<not> created then Some (Inl Uninitialised_Read)
      else bind_o (client_thread s c i xs) (\<lambda>r.
           bind_o (join_clients (i + 1) ts) (\<lambda>rs. Some (Inr (r # rs)))))"

definition num_threads :: "int option \<Rightarrow> nat" where
  "num_threads arg = (case arg of None \<Rightarrow> 2 | Some n \<Rightarrow> nat n)"

definition test_client_main :: "int option \<Rightarrow> bool \<Rightarrow> (nat \<Rightarrow> bool \<times> bool \<times> bool \<times> (int \<times> int) list) \<Rightarrow>
    (string \<times> client_resource resource_event list) list c_result option" where
  "test_client_main arg threads_ok t =
     (if \<not> threads_ok \<and> num_threads arg \<noteq> 0 then Some (Inl Null_Dereference)
      else if list_ex (\<lambda>i. case t i of (created, s, c, xs) \<Rightarrow> created \<and> crashed (client_thread s c i xs)) [0..<num_threads arg]
      then Some (Inl Out_Of_Bounds)
      else join_clients 0 (map t [0..<num_threads arg]))"

section \<open>The counters\<close>

lemma fold_atomic_add [simp]:
  "messages_sent (fold atomic_add cs t) = messages_sent t + count (mset cs) Sent"
  "messages_received (fold atomic_add cs t) = messages_received t + count (mset cs) Received"
  "errors (fold atomic_add cs t) = errors t + count (mset cs) Error"
proof (induction cs arbitrary: t)
  case (Cons c cs)
  { case 1 with Cons show ?case by (cases c) simp_all }
  { case 2 with Cons show ?case by (cases c) simp_all }
  { case 3 with Cons show ?case by (cases c) simp_all }
qed simp_all

lemma no_messages_fields [simp]:
  "messages_sent no_messages = 0" "messages_received no_messages = 0" "errors no_messages = 0"
  by (simp_all add: no_messages_def)

text \<open>\<open>read\<close> returns at most as many bytes as it is asked for.\<close>

fun reads_ok :: "int \<Rightarrow> int \<Rightarrow> int list \<Rightarrow> bool" where
  "reads_ok sz tot [] = True"
| "reads_ok sz tot (n # ns) = (n \<le> sz - tot \<and> reads_ok sz (tot + n) ns)"

definition replies_ok :: "int \<Rightarrow> worker \<Rightarrow> bool" where
  "replies_ok sz w \<longleftrightarrow> list_all (\<lambda>x. reads_ok sz 0 (snd x)) (exchanges w)"

lemma receive_loop_result:
  "receive_loop sz tot ns = Some (t, failed) \<Longrightarrow> tot \<le> sz \<Longrightarrow> reads_ok sz tot ns \<Longrightarrow>
     failed = (if t = sz then 0 else 1) \<and> t \<le> sz"
  by (induction sz tot ns rule: receive_loop.induct) (auto split: if_splits)

text \<open>
  What the additions of a worker amount to: an error for every message that was sent and not received
  as a whole, and one more when the worker gave up.
\<close>

definition adds_up :: "nat \<Rightarrow> counting list \<Rightarrow> bool \<Rightarrow> bool" where
  "adds_up k cs g \<longleftrightarrow> count (mset cs) Received \<le> count (mset cs) Sent \<and> count (mset cs) Sent \<le> k \<and>
     count (mset cs) Error + count (mset cs) Received = count (mset cs) Sent + of_bool g \<and>
     (\<not> g \<longrightarrow> count (mset cs) Sent = k)"

lemma exchange_adds_up:
  assumes "exchange sz n reads = Some (cs, g)" "reads_ok sz 0 reads" "0 \<le> sz"
  shows "adds_up 1 cs g"
  using assms receive_loop_result [of sz 0 reads]
  by (auto simp: exchange_def adds_up_def split: if_splits option.splits)

lemma exchange_loop_adds_up:
  assumes "exchange_loop sz k xs = Some (cs, g)" "list_all (\<lambda>x. reads_ok sz 0 (snd x)) xs" "0 \<le> sz"
  shows "adds_up k cs g"
  using assms
proof (induction sz k xs arbitrary: cs g rule: exchange_loop.induct)
  case (3 sz k n reads xs)
  obtain bs b where b: "exchange sz n reads = Some (bs, b)" using 3(2) by (auto split: option.splits)
  then have e: "adds_up 1 bs b" using 3(3,4) by (intro exchange_adds_up) auto
  show ?case
  proof (cases b)
    case True
    then show ?thesis using e b 3(2) by (auto simp: adds_up_def)
  next
    case False
    then obtain ds where ds: "exchange_loop sz k xs = Some (ds, g)" "cs = bs @ ds" using b 3(2) by auto
    then have "adds_up k ds g" using 3(1) [OF b] False 3(3,4) by auto
    then show ?thesis using e False ds(2) by (auto simp: adds_up_def)
  qed
qed (auto simp: adds_up_def)

lemma client_accounting:
  assumes "client_worker k sz w = Some (Inr r)" "replies_ok sz w" "0 \<le> sz"
  shows "count (mset (additions r)) Received \<le> count (mset (additions r)) Sent \<and>
    count (mset (additions r)) Sent \<le> k \<and>
    count (mset (additions r)) Error + count (mset (additions r)) Received =
      count (mset (additions r)) Sent + of_bool (gave_up r)"
proof (cases "socket_ok w \<and> connect_ok w")
  case True
  then obtain cs g where "exchange_loop sz k (exchanges w) = Some (cs, g)" "additions r = cs" "gave_up r = g"
    using assms(1) by (auto simp: client_worker_def split: if_splits option.splits)
  then show ?thesis using exchange_loop_adds_up [of sz k "exchanges w" cs g] assms(2,3)
    by (simp add: replies_ok_def adds_up_def)
next
  case False
  then have "additions r = [Error] \<and> gave_up r" using assms(1) by (auto simp: client_worker_def split: if_splits)
  then show ?thesis by simp
qed

lemma join_all_adds_up:
  assumes "join_all k sz ws = Some (Inr rs)" "list_all (replies_ok sz) ws" "0 \<le> sz"
  defines "n c \<equiv> count (mset (concat (map additions rs))) c"
  shows "list_all create_ok ws \<and> n Received \<le> n Sent \<and> n Sent \<le> k * length ws \<and>
    n Sent \<le> n Error + n Received \<and> n Error + n Received \<le> n Sent + length ws"
  using assms(1,2) unfolding n_def
proof (induction ws arbitrary: rs)
  case (Cons w ws)
  obtain r rs' where r: "client_worker k sz w = Some (Inr r)" "join_all k sz ws = Some (Inr rs')" "rs = r # rs'" "create_ok w"
    using Cons.prems(1) by (auto simp: bind_o_Inr split: if_splits)
  have "of_bool (gave_up r) \<le> (1 :: nat)" by simp
  with client_accounting [OF r(1) _ assms(3)] Cons.IH [OF r(2)] Cons.prems(2) r(3,4) show ?case by auto
qed simp

lemma client_benchmark_totals:
  assumes "client_benchmark k sz threads_ok ws schedule = Some (Inr t)" "list_all (replies_ok sz) ws" "0 \<le> sz"
  shows "list_all create_ok ws \<and> messages_received t \<le> messages_sent t \<and> messages_sent t \<le> k * length ws \<and>
    messages_sent t \<le> errors t + messages_received t \<and> errors t + messages_received t \<le> messages_sent t + length ws"
proof -
  obtain rs where rs: "join_all k sz ws = Some (Inr rs)"
    "t = fold atomic_add (interleave schedule (map additions rs)) no_messages"
    using assms(1) by (auto simp: client_benchmark_def bind_o_Inr split: if_splits)
  from join_all_adds_up [OF rs(1) assms(2,3)] show ?thesis by (simp add: rs(2))
qed

text \<open>A worker that meets no failure, and what the threads then add up to.\<close>

definition healthy :: "nat \<Rightarrow> int \<Rightarrow> worker \<Rightarrow> bool" where
  "healthy k sz w \<longleftrightarrow> args_ok w \<and> create_ok w \<and> socket_ok w \<and> connect_ok w \<and> send_ok w \<and> length (exchanges w) = k \<and>
     list_all (\<lambda>(n, reads). n = sz \<and> list_all (\<lambda>m. 0 < m) reads \<and> sum_list reads = sz) (exchanges w)"

lemma receive_loop_complete:
  "list_all (\<lambda>n. 0 < n) reads \<Longrightarrow> tot + sum_list reads = m \<Longrightarrow> receive_loop m tot reads = Some (m, 0)"
proof (induction m tot reads rule: receive_loop.induct)
  case (2 m tot n ns)
  have "0 \<le> sum_list ns" using 2(2) by (intro sum_list_nonneg) (auto simp: list_all_iff less_imp_le)
  with 2 show ?case by simp
qed simp

lemma exchange_loop_complete:
  assumes "list_all (\<lambda>(n, reads). n = sz \<and> list_all (\<lambda>m. 0 < m) reads \<and> sum_list reads = sz) xs"
  shows "exchange_loop sz (length xs) xs = Some (concat (replicate (length xs) [Sent, Received]), False)"
  using assms
proof (induction xs)
  case (Cons x xs)
  obtain n reads where x: "x = (n, reads)" by (cases x)
  then have "receive_loop sz 0 reads = Some (sz, 0)" using Cons.prems by (intro receive_loop_complete) auto
  then have "exchange sz n reads = Some ([Sent, Received], False)" using Cons.prems x by (simp add: exchange_def)
  with Cons x show ?case by simp
qed simp

lemma healthy_worker:
  assumes "healthy k sz w"
  obtains r where "client_worker k sz w = Some (Inr r)" "additions r = concat (replicate k [Sent, Received])"
  using assms exchange_loop_complete [of sz "exchanges w"] that by (auto simp: healthy_def client_worker_def)

lemma healthy_join:
  assumes "list_all (healthy k sz) ws"
  obtains rs where "join_all k sz ws = Some (Inr rs)"
    "concat (map additions rs) = concat (replicate (k * length ws) [Sent, Received])"
proof -
  have "\<exists>rs. join_all k sz ws = Some (Inr rs) \<and>
      concat (map additions rs) = concat (replicate (k * length ws) [Sent, Received])" using assms
  proof (induction ws)
    case (Cons w ws)
    then obtain rs where "join_all k sz ws = Some (Inr rs)"
      "concat (map additions rs) = concat (replicate (k * length ws) [Sent, Received])" by auto
    moreover have "create_ok w" using Cons.prems by (simp add: healthy_def)
    moreover obtain r where "client_worker k sz w = Some (Inr r)" "additions r = concat (replicate k [Sent, Received])"
      using healthy_worker [of k sz w] Cons.prems by auto
    ultimately show ?case by (simp add: replicate_add)
  qed simp
  then show thesis using that by blast
qed

lemma count_pairs: "count (mset (concat (replicate n [Sent, Received]))) c = (if c = Error then 0 else n)"
  by (induction n) (cases c; auto)+

lemma client_benchmark_complete:
  assumes "list_all (healthy k sz) ws" "threads_ok"
  shows "client_benchmark k sz threads_ok ws schedule =
    Some (Inr \<lparr>messages_sent = k * length ws, messages_received = k * length ws, errors = 0\<rparr>)"
proof -
  obtain rs where rs: "join_all k sz ws = Some (Inr rs)"
    "concat (map additions rs) = concat (replicate (k * length ws) [Sent, Received])"
    by (rule healthy_join [OF assms(1)])
  have "\<not> crashed (client_worker k sz w)" if "w \<in> set ws" for w
  proof -
    have "healthy k sz w" using assms(1) that by (simp add: list_all_iff)
    then obtain r where "client_worker k sz w = Some (Inr r)" by (rule healthy_worker)
    then show ?thesis by simp
  qed
  moreover have "list_all args_ok ws" using assms(1) by (auto simp: list_all_iff healthy_def)
  moreover have "fold atomic_add (interleave schedule (map additions rs)) no_messages =
      \<lparr>messages_sent = k * length ws, messages_received = k * length ws, errors = 0\<rparr>"
    by (rule tally.equality) (simp_all add: rs(2) count_pairs)
  ultimately show ?thesis using rs(1) assms(2)
    by (auto simp: client_benchmark_def create_workers_def list_ex_iff)
qed

lemma main_runs_healthy:
  assumes "1 \<le> n" "n \<le> 10000" "\<forall>i. healthy 100 64 (w1 i) \<and> healthy 100 1024 (w2 i) \<and> healthy 50 4096 (w3 i)"
  shows "client_main (Some n) (True, w1, s1) (True, w2, s2) (True, w3, s3) = Some (Inr (0,
    map (\<lambda>k. \<lparr>messages_sent = k * nat n, messages_received = k * nat n, errors = 0\<rparr>) [100, 100, 50]))"
proof -
  have "list_all (healthy 100 64) (map w1 [0..<nat n])" "list_all (healthy 100 1024) (map w2 [0..<nat n])"
    "list_all (healthy 50 4096) (map w3 [0..<nat n])" using assms(3) by (simp_all add: list_all_iff)
  from this [THEN client_benchmark_complete, OF TrueI] show ?thesis using assms(1,2) by (simp add: client_main_def)
qed

section \<open>Properties\<close>

text \<open>
  C33: What the benchmark client prints is consistent, in every run and for every interleaving of its
  workers. With a valid argument and in each of the three loads no more messages are received than
  sent and no more sent than there are workers and messages; every message that was sent and not
  received has counted as an error, and at most one more error is counted for each worker. So the
  counters stay far below the range of an \<open>int\<close>.
\<close>

theorem client_main_report:
  assumes "client_main (Some n) l1 l2 l3 = Some (Inr (status, ts))"
    and "\<forall>i. replies_ok 64 (fst (snd l1) i) \<and> replies_ok 1024 (fst (snd l2) i) \<and> replies_ok 4096 (fst (snd l3) i)"
  shows "(status = 1 \<longleftrightarrow> n < 1 \<or> 10000 < n) \<and> (status \<noteq> 1 \<longrightarrow> status = 0 \<and> length ts = 3) \<and>
    (\<forall>(k, t)\<in>set (zip [100, 100, 50] ts).
       messages_received t \<le> messages_sent t \<and> messages_sent t \<le> k * nat n \<and>
       messages_sent t - messages_received t \<le> errors t \<and> errors t \<le> messages_sent t - messages_received t + nat n \<and>
       int (messages_sent t) + int (errors t) < 2 ^ 31)"
proof (cases "n < 1 \<or> 10000 < n")
  case True
  then show ?thesis using assms(1) by (auto simp: client_main_def)
next
  case False
  obtain a1 w1 s1 a2 w2 s2 a3 w3 s3 where l: "l1 = (a1, w1, s1)" "l2 = (a2, w2, s2)" "l3 = (a3, w3, s3)"
    by (metis prod_cases3)
  obtain t1 t2 t3 where t: "status = 0" "ts = [t1, t2, t3]"
    "client_benchmark 100 64 a1 (map w1 [0..<nat n]) s1 = Some (Inr t1)"
    "client_benchmark 100 1024 a2 (map w2 [0..<nat n]) s2 = Some (Inr t2)"
    "client_benchmark 50 4096 a3 (map w3 [0..<nat n]) s3 = Some (Inr t3)"
    using assms(1) False by (auto simp: client_main_def bind_o_Inr l)
  have "list_all (replies_ok 64) (map w1 [0..<nat n])" "list_all (replies_ok 1024) (map w2 [0..<nat n])"
    "list_all (replies_ok 4096) (map w3 [0..<nat n])" using assms(2) by (simp_all add: list_all_iff l)
  note r = client_benchmark_totals [OF t(3) this(1)] client_benchmark_totals [OF t(4) this(2)]
    client_benchmark_totals [OF t(5) this(3)]
  have n: "nat n \<le> 10000" using False by linarith
  have "messages_received t \<le> messages_sent t \<and> messages_sent t \<le> k * nat n \<and>
       messages_sent t - messages_received t \<le> errors t \<and> errors t \<le> messages_sent t - messages_received t + nat n \<and>
       int (messages_sent t) + int (errors t) < 2 ^ 31"
    if "messages_received t \<le> messages_sent t \<and> messages_sent t \<le> k * nat n \<and>
      messages_sent t \<le> errors t + messages_received t \<and> errors t + messages_received t \<le> messages_sent t + nat n"
      "k \<le> 100" for k t
  proof -
    have "k * nat n \<le> 100 * 10000" by (rule mult_le_mono [OF that(2) n])
    moreover have "(4000000 :: int) < 2 ^ 31" by simp
    ultimately show ?thesis using that(1) n by (intro conjI) linarith+
  qed
  from this [of t1 100] this [of t2 100] this [of t3 50] r t(1,2) False show ?thesis by simp
qed

theorem client_main_report_witness:
  "\<exists>t1 t2 t3. client_main (Some 1)
     (True, \<lambda>_. \<lparr>args_ok = True, create_ok = True, socket_ok = False, connect_ok = True, send_ok = True, recv_ok = True,
        exchanges = []\<rparr>, [])
     (True, \<lambda>_. \<lparr>args_ok = True, create_ok = True, socket_ok = True, connect_ok = True, send_ok = True, recv_ok = True,
        exchanges = [(1024, [1000, 24]), (1024, [24, - 1]), (7, [])]\<rparr>, [0, 0, 3])
     (True, \<lambda>_. \<lparr>args_ok = True, create_ok = True, socket_ok = True, connect_ok = False, send_ok = True, recv_ok = True,
        exchanges = []\<rparr>, []) = Some (Inr (0, [t1, t2, t3])) \<and>
     messages_sent t2 = 2 \<and> messages_received t2 \<le> messages_sent t2 \<and> errors t2 \<le> messages_sent t2 - messages_received t2 + 1"
  (is "\<exists>t1 t2 t3. client_main _ ?l1 ?l2 ?l3 = _ \<and> _")
proof -
  let ?e = "\<lparr>messages_sent = 0, messages_received = 0, errors = 1\<rparr>"
  have "client_main (Some 1) ?l1 ?l2 ?l3 = Some (Inr (0, [?e, \<lparr>messages_sent = 2, messages_received = 1, errors = 2\<rparr>, ?e]))"
    by code_simp
  from this client_main_report [OF this] show ?thesis by (simp add: replies_ok_def)
qed

text \<open>A worker gives back what it holds on every path, the arguments it was given included.\<close>

lemma worker_releases: "client_worker k sz w = Some (Inr r) \<Longrightarrow> live (calls r) [Args] = Some []"
  by (auto simp: client_worker_def split: if_splits option.splits)

text \<open>The bytes that the test client puts on the wire.\<close>

fun wire :: "nat \<Rightarrow> nat \<Rightarrow> (int \<times> int) list \<Rightarrow> string" where
  "wire client_id i [] = []"
| "wire client_id i ((n, reply) # xs) =
     (if i < 5 \<and> 0 \<le> n then take (nat n) (client_message client_id i) @ wire client_id (i + 1) xs else [])"

lemma client_message_length: "client_id < 10 ^ 10 \<Longrightarrow> i < 5 \<Longrightarrow> length (client_message client_id i) \<le> 27"
  using decimal_bound [of client_id 10] decimal_bound [of i 1] by (simp add: client_message_def)

lemma wire_length: "client_id < 10 ^ 10 \<Longrightarrow> length (wire client_id i xs) \<le> 27 * (5 - i)"
proof (induction client_id i xs rule: wire.induct)
  case (2 client_id i n reply xs)
  show ?case
  proof (cases "i < 5 \<and> 0 \<le> n")
    case True
    have "27 * (5 - i) = 27 + 27 * (5 - (i + 1))" using True by linarith
    with 2 True client_message_length [of client_id i] show ?thesis by auto
  qed (auto simp del: mult_Suc)
qed simp

lemma message_loop_wire:
  assumes "\<forall>x\<in>set xs. snd x < 256" "5 \<le> i + length xs \<or> (\<exists>x\<in>set xs. fst x < 0)"
  shows "message_loop client_id i xs = Some (Inr (wire client_id i xs))"
  using assms
proof (induction client_id i xs rule: message_loop.induct)
  case (2 client_id i n reply xs)
  show ?case
  proof (cases "i < 5 \<and> 0 \<le> n")
    case True
    then have "message_loop client_id (i + 1) xs = Some (Inr (wire client_id (i + 1) xs))"
      using 2(1) 2(2,3) by (auto simp: terminate_reply_def)
    with True 2(2) show ?thesis by (simp add: terminate_reply_def)
  qed auto
qed simp

text \<open>
  The client of \<open>signal_server.c\<close> writes a terminator behind the bytes it gets, into a buffer of
  256 bytes, although \<open>read\<close> may return 256. Together with the server this cannot happen: what the
  server has sent is a prefix of what it has received, and the five messages of a client have at
  most 135 characters in all. So a thread with all its replies, or with a failed \<open>write\<close>, returns.
\<close>

theorem signal_client_in_bounds:
  assumes "client_id < 2 ^ 31" "serve single_round new_connection rounds = Some c"
    and "\<forall>(bytes, n)\<in>set rounds. n = int (length bytes)" "prefix (received c) (wire client_id 0 xs)"
    and "\<forall>x\<in>set xs. snd x \<le> int (length (sent c))" "length xs = 5 \<or> (\<exists>x\<in>set xs. fst x < 0)"
  shows "client_thread True True client_id xs =
      Some (Inr (wire client_id 0 xs, [Acquire Client_Socket, Release Client_Socket])) \<and>
    terminate_reply 256 = Inl Out_Of_Bounds"
proof -
  have id: "client_id < 10 ^ 10" using assms(1) by simp
  have "prefix (sent c) (received c)" using single.serve_prefix [OF assms(2,3)] by simp
  then have "length (sent c) \<le> length (wire client_id 0 xs)" using assms(4) by (meson prefix_length_le order_trans)
  also have "\<dots> \<le> 135" using wire_length [OF id, of 0 xs] by simp
  finally have "\<forall>x\<in>set xs. snd x < 256" using assms(5) by fastforce
  then have "message_loop client_id 0 xs = Some (Inr (wire client_id 0 xs))" using assms(6) by (intro message_loop_wire) auto
  then show ?thesis by (simp add: client_thread_def terminate_reply_def)
qed

theorem signal_client_in_bounds_witness:
  "\<exists>c. serve single_round new_connection [(''Client 7 message 0'', 18)] = Some c \<and>
     client_thread True True 7 [(18, 18), (- 1, 0)] =
       Some (Inr (''Client 7 message 0'', [Acquire Client_Socket, Release Client_Socket]))"
proof -
  have w: "wire 7 0 [(18, 18), (- 1, 0)] = ''Client 7 message 0''" by code_simp
  let ?c = "\<lparr>received = ''Client 7 message 0'', sent = ''Client 7 message 0''\<rparr>"
  have s: "serve single_round new_connection [(''Client 7 message 0'', 18)] = Some ?c"
    by (simp add: single_round_def new_connection_def)
  from signal_client_in_bounds [OF _ s, of 7 "[(18, 18), (- 1, 0)]"] s w show ?thesis by simp
qed

text \<open>
  The test client joins every handle: when a thread could not be created it uses a handle that was
  never set. An argument that is not positive starts no client.
\<close>

lemma join_clients_uncreated:
  assumes "list_all (\<lambda>(created, s, c, xs). created \<longrightarrow> (\<exists>r. \<forall>i. client_thread s c i xs = Some (Inr (r i)))) ts"
    "\<exists>t\<in>set ts. \<not> fst t"
  shows "join_clients i ts = Some (Inl Uninitialised_Read)"
  using assms
proof (induction i ts rule: join_clients.induct)
  case (2 i created s c xs ts)
  then show ?case by (cases created) auto
qed simp

lemma test_client_no_threads: "n \<le> 0 \<Longrightarrow> test_client_main (Some n) a t = Some (Inr [])"
  by (simp add: test_client_main_def num_threads_def)

end
