(* ===== verification/Spec2Isabelle.thy ===== *)
theory Spec2Isabelle
  imports Queue_Benchmark Pool_Benchmark Allocator_Benchmark LRU_Test_Program Ipc_Programs Shell_Processes Mmap_Programs
    Threaded_Server Echo_Clients
begin

text \<open>
  A verification development for the systems-programming collection: nine C programs, each in a
  directory of its own under \<open>src/\<close>, that show one technique of systems programming each. They share
  no code; what they have in common is how they are written, and the development follows that:
  circular buffers, threads with a mutex and condition variables, memory managed by hand, calls of
  the operating system that may fail or do less than was asked.

  \<^bold>\<open>How the code is modelled.\<close> A C struct is a \<open>record\<close>, a function of the code is a HOL function of the
  same name on it. Undefined behaviour and run-time errors are values (\<open>c_error\<close>, \<open>c_result\<close> in
  \<open>Prelude\<close>), so "does not run into undefined behaviour" is something to be proved. Integers of the
  code are \<open>int\<close> with the range of a C \<open>int\<close> checked where a sum is formed, \<open>nat\<close> or \<open>64 word\<close> with the
  wrap-around of \<open>size_t\<close> written out. A loop that ends for a structural reason is a \<open>fun\<close> or a
  \<open>function\<close> with its termination proof; a loop that may run forever (over a linked list, over a
  file with a given step) is a \<open>partial_function (option)\<close>, where \<open>None\<close> means that it does not
  return, and that it returns is proved. No fuel is used. Concurrent code is an inductive step
  relation whose steps are the critical sections, system calls and waits of the code; properties
  hold for every reachable state, that is, for every interleaving. What the operating system, the
  clients of a server or the C library decide (which call fails, how many bytes a call transfers,
  which thread is woken) is an argument of the function or a choice of the step relation.

  \<^bold>\<open>The theories.\<close>

  \<^item> \<open>Prelude\<close>: outcomes of C code, C integers, resources that constructors hold, reachability,
    sequences of calls, decimal numerals, the ring view of an array; the locales \<open>invariant_of\<close>,
    \<open>simulation\<close> and \<open>implements\<close>, which state what an invariant, a simulation and a functional
    refinement have to satisfy and give their consequences for all runs.
  \<^item> \<open>Fifo\<close>: a bounded queue as a list, and the locale \<open>bounded_fifo\<close>, the contract of a circular buffer.
  \<^item> \<open>Monitor\<close>: threads that share a mutex and its condition variables; lemmas about mutual exclusion
    and about signals that are passed on.
  \<^item> \<open>Bounded_Queue\<close>: \<open>03_threads/producer_consumer/queue.c\<close>. \<open>enqueue_body\<close> and \<open>dequeue_body\<close> are the
    critical sections of \<open>queue_enqueue\<close>, \<open>queue_dequeue\<close> and \<open>queue_try_dequeue\<close>, \<open>must_wait\<close> the
    conditions of the wait loops, \<open>queue_step\<close> any number of threads that call the functions. Shown:
    the contract \<open>bounded_fifo\<close>, refinement of the abstract queue under every interleaving, delivery
    in order, no lost wake-up, no deadlock, no leak in \<open>queue_create\<close> and \<open>queue_destroy\<close>.
  \<^item> \<open>Queue_Benchmark\<close>: \<open>03_threads/producer_consumer/test.c\<close>, its producers, its consumers and \<open>main\<close> on
    the queue. Shown: the totals that are reported are consistent, the items of one producer leave the
    queue in order, for every interleaving; and the run in which the consumers give up too early and
    a producer sleeps for ever.
  \<^item> \<open>Thread_Pool\<close>: \<open>03_threads/thread_pool/thread_pool.c\<close>. \<open>pool_step\<close> has the workers and the clients
    that submit, wait and destroy. Shown: tasks start once and in order, \<open>thread_pool_destroy\<close> returns
    after all accepted tasks have been executed, workers are woken when there is work, submitters and
    workers never sleep on \<open>cond_work\<close> together; and that \<open>thread_pool_wait_all\<close> may return too early or
    never.
  \<^item> \<open>Pool_Benchmark\<close>: \<open>03_threads/thread_pool/test.c\<close>, one test as a step relation that uses \<open>pool_step\<close>, and
    the list of the tests that \<open>main\<close> runs. Shown: no submission fails, the number that is printed is
    too small by at most the number of workers, all tasks are completed in the end; and that the
    correctness test may print that it has failed.
  \<^item> \<open>Allocator\<close>: \<open>02_memory/custom_malloc/allocator.c\<close> on a memory of 64-bit cells with bounds and
    alignment checked. Shown: \<open>my_malloc\<close> and \<open>my_free\<close> implement first fit with splitting and merging on
    a list of blocks, clients get disjoint blocks whose contents survive, every call returns; and what
    happens for small remainders, sizes near \<open>SIZE_MAX\<close>, blocks freed in ascending order and blocks
    freed twice.
  \<^item> \<open>Allocator_Benchmark\<close>: \<open>02_memory/custom_malloc/benchmark.c\<close>, run on the model of the allocator, with
    the halves that use the system's \<open>malloc\<close> as sequences of resource events. Shown: the program
    returns for all random numbers, every request is served, released blocks are used again, and which
    blocks are not merged.
  \<^item> \<open>LRU_Cache\<close>: \<open>06_storage/lru_cache/lru_cache.c\<close> on a heap of nodes. Shown: the cache implements a
    list in order of use as long as hits do not make it lose nodes, always for one or two entries; and
    the runs in which the field shared by the list and the hash chains leads to a wrong victim, a use
    after \<open>free\<close>, or an endless lookup.
  \<^item> \<open>LRU_Tests\<close> and \<open>LRU_Test_Program\<close>: \<open>06_storage/lru_cache/test.c\<close>. Shown: a cache that is never full is a
    map, although its list loses nodes; what the three tests print, for all random numbers and all
    addresses; and a schedule of the concurrent test that accesses a freed node, although every call
    holds the mutex.
  \<^item> \<open>Shared_Buffer\<close>: \<open>08_advanced/shared_memory_ipc\<close>. \<open>buffer_write\<close> and \<open>buffer_read\<close> as calls and as atomic
    steps of a producer and any number of consumers (\<open>ipc_step\<close>). Shown: one consumer gets every message
    once, in order and whole; two consumers lose messages; what \<open>buffer_open\<close> leaks.
  \<^item> \<open>Ipc_Programs\<close>: \<open>producer.c\<close> and \<open>consumer.c\<close>, the two programs on the buffer. \<open>programs_step\<close> is a step
    relation in which either may be interrupted by a signal; \<open>producer_main\<close> and \<open>consumer_main\<close> are what
    happens around the loops. It simulates \<open>ipc_step\<close>, so the results about the buffer carry over.
    Shown: the consumer gets the messages of the producer in order and none twice, whenever signals
    arrive; for every number of messages there is a run in which both programs end and everything has
    arrived; what is misreported and what the retries leak.
  \<^item> \<open>Mini_Shell\<close>: \<open>01_processes/mini_shell/shell.c\<close>. Shown: the tokeniser agrees with a reference
    definition and undoes printing, lines are handled in order, a pipeline is connected as intended;
    redirection has no effect, and the pointers the main loop passes are wrong.
  \<^item> \<open>Shell_Processes\<close>: the processes of \<open>execute_piped_commands\<close> and \<open>execute_single_command\<close> of the same
    file, with \<open>fork\<close>, \<open>pipe\<close> and \<open>execvp\<close> that may fail, as a step relation of the shell and its
    children over a shared table of open descriptors. Shown: every run of a pipeline can be completed
    and the shell then waits for no one, a child sees the end of its input exactly when its
    predecessor has ended, which is what closing the copies of the pipes is for.
  \<^item> \<open>Mmap_Search\<close>: \<open>02_memory/mmap_playground\<close>. Shown: the searches through a mapping count the
    occurrences, the search with \<open>read\<close> misses those across the end of a buffer, on the benchmark's own
    files too; where the unsigned differences wrap around; every page is touched once.
  \<^item> \<open>Mmap_Programs\<close>: the programs around them, \<open>benchmark.c\<close> and \<open>vm_study.c\<close> as a whole: the files they
    create, the order of their calls, the failures they test for. Shown: on every run the counts of
    the benchmark differ by the words at buffer boundaries, nothing is read outside a mapping,
    descriptors and mappings are given back; \<open>vm_study\<close> runs to its end on its own file.
  \<^item> \<open>Signal_Server\<close>: the shutdown of \<open>01_processes/signal_handlers/signal_server.c\<close> as a step relation of
    the main thread and the threads of connections. Shown: the count of connections is exact, no
    wake-up is lost, the shutdown can always be completed, it waits for every thread that has counted
    itself in, and the race for a thread that has not.
  \<^item> \<open>Server_Programs\<close>: the setup of the three servers with every failure, and \<open>main\<close> of \<open>server_epoll.c\<close> as
    a whole. Shown: which setups give back what they hold and which do not; the event-driven server
    closes every descriptor and frees every block exactly once, on every path.
  \<^item> \<open>Threaded_Server\<close>: \<open>server_threaded.c\<close> as a step relation of the accepting thread and the handlers over
    a table of descriptors that are reused. Shown: connections are never mixed up, every handler
    echoes to its own client; the program ends without waiting for its handlers; the counter of
    clients is exact up to the handlers between its two updates, and may be negative.
  \<^item> \<open>Echo_Server\<close>: the echo handlers of \<open>signal_server.c\<close> and of \<open>server_threaded.c\<close> and \<open>server_epoll.c\<close> in
    \<open>04_networking/tcp_echo_server\<close>. The locale \<open>echo_handler\<close> is the contract, and
    each handler is an interpretation of it under its own condition on \<open>write\<close>. Shown: what was sent and
    what is pending is what was received, the state of the event loop is well formed, everything is
    echoed in the end; lost bytes, dropped connections and slots that run out.
  \<^item> \<open>Echo_Clients\<close>: \<open>client.c\<close> of that directory and \<open>signal_handlers/client.c\<close>, with all their threads
    and \<open>main\<close>. Shown: the totals that are printed are consistent for every interleaving of the
    workers, resources are given back, the terminator is written inside the buffer.
  \<^item> This theory puts the program \<open>client.c\<close> and the threads of \<open>server_threaded.c\<close> together.

  \<^bold>\<open>Bounds.\<close> The capacity of a queue is at most \<open>2^30\<close>, so that the sum of two indices is an \<open>int\<close>. File
  sizes are below \<open>2^64\<close>, positions in the shared buffer below \<open>2^64\<close>, as the types of the code demand.
  Counts of threads and connections are taken to stay in the range of \<open>int\<close>.

  \<^bold>\<open>Not modelled.\<close> Output, time measurement, and what \<open>atoi\<close> makes of an argument; the programs a shell
  runs, of which only reading, writing and ending matter here; \<open>cpu_bound_task\<close> of the pool's test program,
  which is never called; effects of weak memory on variables
  read outside a critical section (\<open>volatile\<close> flags and \<open>write_pos\<close> are read and written atomically in
  the models).
\<close>

section \<open>A client and a server\<close>

text \<open>
  A session between a worker of \<open>client.c\<close> and a thread of \<open>server_threaded.c\<close>: for every message of
  the client, the rounds in which the server receives it, possibly in pieces, and the results of
  the client's calls of \<open>read\<close>, which together deliver the bytes the server has sent.
\<close>

fun session :: "connection \<Rightarrow> (string \<times> (string \<times> int list) list \<times> int list) list \<Rightarrow> bool" where
  "session c [] = True"
| "session c ((msg, rounds, replies) # es) =
     (case serve threaded_round c rounds of
        None \<Rightarrow> False
      | Some d \<Rightarrow>
          connection.received d = connection.received c @ msg \<and> (\<forall>n\<in>set replies. 0 < n) \<and>
          int (length (connection.sent d)) = int (length (connection.sent c)) + sum_list replies \<and> session d es)"

text \<open>The session of client \<open>client_id\<close>, in which no \<open>write\<close> of the server fails.\<close>

definition served_session ::
  "nat \<Rightarrow> int \<Rightarrow> nat \<Rightarrow> (string \<times> (string \<times> int list) list \<times> int list) list \<Rightarrow> bool" where
  "served_session k m client_id es \<longleftrightarrow> session new_connection es \<and> length es = k \<and>
     (\<forall>(msg, rounds, replies)\<in>set es. msg = client_bytes client_id m \<and>
        (\<forall>(bytes, ns)\<in>set rounds. \<forall>n\<in>set ns. 0 < n))"

text \<open>What its worker meets.\<close>

definition worker_of :: "int \<Rightarrow> (string \<times> (string \<times> int list) list \<times> int list) list \<Rightarrow> worker" where
  "worker_of m es = \<lparr>args_ok = True, create_ok = True, socket_ok = True, connect_ok = True, send_ok = True,
     recv_ok = True, exchanges = map (\<lambda>(msg, rounds, replies). (m, replies)) es\<rparr>"

lemma session_replies:
  assumes "session c es" "connection.sent c = connection.received c" "0 \<le> m"
    and "\<forall>(msg, rounds, replies)\<in>set es. msg = client_bytes i m \<and> (\<forall>(bytes, ns)\<in>set rounds. \<forall>n\<in>set ns. 0 < n)"
  shows "\<forall>(msg, rounds, replies)\<in>set es. (\<forall>n\<in>set replies. 0 < n) \<and> sum_list replies = m"
  using assms
proof (induction c es rule: session.induct)
  case (2 c msg rounds replies es)
  obtain d where d: "serve threaded_round c rounds = Some d" "connection.received d = connection.received c @ msg"
    "\<forall>n\<in>set replies. 0 < n" "int (length (connection.sent d)) = int (length (connection.sent c)) + sum_list replies"
    "session d es" using 2(2) by (auto split: option.splits)
  have s: "connection.sent d = connection.received d"
    using threaded.serve_keeps [OF d(1)] 2(3,5) by auto
  have "int (length msg) = m" using 2(4,5) by (simp add: client_bytes_def)
  then have "sum_list replies = m" using d(2,4) s 2(3) by simp
  with 2(1) [OF d(1) d(5) s 2(4)] 2(5) d(3) show ?case by simp
qed simp

lemma served_healthy: "served_session k m i es \<Longrightarrow> 0 \<le> m \<Longrightarrow> healthy k m (worker_of m es)"
  using session_replies [of new_connection es m i]
  by (auto simp: served_session_def healthy_def worker_of_def list_all_iff)

text \<open>So a worker in such a session counts every message as sent and as received and no error.\<close>

theorem echo_session_complete:
  assumes "served_session k m i es" "0 \<le> m"
  shows "\<exists>r. client_worker k m (worker_of m es) = Some (Inr r) \<and> additions r = concat (replicate k [Sent, Received])"
  using healthy_worker [OF served_healthy [OF assms]] by blast

text \<open>
  C34: The benchmark client and the threaded server fit together. When the client program is run with
  any number of clients from 1 to 10000 and each of its workers talks to a thread of the server of
  which no \<open>write\<close> fails, the program returns 0 and reports for each of its three loads that every
  message was sent and received and that there was no error: however the network cuts the bytes into
  pieces in both directions and however the workers are scheduled.
\<close>

theorem echo_system_complete:
  assumes "1 \<le> n" "n \<le> 10000"
    and "\<forall>i. served_session 100 64 i (e1 i) \<and> served_session 100 1024 i (e2 i) \<and> served_session 50 4096 i (e3 i)"
  shows "client_main (Some n) (True, \<lambda>i. worker_of 64 (e1 i), s1) (True, \<lambda>i. worker_of 1024 (e2 i), s2)
      (True, \<lambda>i. worker_of 4096 (e3 i), s3) =
    Some (Inr (0, map (\<lambda>k. \<lparr>messages_sent = k * nat n, messages_received = k * nat n, errors = 0\<rparr>) [100, 100, 50]))"
proof -
  have "healthy 100 64 (worker_of 64 (e1 i)) \<and> healthy 100 1024 (worker_of 1024 (e2 i)) \<and>
      healthy 50 4096 (worker_of 4096 (e3 i))" for i
    using assms(3) served_healthy [of 100 64 i "e1 i"] served_healthy [of 100 1024 i "e2 i"]
      served_healthy [of 50 4096 i "e3 i"] by simp
  with assms(1,2) show ?thesis by (intro main_runs_healthy) simp_all
qed

text \<open>A session in which the server gets each message in one piece.\<close>

definition plain_session :: "nat \<Rightarrow> int \<Rightarrow> nat \<Rightarrow> (string \<times> (string \<times> int list) list \<times> int list) list" where
  "plain_session k m i = replicate k (client_bytes i m, [(client_bytes i m, [m])], [m])"

lemma plain_session_ok: "0 < m \<Longrightarrow> served_session k m i (plain_session k m i)"
proof -
  assume m: "0 < m"
  have "session c (replicate k (client_bytes i m, [(client_bytes i m, [m])], [m]))" for c
    using m by (induction k arbitrary: c) (simp_all add: threaded_round_def client_bytes_def)
  with m show ?thesis by (simp add: served_session_def plain_session_def)
qed

theorem echo_system_complete_witness:
  "client_main (Some 2) (True, \<lambda>i. worker_of 64 (plain_session 100 64 i), [1, 0])
      (True, \<lambda>i. worker_of 1024 (plain_session 100 1024 i), []) (True, \<lambda>i. worker_of 4096 (plain_session 50 4096 i), []) =
    Some (Inr (0, map (\<lambda>n. \<lparr>messages_sent = n, messages_received = n, errors = 0\<rparr>) [200, 200, 100]))"
  using echo_system_complete [of 2 "plain_session 100 64" "plain_session 100 1024" "plain_session 50 4096"]
  by (simp add: plain_session_ok)

end
